(* ===== verification/Prelude.thy ===== *)
theory Prelude
  imports Main "HOL-Library.Word"
begin

text \<open>
  Shared vocabulary of the development: the outcome of a Go call (it returns, it panics or it
  blocks forever), Go error values, Go slices with their length and capacity, and the generic
  list and word lemmas that the component theories use.
\<close>

section \<open>Outcomes of a Go call\<close>

text \<open>
  A Go function returns a value, ends in a run-time panic (index or slice bounds, nil
  dereference, an explicit \<open>panic\<close>), or never returns because it waits for something that does
  not come.
\<close>

datatype 'a go = Ret 'a | Panic | Blocked

fun go_bind :: "'a go \<Rightarrow> ('a \<Rightarrow> 'b go) \<Rightarrow> 'b go" where
  "go_bind (Ret x) f = f x"
| "go_bind Panic f = Panic"
| "go_bind Blocked f = Blocked"

lemma go_bind_eq_Ret: "go_bind m f = Ret y \<longleftrightarrow> (\<exists>x. m = Ret x \<and> f x = Ret y)"
  by (cases m) auto

lemma go_bind_assoc: "go_bind (go_bind m f) g = go_bind m (\<lambda>x. go_bind (f x) g)"
  by (cases m) simp_all

lemma go_bind_cong [fundef_cong]:
  "m = m' \<Longrightarrow> (\<And>x. m' = Ret x \<Longrightarrow> f x = f' x) \<Longrightarrow> go_bind m f = go_bind m' f'"
  by (cases m') auto

named_theorems frame "which fields an operation leaves alone"

section \<open>Error values\<close>

text \<open>
  The error values of \<open>utils/errs/errs.go\<close>, the \<open>syscall.Errno\<close> values the code compares with,
  the errors of the standard library it returns, errors made by \<open>errors.New\<close> and
  \<open>fmt.Errorf\<close> (its text, descriptor number and inner error), and \<open>os.NewSyscallError\<close>, which wraps a value (so that a wrapped \<open>EAGAIN\<close>
  is no longer equal to \<open>EAGAIN\<close>). The nil error is \<open>None\<close> of \<open>error option\<close>.
\<close>

datatype error =
    ErrAcceptSocket
  | ErrEngineShutdown
  | ErrUnsupportedOp
  | EAGAIN
  | ECONNRESET
  | EINVAL
  | ENOENT
  | EINTR
  | Errno nat
  | EOF
  | ErrHijacked
  | ErrBodyNotAllowed
  | ErrContentLength
  | NewError string
  | SyscallError string error
  | JoinedError error error
  | Errorf string int error

type_synonym nerror = "error option"

definition SysError :: "string \<Rightarrow> nerror \<Rightarrow> nerror" where
  "SysError name e = (case e of None \<Rightarrow> None | Some x \<Rightarrow> Some (SyscallError name x))"

lemma SysError_None [simp]: "SysError name e = None \<longleftrightarrow> e = None"
  by (simp add: SysError_def split: option.split)

section \<open>Bytes and slices\<close>

type_synonym bytes = "char list"

text \<open>
  A Go slice shares memory with its backing array: \<open>mem\<close> is the memory from the slice's first
  element to the end of its capacity and \<open>slen\<close> its length. A slice expression is checked
  against the capacity, not the length, so it can expose bytes behind the end of the slice.
\<close>

record 'a gslice =
  mem :: "'a list"
  slen :: nat

definition slice_ok :: "'a gslice \<Rightarrow> bool" where
  "slice_ok s \<longleftrightarrow> slen s \<le> length (mem s)"

definition contents :: "'a gslice \<Rightarrow> 'a list" where
  "contents s = take (slen s) (mem s)"

definition of_list :: "'a list \<Rightarrow> 'a gslice" where
  "of_list xs = \<lparr>mem = xs, slen = length xs\<rparr>"

definition slice_expr :: "'a gslice \<Rightarrow> int \<Rightarrow> int \<Rightarrow> 'a gslice go" where
  "slice_expr s lo hi =
     (if 0 \<le> lo \<and> lo \<le> hi \<and> hi \<le> int (length (mem s))
      then Ret \<lparr>mem = drop (nat lo) (mem s), slen = nat (hi - lo)\<rparr> else Panic)"

definition slice_from :: "'a gslice \<Rightarrow> int \<Rightarrow> 'a gslice go" where
  "slice_from s lo = slice_expr s lo (int (slen s))"

definition index_expr :: "'a list \<Rightarrow> int \<Rightarrow> 'a go" where
  "index_expr xs i = (if 0 \<le> i \<and> i < int (length xs) then Ret (xs ! nat i) else Panic)"

lemma contents_of_list [simp]: "contents (of_list xs) = xs"
  by (simp add: contents_def of_list_def)

lemma slice_ok_of_list [simp]: "slice_ok (of_list xs)"
  by (simp add: slice_ok_def of_list_def)

lemma length_contents [simp]: "slice_ok s \<Longrightarrow> length (contents s) = slen s"
  by (simp add: slice_ok_def contents_def)

lemma slice_expr_Ret:
  assumes "0 \<le> lo" "lo \<le> hi" "hi \<le> int (slen s)" "slice_ok s"
  shows "\<exists>r. slice_expr s lo hi = Ret r \<and> slice_ok r \<and> slen r = nat (hi - lo) \<and>
       contents r = take (nat (hi - lo)) (drop (nat lo) (contents s))"
proof -
  obtain l where l: "lo = int l" using assms(1) by (metis nonneg_int_cases)
  obtain h where h: "hi = int h" using assms(1,2) by (metis nonneg_int_cases order_trans)
  have "l \<le> h" "h \<le> slen s" "slen s \<le> length (mem s)" "nat (hi - lo) = h - l"
    using assms l h by (auto simp: slice_ok_def)
  then show ?thesis
    using l h by (auto simp: slice_expr_def slice_ok_def contents_def drop_take)
qed

lemma slice_from_Panic: "int (slen s) < lo \<Longrightarrow> slice_from s lo = Panic"
  by (simp add: slice_from_def slice_expr_def)

lemma index_expr_Ret [simp]: "i < length xs \<Longrightarrow> index_expr xs (int i) = Ret (xs ! i)"
  by (simp add: index_expr_def)

lemma index_expr_Panic [simp]: "length xs \<le> i \<Longrightarrow> index_expr xs (int i) = Panic"
  by (simp add: index_expr_def)

section \<open>Lists\<close>

lemma sum_list_update_int:
  fixes f :: "'a \<Rightarrow> int"
  assumes "i < length xs"
  shows "sum_list (map f (xs[i := y])) = sum_list (map f xs) - f (xs ! i) + f y"
  using assms
proof (induction xs arbitrary: i)
  case Nil
  then show ?case by simp
next
  case (Cons x xs)
  then show ?case by (cases i) auto
qed

lemma concat_map_snoc [simp]: "concat (map f (xs @ [x])) = concat (map f xs) @ f x"
  by simp

lemma drop_Suc_conv_tl: "i < length xs \<Longrightarrow> drop i xs = xs ! i # drop (Suc i) xs"
  by (rule Cons_nth_drop_Suc [symmetric])

section \<open>Copying\<close>

text \<open>The memory after \<open>copy(buf[k:], src)\<close>, which stops at the end of \<open>buf\<close>.\<close>

definition copy_mem :: "nat \<Rightarrow> 'a list \<Rightarrow> 'a list \<Rightarrow> 'a list" where
  "copy_mem k src buf = take k buf @ take (length buf - k) src @ drop (k + length src) buf"

lemma length_copy_mem [simp]: "length (copy_mem k src buf) = length buf"
  by (simp add: copy_mem_def)

lemma take_copy_mem:
  "k + length src \<le> length buf \<Longrightarrow> take (k + length src) (copy_mem k src buf) = take k buf @ src"
  by (cases src) (simp_all add: copy_mem_def min_def)

section \<open>Codecs\<close>

text \<open>
  The interface of an encoding whose decoder returns what it has not consumed: the decoder gets back
  the value from its encoding and leaves what follows. Then a sequence of encodings is decoded one by
  one, and no encoding can be taken for another.
\<close>

primrec dec_many :: "(bytes \<Rightarrow> ('b \<times> bytes) option) \<Rightarrow> nat \<Rightarrow> bytes \<Rightarrow> ('b list \<times> bytes) option" where
  "dec_many dec 0 s = Some ([], s)"
| "dec_many dec (Suc n) s =
     (case dec s of
        None \<Rightarrow> None
      | Some (x, t) \<Rightarrow> map_option (\<lambda>(xs, u). (x # xs, u)) (dec_many dec n t))"

locale codec =
  fixes ok :: "'a \<Rightarrow> bool"
    and enc :: "'a \<Rightarrow> bytes"
    and dec :: "bytes \<Rightarrow> ('b \<times> bytes) option"
    and view :: "'a \<Rightarrow> 'b"
  assumes dec_enc: "ok x \<Longrightarrow> dec (enc x @ s) = Some (view x, s)"
begin

lemma dec_many_enc:
  "list_all ok xs \<Longrightarrow> dec_many dec (length xs) (concat (map enc xs) @ s) = Some (map view xs, s)"
  by (induction xs) (simp_all add: dec_enc)

lemma unambiguous: "ok x \<Longrightarrow> ok y \<Longrightarrow> enc x @ s = enc y @ t \<Longrightarrow> view x = view y \<and> s = t"
  using dec_enc [of x s] dec_enc [of y t] by simp

end

section \<open>Words\<close>

lemma word32_of_nat_0: "n < 2 ^ 32 \<Longrightarrow> (word_of_nat n :: 32 word) = 0 \<longleftrightarrow> n = 0"
  by (auto simp: word_of_nat_eq_0_iff dest: dvd_imp_le)

end
