(* ===== verification/Utils.thy ===== *)
theory Utils
  imports Prelude
begin

text \<open>
  The helpers of \<open>utils/utils.go\<close>: \<open>SplitDataForWritev\<close>, which cuts a byte slice into the chunks
  that are handed to \<open>writev\<close>, the conversions between strings and byte slices that share their memory,
  and \<open>StrSliceContains\<close>.
\<close>

section \<open>SplitDataForWritev\<close>

text \<open>
  The \<open>for\<close> loop from its head: \<open>idx\<close> is the index before the increment. Not returning is
  \<open>None\<close>: a chunk size of 0 keeps \<open>idx\<close> where it is.
\<close>

partial_function (option) split_loop ::
  "char gslice \<Rightarrow> int \<Rightarrow> int \<Rightarrow> char gslice list \<Rightarrow> char gslice list go option" where
  "split_loop data chunkSize idx result =
     (let idx' = idx + chunkSize in
      if idx' < int (slen data) - 1 then
        (case slice_expr data idx' (idx' + chunkSize) of
           Ret c \<Rightarrow> split_loop data chunkSize idx' (result @ [c])
         | Panic \<Rightarrow> Some Panic
         | Blocked \<Rightarrow> Some Blocked)
      else
        (case slice_from data idx' of
           Ret c \<Rightarrow> Some (Ret (result @ [c]))
         | Panic \<Rightarrow> Some Panic
         | Blocked \<Rightarrow> Some Blocked))"

definition SplitDataForWritev :: "char gslice \<Rightarrow> int \<Rightarrow> char gslice list go option" where
  "SplitDataForWritev data chunkSize =
     (if int (slen data) \<le> chunkSize then Some (Ret [data])
      else (case slice_expr data 0 chunkSize of
              Ret c \<Rightarrow> split_loop data chunkSize 0 [c]
            | Panic \<Rightarrow> Some Panic
            | Blocked \<Rightarrow> Some Blocked))"

text \<open>
  The loop invariant is that the chunks so far hold the first \<open>idx + chunkSize\<close> bytes. The loop
  ends well when what is left is a multiple of the chunk size, or one byte more.
\<close>

lemma split_loop_good:
  assumes "slice_ok data" "0 < C" "0 \<le> idx" "idx + C \<le> int (slen data)"
    and "(int (slen data) - idx) mod C \<le> 1"
  shows "\<exists>rs. split_loop data C idx acc = Some (Ret (acc @ rs)) \<and>
           concat (map contents rs) = drop (nat (idx + C)) (contents data) \<and>
           (\<forall>r \<in> set rs. slice_ok r \<and> int (slen r) \<le> C)"
  using assms
proof (induction "nat (int (slen data) - idx)" arbitrary: idx acc rule: less_induct)
  case less
  let ?L = "int (slen data)" and ?i = "idx + C"
  have rest: "(?L - ?i) mod C \<le> 1"
    using less.prems(5) by (metis diff_diff_eq minus_mod_self2)
  show ?case
  proof (cases "?i < ?L - 1")
    case True
    have room: "?i + C \<le> ?L"
    proof (rule ccontr)
      assume "\<not> ?i + C \<le> ?L"
      then have "(?L - ?i) mod C = ?L - ?i"
        using less.prems(4) by (intro mod_pos_pos_trivial) auto
      with rest True show False by linarith
    qed
    then obtain c where c: "slice_expr data ?i (?i + C) = Ret c" "slice_ok c" "slen c = nat C"
        "contents c = take (nat C) (drop (nat ?i) (contents data))"
      using slice_expr_Ret [of ?i "?i + C" data] less.prems by auto
    obtain rs where rs: "split_loop data C ?i (acc @ [c]) = Some (Ret ((acc @ [c]) @ rs))"
        "concat (map contents rs) = drop (nat (?i + C)) (contents data)"
        "\<forall>r \<in> set rs. slice_ok r \<and> int (slen r) \<le> C"
      using less.hyps [of ?i "acc @ [c]"] less.prems True room rest by auto
    have "nat (?i + C) = nat C + nat ?i"
      using less.prems by (simp add: nat_add_distrib)
    then have "concat (map contents (c # rs)) = drop (nat ?i) (contents data)"
      using rs(2) c(4) by (simp add: append_take_drop_id flip: drop_drop)
    moreover have "split_loop data C idx acc = Some (Ret (acc @ c # rs))"
      using rs(1) True c(1) by (subst split_loop.simps) (simp add: Let_def)
    ultimately show ?thesis
      using rs(3) c(2,3) less.prems(2) by (intro exI [of _ "c # rs"]) auto
  next
    case False
    then obtain c where c: "slice_expr data ?i ?L = Ret c" "slice_ok c" "slen c = nat (?L - ?i)"
        "contents c = take (nat (?L - ?i)) (drop (nat ?i) (contents data))"
      using slice_expr_Ret [of ?i ?L data] less.prems by auto
    have "nat (?L - ?i) = length (drop (nat ?i) (contents data))"
      using less.prems(1,2,3) by (simp add: nat_diff_distrib)
    then have "contents c = drop (nat ?i) (contents data)"
      using c(4) by simp
    moreover have "split_loop data C idx acc = Some (Ret (acc @ [c]))"
      using False c(1) by (subst split_loop.simps) (simp add: Let_def slice_from_def)
    ultimately show ?thesis
      using c(2,3) False less.prems by (intro exI [of _ "[c]"]) auto
  qed
qed

text \<open>
  In every other case the last full-size slice reaches beyond the length: it panics where the
  capacity ends, or it is taken and the next \<open>data[idx:]\<close> starts behind the end and panics.
\<close>

lemma split_loop_bad:
  assumes "slice_ok data" "0 < C" "0 \<le> idx" "idx + C \<le> int (slen data)"
    and "1 < (int (slen data) - idx) mod C"
  shows "split_loop data C idx acc = Some Panic"
  using assms
proof (induction "nat (int (slen data) - idx)" arbitrary: idx acc rule: less_induct)
  case less
  let ?L = "int (slen data)" and ?i = "idx + C"
  have rest: "1 < (?L - ?i) mod C"
    using less.prems(5) by (metis diff_diff_eq minus_mod_self2)
  moreover have "(?L - ?i) mod C \<le> ?L - ?i"
    using less.prems(2,4) by (simp add: zmod_le_nonneg_dividend)
  ultimately have inside: "?i < ?L - 1" by linarith
  have tail: "split_loop data C ?i acc' = Some Panic" for acc'
  proof (cases "?i + C \<le> ?L")
    case True
    then show ?thesis using less.hyps [of ?i] less.prems rest by auto
  next
    case False
    then show ?thesis
      by (subst split_loop.simps) (simp add: Let_def slice_from_Panic)
  qed
  have "slice_expr data ?i (?i + C) \<noteq> Blocked" by (simp add: slice_expr_def)
  then show ?case
    using inside tail by (subst split_loop.simps) (auto simp: Let_def split: go.split)
qed

text \<open>
  C14. \<open>SplitDataForWritev\<close>, for a positive chunk size, on every length: when the data fits one
  chunk, or its length is a multiple of the chunk size or one more than a multiple, the call
  returns chunks of at most \<open>chunkSize\<close> bytes whose concatenation is the data; for every other
  length the call panics, whatever the capacity of the slice.
\<close>

theorem split_data_cases:
  assumes "slice_ok data" and "0 < C"
  shows "if int (slen data) \<le> C \<or> int (slen data) mod C \<le> 1
         then \<exists>rs. SplitDataForWritev data C = Some (Ret rs) \<and>
                concat (map contents rs) = contents data \<and>
                list_all (\<lambda>r. int (length (contents r)) \<le> C) rs
         else SplitDataForWritev data C = Some Panic"
proof (cases "int (slen data) \<le> C")
  case True
  then show ?thesis using assms by (auto simp: SplitDataForWritev_def)
next
  case False
  then obtain c where c: "slice_expr data 0 C = Ret c" "slice_ok c" "slen c = nat C"
      "contents c = take (nat C) (contents data)"
    using slice_expr_Ret [of 0 C data] assms by auto
  then have unf: "SplitDataForWritev data C = split_loop data C 0 [c]"
    using False by (simp add: SplitDataForWritev_def)
  show ?thesis
  proof (cases "int (slen data) mod C \<le> 1")
    case True
    then show ?thesis
      using split_loop_good [of data C 0 "[c]"] False c(2-4) assms
      by (auto simp: unf list_all_iff)
  next
    case bad: False
    then show ?thesis
      using split_loop_bad [of data C 0 "[c]"] False assms by (auto simp: unf)
  qed
qed

theorem split_data_cases_witness:
  "SplitDataForWritev (of_list ''abcdefgh'') 3 = Some Panic \<and>
   (\<exists>rs. SplitDataForWritev (of_list ''abcdefg'') 3 = Some (Ret rs) \<and>
      concat (map contents rs) = ''abcdefg'')"
  using split_data_cases [of "of_list ''abcdefgh''" 3] split_data_cases [of "of_list ''abcdefg''" 3]
  by (auto simp: of_list_def slice_ok_def contents_def)

section \<open>Strings and byte slices that share their memory\<close>

text \<open>
  The headers of a slice and of a string, as words, and what they show of the memory they point into. A
  string header is the first two words of a slice header, which is what \<open>BytesToString\<close> reads.
\<close>

record string_header =
  h_Data :: nat
  h_Len :: nat

record slice_header = string_header +
  h_Cap :: nat

definition BytesToString :: "slice_header \<Rightarrow> string_header" where
  "BytesToString b = \<lparr>h_Data = h_Data b, h_Len = h_Len b\<rparr>"

definition StringToBytes :: "string_header \<Rightarrow> slice_header" where
  "StringToBytes s = \<lparr>h_Data = h_Data s, h_Len = h_Len s, h_Cap = h_Len s\<rparr>"

definition h_shows :: "char list \<Rightarrow> 'a string_header_scheme \<Rightarrow> bytes" where
  "h_shows m h = take (h_Len h) (drop (h_Data h) m)"

text \<open>
  Both directions show the same bytes in every memory, so that the string follows later writes through the slice;
  the way back loses the spare capacity, so that an append does not write behind the string.
\<close>

lemma converted_shows: "h_shows m (BytesToString b) = h_shows m b" "h_shows m (StringToBytes s) = h_shows m s"
  by (simp_all add: h_shows_def BytesToString_def StringToBytes_def)

lemma string_bytes_string: "BytesToString (StringToBytes s) = s"
  by (simp add: BytesToString_def StringToBytes_def)

lemma bytes_string_bytes: "StringToBytes (BytesToString b) = b\<lparr>h_Cap := h_Len b\<rparr>"
  by (simp add: BytesToString_def StringToBytes_def)

lemma string_follows_writes:
  assumes "h_Data b + h_Len b \<le> length m" "i < h_Len b"
  shows "h_shows (m[h_Data b + i := c]) (BytesToString b) = (h_shows m (BytesToString b))[i := c]"
proof -
  have "drop (h_Data b) (m[h_Data b + i := c]) = (drop (h_Data b) m)[i := c]" by (simp add: drop_update_swap)
  then show ?thesis by (simp add: h_shows_def BytesToString_def take_update_swap)
qed

section \<open>StrSliceContains\<close>

fun StrSliceContains :: "string list \<Rightarrow> string \<Rightarrow> bool" where
  "StrSliceContains [] s = False"
| "StrSliceContains (v # ss) s = (if v = s then True else StrSliceContains ss s)"

lemma StrSliceContains_iff: "StrSliceContains ss s \<longleftrightarrow> s \<in> set ss"
  by (induction ss) auto

end
