(* ===== verification/LockFreeQueue.thy ===== *)
theory LockFreeQueue
  imports Prelude
begin

text \<open>
  The lock-free queue of \<open>utils/queue/lock_free_queue.go\<close>, at the grain of its atomic steps: the
  nodes live in a heap, every \<open>load\<close>, \<open>cas\<close> and \<open>AddInt32\<close> is one step of one goroutine, and a
  run interleaves the steps of any number of goroutines in any order. A node is never freed while
  a goroutine can still reach it (Go is garbage collected), so an allocation returns an address
  that was never used.
\<close>

section \<open>State\<close>

type_synonym addr = nat

record 'v node =
  Value :: "'v option"
  Next :: "addr option"

record 'v queue =
  heap :: "addr \<Rightarrow> 'v node"
  brk :: addr
  Head :: addr
  Tail :: addr
  Length :: "32 word"

definition NewQueue :: "'v queue" where
  "NewQueue = \<lparr>heap = (\<lambda>_. \<lparr>Value = None, Next = None\<rparr>), brk = 1, Head = 0, Tail = 0, Length = 0\<rparr>"

definition cas_next :: "'v queue \<Rightarrow> addr \<Rightarrow> addr option \<Rightarrow> addr \<Rightarrow> bool \<times> 'v queue" where
  "cas_next q p old new =
     (if Next (heap q p) = old
      then (True, q\<lparr>heap := (heap q)(p := (heap q p)\<lparr>Next := Some new\<rparr>)\<rparr>) else (False, q))"

definition cas_Tail :: "'v queue \<Rightarrow> addr \<Rightarrow> addr \<Rightarrow> bool \<times> 'v queue" where
  "cas_Tail q old new = (if Tail q = old then (True, q\<lparr>Tail := new\<rparr>) else (False, q))"

definition cas_Head :: "'v queue \<Rightarrow> addr \<Rightarrow> addr \<Rightarrow> bool \<times> 'v queue" where
  "cas_Head q old new = (if Head q = old then (True, q\<lparr>Head := new\<rparr>) else (False, q))"

lemmas cas_defs = cas_next_def cas_Tail_def cas_Head_def

section \<open>The program of a goroutine\<close>

text \<open>
  A goroutine is outside the queue (\<open>Idle\<close>, or \<open>Finished\<close> with the result of its last call) or
  before one of the atomic steps of a call; the arguments are its local variables. \<open>Crashed\<close> is
  the nil dereference of \<open>next.Value\<close>.
\<close>

datatype 'v result = EnqDone | DeqDone "'v option" | EmptyDone bool

datatype 'v pc =
    Idle
  | Finished "'v result"
  | Crashed
  | Enq_load_tail addr                          \<comment> \<open>n\<close>
  | Enq_load_next addr addr                     \<comment> \<open>n tail\<close>
  | Enq_check addr addr "addr option"           \<comment> \<open>n tail next\<close>
  | Enq_link addr addr                          \<comment> \<open>n tail\<close>
  | Enq_help addr addr addr                     \<comment> \<open>n tail next\<close>
  | Enq_swing addr addr                         \<comment> \<open>n tail\<close>
  | Enq_count
  | Deq_load_head
  | Deq_load_tail addr                          \<comment> \<open>head\<close>
  | Deq_load_next addr addr                     \<comment> \<open>head tail\<close>
  | Deq_check addr addr "addr option"           \<comment> \<open>head tail next\<close>
  | Deq_help addr addr                          \<comment> \<open>tail next\<close>
  | Deq_value addr "addr option"                \<comment> \<open>head next\<close>
  | Deq_swing addr addr "'v option"             \<comment> \<open>head next task\<close>
  | Deq_count "'v option"                       \<comment> \<open>task\<close>
  | Empty_load

datatype 'v call = Enqueue 'v | Dequeue | IsEmpty

text \<open>The entry of a call. \<open>Enqueue\<close> allocates its node first.\<close>

fun start :: "'v call \<Rightarrow> 'v queue \<Rightarrow> 'v queue \<times> 'v pc" where
  "start (Enqueue task) q =
     (q\<lparr>heap := (heap q)(brk q := \<lparr>Value = Some task, Next = None\<rparr>), brk := Suc (brk q)\<rparr>,
      Enq_load_tail (brk q))"
| "start Dequeue q = (q, Deq_load_head)"
| "start IsEmpty q = (q, Empty_load)"

text \<open>
  Every step says what it does to the abstract queue: append, remove, find it empty, or nothing.
  \<open>LinNil\<close> marks the load of a nil \<open>next\<close> with \<open>head = tail\<close>, the only way to a nil result.
\<close>

datatype 'v label = Tau | LinEnq "'v option" | LinDeq "'v option" | LinNil

fun tstep :: "'v queue \<Rightarrow> 'v pc \<Rightarrow> 'v label \<times> 'v queue \<times> 'v pc" where
  "tstep q (Enq_load_tail n) = (Tau, q, Enq_load_next n (Tail q))"
| "tstep q (Enq_load_next n tail) = (Tau, q, Enq_check n tail (Next (heap q tail)))"
| "tstep q (Enq_check n tail next) =
     (if tail = Tail q
      then (case next of None \<Rightarrow> (Tau, q, Enq_link n tail)
                       | Some x \<Rightarrow> (Tau, q, Enq_help n tail x))
      else (Tau, q, Enq_load_tail n))"
| "tstep q (Enq_link n tail) =
     (case cas_next q tail None n of
        (ok, q') \<Rightarrow> if ok then (LinEnq (Value (heap q n)), q', Enq_swing n tail)
                    else (Tau, q', Enq_load_tail n))"
| "tstep q (Enq_help n tail x) = (Tau, snd (cas_Tail q tail x), Enq_load_tail n)"
| "tstep q (Enq_swing n tail) = (Tau, snd (cas_Tail q tail n), Enq_count)"
| "tstep q Enq_count = (Tau, q\<lparr>Length := Length q + 1\<rparr>, Finished EnqDone)"
| "tstep q Deq_load_head = (Tau, q, Deq_load_tail (Head q))"
| "tstep q (Deq_load_tail head) = (Tau, q, Deq_load_next head (Tail q))"
| "tstep q (Deq_load_next head tail) =
     (if head = tail \<and> Next (heap q head) = None then LinNil else Tau, q,
      Deq_check head tail (Next (heap q head)))"
| "tstep q (Deq_check head tail next) =
     (if head = Head q
      then (if head = tail
            then (case next of None \<Rightarrow> (Tau, q, Finished (DeqDone None))
                             | Some x \<Rightarrow> (Tau, q, Deq_help tail x))
            else (Tau, q, Deq_value head next))
      else (Tau, q, Deq_load_head))"
| "tstep q (Deq_help tail x) = (Tau, snd (cas_Tail q tail x), Deq_load_head)"
| "tstep q (Deq_value head next) =
     (case next of None \<Rightarrow> (Tau, q, Crashed)
                 | Some x \<Rightarrow> (Tau, q, Deq_swing head x (Value (heap q x))))"
| "tstep q (Deq_swing head x task) =
     (case cas_Head q head x of
        (ok, q') \<Rightarrow> if ok then (LinDeq task, q', Deq_count task) else (Tau, q', Deq_load_head))"
| "tstep q (Deq_count task) = (Tau, q\<lparr>Length := Length q - 1\<rparr>, Finished (DeqDone task))"
| "tstep q Empty_load = (Tau, q, Finished (EmptyDone (Length q = 0)))"
| "tstep q p = (Tau, q, p)"

fun at_rest :: "'v pc \<Rightarrow> bool" where
  "at_rest Idle = True"
| "at_rest (Finished r) = True"
| "at_rest p = False"

section \<open>The system of goroutines\<close>

record 'v qsys =
  shared :: "'v queue"
  pcs :: "'v pc list"

inductive qstep :: "'v qsys \<Rightarrow> 'v label \<Rightarrow> 'v qsys \<Rightarrow> bool" where
  call: "i < length (pcs s) \<Longrightarrow> at_rest (pcs s ! i) \<Longrightarrow> start c (shared s) = (q', p') \<Longrightarrow>
    qstep s Tau (s\<lparr>shared := q', pcs := (pcs s)[i := p']\<rparr>)"
| run: "i < length (pcs s) \<Longrightarrow> \<not> at_rest (pcs s ! i) \<Longrightarrow>
    tstep (shared s) (pcs s ! i) = (l, q', p') \<Longrightarrow>
    qstep s l (s\<lparr>shared := q', pcs := (pcs s)[i := p']\<rparr>)"

inductive qexec :: "'v qsys \<Rightarrow> 'v label list \<Rightarrow> 'v qsys \<Rightarrow> bool" where
  none: "qexec s [] s"
| more: "qexec s ls t \<Longrightarrow> qstep t l u \<Longrightarrow> qexec s (ls @ [l]) u"

definition init_sys :: "nat \<Rightarrow> 'v qsys" where
  "init_sys n = \<lparr>shared = NewQueue, pcs = replicate n Idle\<rparr>"

text \<open>
  A schedule makes the relation executable: each entry names a goroutine and either the call it
  enters or (\<open>None\<close>) that it makes its next step.
\<close>

fun sched_step :: "'v qsys \<Rightarrow> nat \<times> 'v call option \<Rightarrow> ('v label \<times> 'v qsys) option" where
  "sched_step s (i, Some c) =
     (if i < length (pcs s) \<and> at_rest (pcs s ! i)
      then (case start c (shared s) of
              (q', p') \<Rightarrow> Some (Tau, s\<lparr>shared := q', pcs := (pcs s)[i := p']\<rparr>)) else None)"
| "sched_step s (i, None) =
     (if i < length (pcs s) \<and> \<not> at_rest (pcs s ! i)
      then (case tstep (shared s) (pcs s ! i) of
              (l, q', p') \<Rightarrow> Some (l, s\<lparr>shared := q', pcs := (pcs s)[i := p']\<rparr>)) else None)"

fun sched :: "'v qsys \<Rightarrow> (nat \<times> 'v call option) list \<Rightarrow> ('v label list \<times> 'v qsys) option" where
  "sched s [] = Some ([], s)"
| "sched s (a # as) =
     (case sched_step s a of None \<Rightarrow> None
      | Some (l, s') \<Rightarrow> (case sched s' as of None \<Rightarrow> None | Some (ls, s'') \<Rightarrow> Some (l # ls, s'')))"

lemma sched_step_qstep: "sched_step s (i, c) = Some (l, s') \<Longrightarrow> qstep s l s'"
  by (cases c) (auto intro: qstep.intros split: if_splits prod.splits)

lemma sched_qexec: "qexec s0 ls0 s \<Longrightarrow> sched s as = Some (ls, s') \<Longrightarrow> qexec s0 (ls0 @ ls) s'"
proof (induction s as arbitrary: ls0 ls s' rule: sched.induct)
  case (1 s)
  then show ?case by simp
next
  case (2 s a as)
  obtain l s1 where st: "sched_step s a = Some (l, s1)" using 2(3) by (auto split: option.splits)
  then obtain ls1 where rest: "sched s1 as = Some (ls1, s')" "ls = l # ls1"
    using 2(3) by (auto split: option.splits)
  have "qexec s0 (ls0 @ [l]) s1"
    using qexec.more [OF 2(2)] sched_step_qstep st by (cases a) blast
  then show ?case using "2.IH" [OF st refl, of "ls0 @ [l]" ls1 s'] rest by simp
qed

lemma sched_exec: "sched (init_sys n) as = Some (ls, s) \<Longrightarrow> qexec (init_sys n) ls s"
  using sched_qexec [OF qexec.none] by fastforce

fun enqs :: "'v label list \<Rightarrow> 'v option list" where
  "enqs [] = []"
| "enqs (LinEnq v # ls) = v # enqs ls"
| "enqs (l # ls) = enqs ls"

fun deqs :: "'v label list \<Rightarrow> 'v option list" where
  "deqs [] = []"
| "deqs (LinDeq v # ls) = v # deqs ls"
| "deqs (l # ls) = deqs ls"

lemma enqs_append [simp]: "enqs (xs @ ys) = enqs xs @ enqs ys"
  by (induction xs rule: enqs.induct) auto

lemma deqs_append [simp]: "deqs (xs @ ys) = deqs xs @ deqs ys"
  by (induction xs rule: deqs.induct) auto

section \<open>The invariant\<close>

text \<open>
  \<open>ch\<close> lists every node that was ever linked, in order; \<open>h\<close> and \<open>t\<close> are the positions of \<open>Head\<close>
  and \<open>Tail\<close> in it. \<open>Tail\<close> never falls behind \<open>Head\<close> and lags the last node by one at most.
\<close>

definition at :: "addr list \<Rightarrow> nat \<Rightarrow> addr \<Rightarrow> bool" where
  "at ch i a \<longleftrightarrow> i < length ch \<and> ch ! i = a"

definition chain_ok :: "addr list \<Rightarrow> nat \<Rightarrow> nat \<Rightarrow> 'v queue \<Rightarrow> bool" where
  "chain_ok ch h t q \<longleftrightarrow>
     distinct ch \<and> (\<forall>a \<in> set ch. a < brk q) \<and>
     (\<forall>i. Suc i < length ch \<longrightarrow> Next (heap q (ch ! i)) = Some (ch ! Suc i)) \<and>
     (\<forall>i. Suc i = length ch \<longrightarrow> Next (heap q (ch ! i)) = None) \<and>
     at ch h (Head q) \<and> at ch t (Tail q) \<and> h \<le> t \<and> length ch \<le> t + 2"

definition fresh :: "addr list \<Rightarrow> 'v queue \<Rightarrow> addr \<Rightarrow> bool" where
  "fresh ch q n \<longleftrightarrow> n < brk q \<and> n \<notin> set ch \<and> Next (heap q n) = None"

fun owned :: "'v pc \<Rightarrow> addr option" where
  "owned (Enq_load_tail n) = Some n"
| "owned (Enq_load_next n tail) = Some n"
| "owned (Enq_check n tail next) = Some n"
| "owned (Enq_link n tail) = Some n"
| "owned (Enq_help n tail x) = Some n"
| "owned p = None"

fun pc_ok :: "addr list \<Rightarrow> nat \<Rightarrow> nat \<Rightarrow> 'v queue \<Rightarrow> 'v pc \<Rightarrow> bool" where
  "pc_ok ch h t q (Enq_load_next n tail) = (\<exists>j\<le>t. at ch j tail)"
| "pc_ok ch h t q (Enq_check n tail next) =
     (\<exists>j\<le>t. at ch j tail \<and> (\<forall>x. next = Some x \<longrightarrow> at ch (Suc j) x))"
| "pc_ok ch h t q (Enq_link n tail) = (\<exists>j\<le>t. at ch j tail)"
| "pc_ok ch h t q (Enq_help n tail x) = (\<exists>j. at ch j tail \<and> at ch (Suc j) x)"
| "pc_ok ch h t q (Enq_swing n tail) = (\<exists>j. at ch j tail \<and> at ch (Suc j) n)"
| "pc_ok ch h t q (Deq_load_tail head) = (\<exists>i\<le>h. at ch i head)"
| "pc_ok ch h t q (Deq_load_next head tail) =
     (\<exists>i\<le>h. \<exists>j\<le>t. i \<le> j \<and> at ch i head \<and> at ch j tail)"
| "pc_ok ch h t q (Deq_check head tail next) =
     (\<exists>i\<le>h. \<exists>j\<le>t. i \<le> j \<and> at ch i head \<and> at ch j tail \<and>
        (\<forall>x. next = Some x \<longrightarrow> at ch (Suc i) x) \<and> (i < j \<longrightarrow> next \<noteq> None))"
| "pc_ok ch h t q (Deq_help tail x) = (\<exists>j. at ch j tail \<and> at ch (Suc j) x)"
| "pc_ok ch h t q (Deq_value head next) =
     (\<exists>i\<le>h. \<exists>x. i < t \<and> at ch i head \<and> next = Some x \<and> at ch (Suc i) x)"
| "pc_ok ch h t q (Deq_swing head x task) =
     (\<exists>i\<le>h. i < t \<and> at ch i head \<and> at ch (Suc i) x \<and> task = Value (heap q x))"
| "pc_ok ch h t q Crashed = False"
| "pc_ok ch h t q p = True"

text \<open>Linked nodes that are not counted yet, minus removed ones that are still counted.\<close>

fun pending :: "'v pc \<Rightarrow> int" where
  "pending (Enq_swing n tail) = 1"
| "pending Enq_count = 1"
| "pending (Deq_count task) = -1"
| "pending p = 0"

definition items :: "addr list \<Rightarrow> nat \<Rightarrow> 'v queue \<Rightarrow> 'v option list" where
  "items ch h q = map (\<lambda>a. Value (heap q a)) (drop (Suc h) ch)"

definition own_ok :: "addr list \<Rightarrow> 'v queue \<Rightarrow> 'v pc list \<Rightarrow> bool" where
  "own_ok ch q ps \<longleftrightarrow>
     (\<forall>i < length ps. \<forall>n. owned (ps ! i) = Some n \<longrightarrow> fresh ch q n \<and>
        (\<forall>j < length ps. j \<noteq> i \<longrightarrow> owned (ps ! j) \<noteq> Some n))"

definition sys_inv :: "addr list \<Rightarrow> nat \<Rightarrow> nat \<Rightarrow> 'v qsys \<Rightarrow> bool" where
  "sys_inv ch h t s \<longleftrightarrow>
     chain_ok ch h t (shared s) \<and> own_ok ch (shared s) (pcs s) \<and>
     (\<forall>i < length (pcs s). pc_ok ch h t (shared s) (pcs s ! i)) \<and>
     Length (shared s) =
       of_int (int (length (items ch h (shared s))) - sum_list (map pending (pcs s)))"

text \<open>The queue a state stands for, as a relation (the ghost chain is hidden).\<close>

definition represents :: "'v qsys \<Rightarrow> 'v option list \<Rightarrow> bool" where
  "represents s vs \<longleftrightarrow> (\<exists>ch h t. sys_inv ch h t s \<and> vs = items ch h (shared s))"

section \<open>Preservation\<close>

fun lin :: "'v label \<Rightarrow> 'v option list \<Rightarrow> 'v option list \<Rightarrow> bool" where
  "lin Tau vs vs' = (vs' = vs)"
| "lin (LinEnq v) vs vs' = (vs' = vs @ [v])"
| "lin (LinDeq v) vs vs' = (vs = v # vs')"
| "lin LinNil vs vs' = (vs = [] \<and> vs' = [])"

definition evolves ::
  "addr list \<Rightarrow> nat \<Rightarrow> nat \<Rightarrow> 'v queue \<Rightarrow> addr list \<Rightarrow> nat \<Rightarrow> nat \<Rightarrow> 'v queue \<Rightarrow> bool" where
  "evolves ch h t q ch' h' t' q' \<longleftrightarrow>
     (\<exists>xs. ch' = ch @ xs) \<and> h \<le> h' \<and> t \<le> t' \<and> brk q \<le> brk q' \<and>
     (\<forall>a < brk q. Value (heap q' a) = Value (heap q a))"

lemma at_append: "at ch i a \<Longrightarrow> at (ch @ xs) i a"
  by (auto simp: at_def nth_append)

lemma at_mem: "at ch i a \<Longrightarrow> a \<in> set ch"
  by (auto simp: at_def)

lemma at_unique: "distinct ch \<Longrightarrow> at ch i a \<Longrightarrow> at ch j a \<Longrightarrow> i = j"
  by (auto simp: at_def nth_eq_iff_index_eq)

lemma at_fun: "at ch i a \<Longrightarrow> at ch i b \<Longrightarrow> a = b"
  by (auto simp: at_def)

lemma chain_brk: "chain_ok ch h t q \<Longrightarrow> at ch i a \<Longrightarrow> a < brk q"
  by (auto simp: chain_ok_def dest: at_mem)

lemma chain_next_Some: "chain_ok ch h t q \<Longrightarrow> at ch i a \<Longrightarrow> Next (heap q a) = Some x \<Longrightarrow> at ch (Suc i) x"
  by (auto simp: chain_ok_def at_def) (metis Suc_lessI option.distinct(1) option.inject)+

lemma chain_next_None:
  "chain_ok ch h t q \<Longrightarrow> at ch i a \<Longrightarrow> Next (heap q a) = None \<longleftrightarrow> Suc i = length ch"
  by (auto simp: chain_ok_def at_def) (metis Suc_lessI option.distinct(1))

lemma pc_ok_evolves:
  assumes "evolves ch h t q ch' h' t' q'" "chain_ok ch h t q" "pc_ok ch h t q p"
  shows "pc_ok ch' h' t' q' p"
proof -
  obtain xs where ch': "ch' = ch @ xs" and ht: "h \<le> h'" "t \<le> t'"
      and val: "\<And>a. a < brk q \<Longrightarrow> Value (heap q' a) = Value (heap q a)"
    using assms(1) by (auto simp: evolves_def)
  have at': "at ch i a \<Longrightarrow> at ch' i a" for i a
    by (simp add: ch' at_append)
  have val': "at ch i a \<Longrightarrow> Value (heap q' a) = Value (heap q a)" for i a
    using chain_brk [OF assms(2)] val by blast
  have up: "i \<le> h \<Longrightarrow> i \<le> h'" "j \<le> t \<Longrightarrow> j \<le> t'" "j < t \<Longrightarrow> j < t'" for i j
    using ht by simp_all
  show ?thesis
  proof (cases p)
    case (Enq_load_next n ta)
    then show ?thesis using assms(3) by (auto dest: at' up)
  next
    case (Enq_check n ta nx)
    then obtain j where "j \<le> t" "at ch j ta" "\<And>x. nx = Some x \<Longrightarrow> at ch (Suc j) x"
      using assms(3) by auto
    then show ?thesis using Enq_check by (auto intro!: exI [of _ j] at' up)
  next
    case (Enq_link n ta)
    then show ?thesis using assms(3) by (auto dest: at' up)
  next
    case (Deq_load_tail hn)
    then show ?thesis using assms(3) by (auto dest: at' up)
  next
    case (Deq_load_next hn ta)
    then obtain i j where "i \<le> h" "j \<le> t" "i \<le> j" "at ch i hn" "at ch j ta"
      using assms(3) by auto
    then have "i \<le> h' \<and> j \<le> t' \<and> i \<le> j \<and> at ch' i hn \<and> at ch' j ta" by (simp add: at' up)
    then show ?thesis using Deq_load_next by auto
  next
    case (Deq_check hn ta nx)
    then obtain i j where "i \<le> h" "j \<le> t" "i \<le> j" "at ch i hn" "at ch j ta"
        "\<And>x. nx = Some x \<Longrightarrow> at ch (Suc i) x" "i < j \<Longrightarrow> nx \<noteq> None"
      using assms(3) by auto
    then have "i \<le> h' \<and> j \<le> t' \<and> i \<le> j \<and> at ch' i hn \<and> at ch' j ta \<and>
        (\<forall>x. nx = Some x \<longrightarrow> at ch' (Suc i) x) \<and> (i < j \<longrightarrow> nx \<noteq> None)"
      by (simp add: at' up)
    then show ?thesis using Deq_check by (simp; blast)
  next
    case (Deq_value hn nx)
    then show ?thesis using assms(3) by (auto dest: at' up)
  next
    case (Deq_swing hn x task)
    then obtain i where "i \<le> h" "i < t" "at ch i hn" "at ch (Suc i) x" "task = Value (heap q x)"
      using assms(3) by auto
    then show ?thesis using Deq_swing val' by (auto intro!: exI [of _ i] at' up)
  qed (use assms(3) in \<open>auto dest: at'\<close>)
qed

definition step_ok ::
  "addr list \<Rightarrow> nat \<Rightarrow> nat \<Rightarrow> 'v queue \<Rightarrow> 'v pc \<Rightarrow> 'v label \<Rightarrow> 'v queue \<Rightarrow> 'v pc \<Rightarrow> bool" where
  "step_ok ch h t q p l q' p' \<longleftrightarrow> (\<exists>ch' h' t'.
     evolves ch h t q ch' h' t' q' \<and> chain_ok ch' h' t' q' \<and> pc_ok ch' h' t' q' p' \<and>
     (owned p' = owned p \<and> ch' = ch \<or> owned p' = None) \<and>
     set ch' \<subseteq> set ch \<union> set_option (owned p) \<and>
     (\<forall>a. a \<notin> set ch \<longrightarrow> Next (heap q' a) = Next (heap q a)) \<and>
     lin l (items ch h q) (items ch' h' q') \<and>
     Length q' = Length q + of_int (int (length (items ch' h' q')) - int (length (items ch h q))
       - (pending p' - pending p)))"

lemma evolves_refl [simp]: "evolves ch h t q ch h t q"
  by (simp add: evolves_def)

lemma step_ok_local:
  "chain_ok ch h t q \<Longrightarrow> pc_ok ch h t q p' \<Longrightarrow> owned p' = owned p \<or> owned p' = None \<Longrightarrow>
   pending p' = pending p \<Longrightarrow> lin l (items ch h q) (items ch h q) \<Longrightarrow> step_ok ch h t q p l q p'"
  unfolding step_ok_def by (intro exI [of _ ch] exI [of _ h] exI [of _ t]) auto

text \<open>Swinging \<open>Tail\<close> to the successor of the node it was read from.\<close>

lemma step_ok_swing:
  assumes c: "chain_ok ch h t q" and j: "at ch j ta" "at ch (Suc j) x"
    and p: "pc_ok ch h t q p'" "owned p' = owned p \<or> owned p' = None" "pending p' = pending p"
  shows "step_ok ch h t q p Tau (snd (cas_Tail q ta x)) p'"
proof (cases "Tail q = ta")
  case False
  then show ?thesis using assms by (simp add: cas_Tail_def step_ok_local)
next
  case True
  let ?q = "q\<lparr>Tail := x\<rparr>"
  have "j = t" using c j True by (auto simp: chain_ok_def dest: at_unique)
  then have c': "chain_ok ch h (Suc t) ?q"
    using c j by (auto simp: chain_ok_def at_def)
  have ev: "evolves ch h t q ch h (Suc t) ?q" by (simp add: evolves_def)
  have "pc_ok ch h (Suc t) ?q p'" by (rule pc_ok_evolves [OF ev c p(1)])
  with c' ev p(2,3) show ?thesis
    unfolding step_ok_def using True
    by (intro exI [of _ ch] exI [of _ h] exI [of _ "Suc t"]) (auto simp: cas_Tail_def items_def)
qed

text \<open>The link: the last node gets a successor. Here the abstract queue grows.\<close>

lemma step_ok_link:
  assumes c: "chain_ok ch h t q" and j: "j \<le> t" "at ch j ta" and n: "fresh ch q n"
    and nil: "Next (heap q ta) = None"
  shows "step_ok ch h t q (Enq_link n ta) (LinEnq (Value (heap q n)))
           (q\<lparr>heap := (heap q)(ta := (heap q ta)\<lparr>Next := Some n\<rparr>)\<rparr>) (Enq_swing n ta)"
proof -
  let ?q = "q\<lparr>heap := (heap q)(ta := (heap q ta)\<lparr>Next := Some n\<rparr>)\<rparr>" and ?ch = "ch @ [n]"
  have last: "Suc j = length ch" using c j nil chain_next_None by blast
  have ta: "ta = ch ! j" "t = j" "h < length ch"
    using c j last by (auto simp: chain_ok_def at_def)
  have nn: "n \<noteq> ta" "n \<notin> set ch" "n < brk q" "Next (heap q n) = None"
    using n j(2) at_mem by (auto simp: fresh_def)
  have dist: "ch ! i = ta \<longleftrightarrow> i = j" if "i < length ch" for i
    using that c last ta(1) by (auto simp: chain_ok_def nth_eq_iff_index_eq)
  have c': "chain_ok ?ch h t ?q"
    unfolding chain_ok_def
  proof (intro conjI allI impI)
    fix i assume "Suc i < length ?ch"
    then show "Next (heap ?q (?ch ! i)) = Some (?ch ! Suc i)"
      using c last dist [of i] ta(1) by (auto simp: chain_ok_def nth_append)
  next
    fix i assume "Suc i = length ?ch"
    then show "Next (heap ?q (?ch ! i)) = None" using nn by (auto simp: nth_append)
  qed (use c nn last ta in \<open>auto simp: chain_ok_def intro: at_append\<close>)
  have ev: "evolves ch h t q ?ch h t ?q" by (auto simp: evolves_def)
  have val: "Value (heap ?q a) = Value (heap q a)" for a by simp
  have it: "items ?ch h ?q = items ch h q @ [Value (heap q n)]"
    using ta(3) by (simp add: items_def val)
  have "pc_ok ?ch h t ?q (Enq_swing n ta)"
    using j last by (auto simp: at_def nth_append intro!: exI [of _ j])
  then show ?thesis
    unfolding step_ok_def using c' ev nn it at_mem [OF j(2)]
    by (intro exI [of _ ?ch] exI [of _ h] exI [of _ t]) auto
qed

text \<open>The removal: \<open>Head\<close> moves to the successor, which \<open>Tail\<close> has reached already.\<close>

lemma step_ok_remove:
  assumes c: "chain_ok ch h t q" and i: "i < t" "at ch i hn" "at ch (Suc i) x" and "Head q = hn"
  shows "step_ok ch h t q (Deq_swing hn x (Value (heap q x))) (LinDeq (Value (heap q x)))
           (q\<lparr>Head := x\<rparr>) (Deq_count (Value (heap q x)))"
proof -
  have "i = h" using assms by (auto simp: chain_ok_def dest: at_unique)
  then have h: "Suc h \<le> t" "Suc h < length ch" "ch ! Suc h = x"
    using i by (auto simp: at_def)
  have c': "chain_ok ch (Suc h) t (q\<lparr>Head := x\<rparr>)"
    using c h by (auto simp: chain_ok_def at_def)
  have it: "items ch h q = Value (heap q x) # items ch (Suc h) (q\<lparr>Head := x\<rparr>)"
    using h by (simp add: items_def drop_Suc_conv_tl)
  have ev: "evolves ch h t q ch (Suc h) t (q\<lparr>Head := x\<rparr>)" by (simp add: evolves_def)
  show ?thesis
    unfolding step_ok_def using c' ev it
    by (intro exI [of _ ch] exI [of _ "Suc h"] exI [of _ t]) auto
qed

lemma step_ok_counter:
  assumes "chain_ok ch h t q" and "pending p = d" "pending p' = 0" "owned p' = None" "pc_ok ch h t q p'"
    and "\<And>l. pc_ok ch h t (q\<lparr>Length := l\<rparr>) p'"
  shows "step_ok ch h t q p Tau (q\<lparr>Length := Length q + of_int d\<rparr>) p'"
  unfolding step_ok_def using assms
  by (intro exI [of _ ch] exI [of _ h] exI [of _ t]) (auto simp: chain_ok_def evolves_def items_def)

lemma empty_when_next_nil:
  "chain_ok ch h t q \<Longrightarrow> at ch i a \<Longrightarrow> i \<le> h \<Longrightarrow> Next (heap q a) = None \<Longrightarrow> items ch h q = []"
  by (auto simp: items_def chain_next_None)

text \<open>Every step of a running goroutine, by the point it is at.\<close>

lemma tstep_ok:
  assumes c: "chain_ok ch h t q" and p: "pc_ok ch h t q p"
    and n: "\<And>n. owned p = Some n \<Longrightarrow> fresh ch q n" and st: "tstep q p = (l, q', p')"
  shows "step_ok ch h t q p l q' p'"
proof (cases p)
  case (Enq_load_tail n)
  then show ?thesis using c st by (auto simp: chain_ok_def intro!: step_ok_local)
next
  case (Enq_load_next n ta)
  then obtain j where "j \<le> t" "at ch j ta" using p by auto
  then show ?thesis using c st Enq_load_next
    by (auto intro!: step_ok_local exI [of _ j] intro: chain_next_Some)
next
  case (Enq_check n ta nx)
  then show ?thesis using c p st
    by (auto intro!: step_ok_local split: if_splits option.splits)
next
  case (Enq_link n ta)
  obtain j where "j \<le> t" "at ch j ta" using p Enq_link by auto
  then show ?thesis using c n st Enq_link
    by (auto simp: cas_next_def intro!: step_ok_link step_ok_local split: if_splits)
next
  case (Enq_help n ta x)
  then show ?thesis using c p st by (auto intro: step_ok_swing)
next
  case (Enq_swing n ta)
  have "step_ok ch h t q Enq_count Tau (snd (cas_Tail q ta n)) Enq_count"
    using c p Enq_swing by (auto intro: step_ok_swing)
  then show ?thesis using st Enq_swing by (simp add: step_ok_def)
next
  case Enq_count
  then show ?thesis using c st step_ok_counter [of ch h t q Enq_count 1 p'] by auto
next
  case Deq_load_head
  then show ?thesis using c st by (auto simp: chain_ok_def intro!: step_ok_local)
next
  case (Deq_load_tail hn)
  then obtain i where "i \<le> h" "at ch i hn" using p by auto
  moreover have "at ch t (Tail q)" "h \<le> t" using c by (simp_all add: chain_ok_def)
  ultimately have "pc_ok ch h t q (Deq_load_next hn (Tail q))"
    using le_trans [of i h t] by (simp; blast)
  then show ?thesis using c st Deq_load_tail
    by (auto simp del: pc_ok.simps intro!: step_ok_local)
next
  case (Deq_load_next hn ta)
  then obtain i j where ij: "i \<le> h" "j \<le> t" "i \<le> j" "at ch i hn" "at ch j ta" using p by auto
  have "Next (heap q hn) = Some x \<Longrightarrow> at ch (Suc i) x" for x
    using c ij chain_next_Some by blast
  moreover have "i < j \<Longrightarrow> Next (heap q hn) \<noteq> None"
    using chain_next_None [OF c ij(4)] ij(5) by (simp add: at_def)
  ultimately have "pc_ok ch h t q (Deq_check hn ta (Next (heap q hn)))" using ij by fastforce
  moreover have "Next (heap q hn) = None \<Longrightarrow> items ch h q = []"
    using empty_when_next_nil [OF c ij(4,1)] .
  ultimately show ?thesis using c st Deq_load_next
    by (auto simp del: pc_ok.simps intro!: step_ok_local split: if_splits)
next
  case (Deq_check hn ta nx)
  then obtain i j where ij: "i \<le> h" "j \<le> t" "i \<le> j" "at ch i hn" "at ch j ta"
      "\<And>x. nx = Some x \<Longrightarrow> at ch (Suc i) x" "i < j \<Longrightarrow> nx \<noteq> None" using p by auto
  have "hn = ta \<longleftrightarrow> i = j" using ij(4,5) c at_unique at_fun by (metis chain_ok_def)
  then show ?thesis using c st Deq_check ij
    by (auto 0 3 intro!: step_ok_local split: if_splits option.splits)
next
  case (Deq_help ta x)
  then show ?thesis using c p st by (auto intro: step_ok_swing)
next
  case (Deq_value hn nx)
  then obtain i x where "i \<le> h" "i < t" "at ch i hn" "nx = Some x" "at ch (Suc i) x"
    using p by auto
  moreover from this have "pc_ok ch h t q (Deq_swing hn x (Value (heap q x)))" by auto
  ultimately show ?thesis using c st Deq_value
    by (auto simp del: pc_ok.simps intro!: step_ok_local)
next
  case (Deq_swing hn x task)
  then show ?thesis using c p st
    by (auto simp: cas_Head_def intro!: step_ok_remove step_ok_local split: if_splits)
next
  case (Deq_count task)
  then show ?thesis using c st step_ok_counter [of ch h t q "Deq_count task" "-1" p'] by auto
qed (use c p st in \<open>auto intro!: step_ok_local\<close>)

section \<open>The whole system\<close>

lemma own_ok_fresh: "own_ok ch q ps \<Longrightarrow> i < length ps \<Longrightarrow> owned (ps ! i) = Some n \<Longrightarrow> fresh ch q n"
  by (simp add: own_ok_def)

lemma own_ok_unique:
  "own_ok ch q ps \<Longrightarrow> i < length ps \<Longrightarrow> owned (ps ! i) = Some n \<Longrightarrow> j < length ps \<Longrightarrow> j \<noteq> i \<Longrightarrow>
   owned (ps ! j) \<noteq> Some n"
  unfolding own_ok_def by blast

lemma own_okI:
  assumes "\<And>i n. i < length ps \<Longrightarrow> owned (ps ! i) = Some n \<Longrightarrow> fresh ch q n"
    and "\<And>i j n. i < length ps \<Longrightarrow> owned (ps ! i) = Some n \<Longrightarrow> j < length ps \<Longrightarrow> j \<noteq> i \<Longrightarrow>
      owned (ps ! j) \<noteq> Some n"
  shows "own_ok ch q ps"
  using assms unfolding own_ok_def by blast

lemma own_ok_step:
  assumes o: "own_ok ch q ps" and i: "i < length ps"
    and ch': "set ch' \<subseteq> set ch \<union> set_option (owned (ps ! i))"
    and p': "owned p' = owned (ps ! i) \<and> ch' = ch \<or> owned p' = None"
    and q': "\<forall>a. a \<notin> set ch \<longrightarrow> Next (heap q' a) = Next (heap q a)" "brk q \<le> brk q'"
  shows "own_ok ch' q' (ps[i := p'])"
proof (rule own_okI)
  fix j n assume j: "j < length (ps[i := p'])" "owned (ps[i := p'] ! j) = Some n"
  then have old: "owned (ps ! j) = Some n" and same: "j = i \<Longrightarrow> ch' = ch"
    using p' i by (cases "j = i"; auto)+
  have fr: "fresh ch q n" using own_ok_fresh [OF o _ old] j by simp
  have "n \<notin> set ch'"
  proof (cases "j = i")
    case True
    then show ?thesis using fr same by (simp add: fresh_def)
  next
    case False
    then have "owned (ps ! i) \<noteq> Some n" using own_ok_unique [OF o _ old i] j by simp
    then have "n \<notin> set_option (owned (ps ! i))" by (simp add: elem_set)
    moreover have "n \<notin> set ch" using fr by (simp add: fresh_def)
    ultimately show ?thesis using ch' by blast
  qed
  then show "fresh ch' q' n" using fr q' by (simp add: fresh_def)
next
  fix j k n assume j: "j < length (ps[i := p'])" "owned (ps[i := p'] ! j) = Some n"
    and k: "k < length (ps[i := p'])" "k \<noteq> j"
  have old: "owned (ps ! j) = Some n"
    using p' i j by (cases "j = i") auto
  have "owned (ps ! k) \<noteq> Some n" using own_ok_unique [OF o _ old _ k(2)] j k by simp
  then show "owned (ps[i := p'] ! k) \<noteq> Some n" using p' i by (cases "k = i") auto
qed

lemma own_ok_alloc:
  assumes o: "own_ok ch q ps" and i: "i < length ps" and brk: "brk q \<notin> set ch"
    and p': "owned p' = Some (brk q)" and q': "brk q' = Suc (brk q)" "Next (heap q' (brk q)) = None"
    "\<And>a. a < brk q \<Longrightarrow> heap q' a = heap q a"
  shows "own_ok ch q' (ps[i := p'])"
proof -
  have fr: "fresh ch q n \<Longrightarrow> fresh ch q' n \<and> n \<noteq> brk q" for n
    using q' by (auto simp: fresh_def)
  have new: "fresh ch q' (brk q)" using q' brk by (simp add: fresh_def)
  show ?thesis
  proof (rule own_okI)
    fix j n assume "j < length (ps[i := p'])" "owned (ps[i := p'] ! j) = Some n"
    then show "fresh ch q' n"
      using own_ok_fresh [OF o, of j n] fr new p' i by (cases "j = i") auto
  next
    fix j k n assume j: "j < length (ps[i := p'])" "owned (ps[i := p'] ! j) = Some n"
      and k: "k < length (ps[i := p'])" "k \<noteq> j"
    have below: "m < brk q" if "l < length ps" "owned (ps ! l) = Some m" for l m
      using own_ok_fresh [OF o that] by (simp add: fresh_def)
    consider "j = i" | "k = i" "j \<noteq> i" | "j \<noteq> i" "k \<noteq> i" by blast
    then show "owned (ps[i := p'] ! k) \<noteq> Some n"
    proof cases
      case 1
      then show ?thesis using j k p' below [of k "brk q"] by auto
    next
      case 2
      then show ?thesis using j k p' below [of j n] by auto
    next
      case 3
      then show ?thesis using own_ok_unique [OF o, of j n k] j k by auto
    qed
  qed
qed

lemma sys_inv_start:
  assumes inv: "sys_inv ch h t s" and i: "i < length (pcs s)" "at_rest (pcs s ! i)"
    and st: "start c (shared s) = (q', p')"
  shows "sys_inv ch h t (s\<lparr>shared := q', pcs := (pcs s)[i := p']\<rparr>) \<and>
    items ch h q' = items ch h (shared s)"
proof -
  let ?q = "shared s"
  have c: "chain_ok ch h t ?q" and o: "own_ok ch ?q (pcs s)"
    and pk: "\<And>j. j < length (pcs s) \<Longrightarrow> pc_ok ch h t ?q (pcs s ! j)"
    using inv by (auto simp: sys_inv_def)
  have brk: "brk ?q \<notin> set ch" using c by (auto simp: chain_ok_def)
  have old: "owned (pcs s ! i) = None" "pending (pcs s ! i) = 0"
    using i(2) by (cases "pcs s ! i"; simp)+
  have ev: "evolves ch h t ?q ch h t q'" using st by (cases c) (auto simp: evolves_def)
  have nth: "ch ! k \<noteq> brk ?q" if "k < length ch" for k
    using that brk by (metis nth_mem)
  have c': "chain_ok ch h t q'"
    using c st nth by (cases c) (auto simp: chain_ok_def less_Suc_eq)
  have it: "items ch h q' = items ch h ?q"
    using st brk by (cases c) (auto simp: items_def dest: in_set_dropD)
  have p': "pc_ok ch h t q' p'" "pending p' = 0" "Length q' = Length ?q"
    using st by (cases c; auto)+
  have o': "own_ok ch q' ((pcs s)[i := p'])"
  proof (cases c)
    case (Enqueue v)
    then show ?thesis using st own_ok_alloc [OF o i(1) brk, of p' q'] by auto
  next
    case Dequeue
    then show ?thesis using st own_ok_step [OF o i(1), of ch p' q'] by auto
  next
    case IsEmpty
    then show ?thesis using st own_ok_step [OF o i(1), of ch p' q'] by auto
  qed
  have "\<forall>j < length (pcs s). pc_ok ch h t q' ((pcs s)[i := p'] ! j)"
    using pc_ok_evolves [OF ev c] pk p' i(1) by (auto simp: nth_list_update)
  then show ?thesis
    using inv c' o' it p' old i(1) by (auto simp: sys_inv_def sum_list_update_int)
qed

lemma sys_inv_run:
  assumes inv: "sys_inv ch h t s" and i: "i < length (pcs s)"
    and st: "tstep (shared s) (pcs s ! i) = (l, q', p')"
  shows "\<exists>ch' h' t'. sys_inv ch' h' t' (s\<lparr>shared := q', pcs := (pcs s)[i := p']\<rparr>) \<and>
    lin l (items ch h (shared s)) (items ch' h' q')"
proof -
  let ?q = "shared s" and ?p = "pcs s ! i"
  have c: "chain_ok ch h t ?q" and o: "own_ok ch ?q (pcs s)"
    and pk: "\<And>j. j < length (pcs s) \<Longrightarrow> pc_ok ch h t ?q (pcs s ! j)"
    using inv by (auto simp: sys_inv_def)
  have "step_ok ch h t ?q ?p l q' p'"
    using tstep_ok [OF c pk [OF i] _ st] o i by (auto simp: own_ok_def)
  then obtain ch' h' t' where ev: "evolves ch h t ?q ch' h' t' q'" and c': "chain_ok ch' h' t' q'"
      and p': "pc_ok ch' h' t' q' p'" "owned p' = owned ?p \<and> ch' = ch \<or> owned p' = None"
      and sub: "set ch' \<subseteq> set ch \<union> set_option (owned ?p)"
        "\<forall>a. a \<notin> set ch \<longrightarrow> Next (heap q' a) = Next (heap ?q a)"
      and l: "lin l (items ch h ?q) (items ch' h' q')"
      and len: "Length q' = Length ?q + of_int (int (length (items ch' h' q'))
         - int (length (items ch h ?q)) - (pending p' - pending ?p))"
    unfolding step_ok_def by blast
  have "own_ok ch' q' ((pcs s)[i := p'])"
    using own_ok_step [OF o i sub(1) p'(2) sub(2)] ev by (simp add: evolves_def)
  moreover have "\<forall>j < length (pcs s). pc_ok ch' h' t' q' ((pcs s)[i := p'] ! j)"
    using pc_ok_evolves [OF ev c] pk p'(1) i by (auto simp: nth_list_update)
  moreover have "Length ?q = of_int (int (length (items ch h ?q)) - sum_list (map pending (pcs s)))"
    using inv by (simp add: sys_inv_def)
  ultimately have "sys_inv ch' h' t' (s\<lparr>shared := q', pcs := (pcs s)[i := p']\<rparr>)"
    using c' len i by (simp add: sys_inv_def sum_list_update_int)
  then show ?thesis using l by blast
qed

lemma represents_step:
  assumes "qstep s l s'" and "represents s vs"
  shows "\<exists>vs'. represents s' vs' \<and> lin l vs vs'"
proof -
  obtain ch h t where inv: "sys_inv ch h t s" and vs: "vs = items ch h (shared s)"
    using assms(2) by (auto simp: represents_def)
  from assms(1) show ?thesis
  proof cases
    case (call i c q' p')
    then show ?thesis using sys_inv_start [OF inv] vs by (fastforce simp: represents_def)
  next
    case (run i q' p')
    then show ?thesis using sys_inv_run [OF inv] vs by (fastforce simp: represents_def)
  qed
qed

lemma represents_init: "represents (init_sys n) []"
  unfolding represents_def
  by (intro exI [of _ "[0]"] exI [of _ 0])
    (auto simp: sys_inv_def init_sys_def NewQueue_def chain_ok_def own_ok_def items_def at_def
      map_replicate_const sum_list_replicate)

lemma represents_exec:
  "qexec s ls s' \<Longrightarrow> represents s vs \<Longrightarrow>
   \<exists>vs'. represents s' vs' \<and> vs @ enqs ls = deqs ls @ vs'"
proof (induction rule: qexec.induct)
  case (none s)
  then show ?case by auto
next
  case (more s ls t l u)
  then obtain ws where ws: "represents t ws" "vs @ enqs ls = deqs ls @ ws" by blast
  with represents_step [OF more.hyps(2)] obtain vs' where "represents u vs'" "lin l ws vs'" by blast
  with ws show ?case by (intro exI [of _ vs']) (cases l; auto simp flip: append_assoc)
qed

section \<open>What is in the queue\<close>

text \<open>The values behind the blank node, read off the heap along \<open>Next\<close>.\<close>

fun walk :: "'v queue \<Rightarrow> nat \<Rightarrow> addr \<Rightarrow> 'v option list" where
  "walk q 0 a = []"
| "walk q (Suc f) a =
     (case Next (heap q a) of None \<Rightarrow> [] | Some x \<Rightarrow> Value (heap q x) # walk q f x)"

definition snapshot :: "'v queue \<Rightarrow> 'v option list" where
  "snapshot q = walk q (brk q) (Head q)"

lemma walk_chain:
  "chain_ok ch h t q \<Longrightarrow> i < length ch \<Longrightarrow> length ch \<le> Suc i + f \<Longrightarrow>
   walk q f (ch ! i) = map (\<lambda>a. Value (heap q a)) (drop (Suc i) ch)"
proof (induction f arbitrary: i)
  case 0
  then show ?case by simp
next
  case (Suc f)
  show ?case
  proof (cases "Suc i < length ch")
    case True
    then have "Next (heap q (ch ! i)) = Some (ch ! Suc i)" using Suc.prems(1) by (simp add: chain_ok_def)
    then show ?thesis using Suc.IH [OF Suc.prems(1) True] Suc.prems(3) True
      by (simp add: drop_Suc_conv_tl)
  next
    case False
    then have "Next (heap q (ch ! i)) = None" using Suc.prems(1,2) by (simp add: chain_ok_def)
    then show ?thesis using False by simp
  qed
qed

lemma chain_length: "chain_ok ch h t q \<Longrightarrow> length ch \<le> brk q"
  using card_mono [of "{..<brk q}" "set ch"] by (auto simp: chain_ok_def distinct_card)

lemma snapshot_items: "chain_ok ch h t q \<Longrightarrow> snapshot q = items ch h q"
  using walk_chain [of ch h t q h "brk q"] chain_length [of ch h t q]
  by (simp add: snapshot_def items_def chain_ok_def at_def)

lemma represents_snapshot: "represents s vs \<Longrightarrow> vs = snapshot (shared s)"
  by (auto simp: represents_def sys_inv_def snapshot_items)

lemma exec_represents:
  "qexec (init_sys n) ls s \<Longrightarrow> represents s (snapshot (shared s)) \<and> enqs ls = deqs ls @ snapshot (shared s)"
  using represents_exec [OF _ represents_init] represents_snapshot by fastforce

section \<open>Each call takes effect once\<close>

text \<open>
  The steps of one call, in an environment that may do anything to the queue between them but
  change the value of an allocated node (no step of the program does).
\<close>

inductive own_steps :: "'v call \<Rightarrow> 'v label list \<Rightarrow> 'v queue \<Rightarrow> 'v pc \<Rightarrow> bool" where
  enter: "start c q = (q', p') \<Longrightarrow> own_steps c [] q' p'"
| own: "own_steps c ls q p \<Longrightarrow> \<not> at_rest p \<Longrightarrow> tstep q p = (l, q', p') \<Longrightarrow>
    own_steps c (ls @ [l]) q' p'"
| other: "own_steps c ls q p \<Longrightarrow> brk q \<le> brk q' \<Longrightarrow>
    (\<And>a. a < brk q \<Longrightarrow> Value (heap q' a) = Value (heap q a)) \<Longrightarrow> own_steps c ls q' p"

fun accounted :: "'v call \<Rightarrow> 'v label list \<Rightarrow> 'v result \<Rightarrow> bool" where
  "accounted (Enqueue v) ls r = (r = EnqDone \<and> enqs ls = [Some v] \<and> deqs ls = [])"
| "accounted Dequeue ls (DeqDone v) =
     (enqs ls = [] \<and> (deqs ls = [v] \<or> deqs ls = [] \<and> v = None \<and> LinNil \<in> set ls))"
| "accounted IsEmpty ls (EmptyDone b) = (enqs ls = [] \<and> deqs ls = [])"
| "accounted c ls r = False"

fun so_far :: "'v call \<Rightarrow> 'v label list \<Rightarrow> 'v queue \<Rightarrow> 'v pc \<Rightarrow> bool" where
  "so_far c ls q (Finished r) = accounted c ls r"
| "so_far (Enqueue v) ls q Enq_count = (enqs ls = [Some v] \<and> deqs ls = [])"
| "so_far (Enqueue v) ls q (Enq_swing n ta) = (enqs ls = [Some v] \<and> deqs ls = [])"
| "so_far (Enqueue v) ls q p =
     (\<exists>n < brk q. owned p = Some n \<and> Value (heap q n) = Some v \<and> enqs ls = [] \<and> deqs ls = [])"
| "so_far Dequeue ls q (Deq_count v) = (enqs ls = [] \<and> deqs ls = [v])"
| "so_far Dequeue ls q (Deq_check a b x) =
     (enqs ls = [] \<and> deqs ls = [] \<and> (a = b \<and> x = None \<longrightarrow> LinNil \<in> set ls))"
| "so_far Dequeue ls q Deq_load_head = (enqs ls = [] \<and> deqs ls = [])"
| "so_far Dequeue ls q (Deq_load_tail a) = (enqs ls = [] \<and> deqs ls = [])"
| "so_far Dequeue ls q (Deq_load_next a b) = (enqs ls = [] \<and> deqs ls = [])"
| "so_far Dequeue ls q (Deq_help a b) = (enqs ls = [] \<and> deqs ls = [])"
| "so_far Dequeue ls q (Deq_value a x) = (enqs ls = [] \<and> deqs ls = [])"
| "so_far Dequeue ls q (Deq_swing a b v) = (enqs ls = [] \<and> deqs ls = [])"
| "so_far Dequeue ls q Crashed = True"
| "so_far IsEmpty ls q Empty_load = (enqs ls = [] \<and> deqs ls = [])"
| "so_far c ls q p = False"

lemma so_far_env:
  "so_far c ls q p \<Longrightarrow> brk q \<le> brk q' \<Longrightarrow>
   (\<And>a. a < brk q \<Longrightarrow> Value (heap q' a) = Value (heap q a)) \<Longrightarrow> so_far c ls q' p"
  by (cases c; cases p) auto

lemma so_far_step:
  assumes "so_far c ls q p" "\<not> at_rest p" "tstep q p = (l, q', p')"
  shows "so_far c (ls @ [l]) q' p'"
proof (cases c)
  case (Enqueue v)
  then show ?thesis using assms
    by (cases p) (auto simp: cas_defs split: if_splits option.splits)
next
  case Dequeue
  then show ?thesis using assms
    by (cases p) (auto simp: cas_defs split: if_splits option.splits)
next
  case IsEmpty
  then show ?thesis using assms by (cases p) auto
qed

lemma own_steps_so_far: "own_steps c ls q p \<Longrightarrow> so_far c ls q p"
proof (induction rule: own_steps.induct)
  case (enter c q q' p')
  then show ?case by (cases c) auto
next
  case (own c ls q p l q' p')
  then show ?case by (blast intro: so_far_step)
next
  case (other c ls q p q')
  then show ?case by (blast intro: so_far_env)
qed

end
