(* ===== verification/TaskQueue.thy ===== *)
theory TaskQueue
  imports LockFreeQueue
begin

text \<open>
  The queue as its clients see it: the interface \<open>TaskQueue\<close> of
  \<open>utils/queue/lock_free_queue.go\<close> as a locale, the methods run without interference, the bound
  on the steps such a run takes, and the proof that they satisfy the interface.
\<close>

section \<open>A goroutine that runs alone\<close>

fun solo :: "nat \<Rightarrow> 'v queue \<Rightarrow> 'v pc \<Rightarrow> 'v queue \<times> 'v pc" where
  "solo 0 q p = (q, p)"
| "solo (Suc k) q p =
     (if at_rest p then (q, p) else case tstep q p of (l, q', p') \<Rightarrow> solo k q' p')"

fun is_finished :: "'v pc \<Rightarrow> bool" where
  "is_finished (Finished r) = True"
| "is_finished p = False"

definition finishes :: "nat \<Rightarrow> 'v queue \<Rightarrow> 'v pc \<Rightarrow> bool" where
  "finishes k q p \<longleftrightarrow> is_finished (snd (solo k q p))"

lemma finishes_step:
  "\<not> at_rest p \<Longrightarrow> tstep q p = (l, q', p') \<Longrightarrow> finishes (Suc k) q p = finishes k q' p'"
  by (simp add: finishes_def)

lemma finishes_next:
  "\<not> at_rest p \<Longrightarrow> 0 < k \<Longrightarrow>
   finishes k q p = (case tstep q p of (l, q', p') \<Rightarrow> finishes (k - 1) q' p')"
  by (cases k) (auto simp: finishes_def split: prod.splits)

lemma finishes_done: "finishes k q (Finished r)"
  by (cases k) (simp_all add: finishes_def)

lemma finishes_more: "finishes k q p \<Longrightarrow> finishes (Suc k) q p"
proof (induction k arbitrary: q p)
  case 0
  then show ?case by (cases p) (auto simp: finishes_def)
next
  case (Suc k)
  show ?case
  proof (cases "at_rest p")
    case True
    then show ?thesis using Suc.prems by (simp add: finishes_def)
  next
    case False
    obtain l q' p' where st: "tstep q p = (l, q', p')" by (cases "tstep q p") auto
    show ?thesis
      using Suc.prems Suc.IH [of q' p'] by (simp add: finishes_step [OF False st])
  qed
qed

lemma finishes_le: "finishes k q p \<Longrightarrow> k \<le> m \<Longrightarrow> finishes m q p"
  by (induction m) (auto simp: le_Suc_eq intro: finishes_more)

text \<open>
  A pass over the loop succeeds when \<open>Tail\<close> is the last node; when it lags, one pass moves it
  and the next succeeds; a pass with stale locals costs its rest.
\<close>

lemma tail_next_None:
  assumes "chain_ok ch h t q" "Next (heap q (Tail q)) = Some x"
  shows "Next (heap q x) = None" "x \<noteq> Tail q"
proof -
  have t: "at ch t (Tail q)" using assms(1) by (simp add: chain_ok_def)
  have x: "at ch (Suc t) x" by (rule chain_next_Some [OF assms(1) t assms(2)])
  then have "Suc (Suc t) = length ch" using assms(1) by (simp add: chain_ok_def at_def)
  then show "Next (heap q x) = None" using chain_next_None [OF assms(1) x] by simp
  show "x \<noteq> Tail q" using at_unique [of ch t x "Suc t"] t x assms(1) by (auto simp: chain_ok_def)
qed

lemma enq_pass: "Next (heap q (Tail q)) = None \<Longrightarrow> finishes 6 q (Enq_load_tail n)"
  by (simp add: finishes_def eval_nat_numeral cas_defs)

lemma enq_finishes:
  assumes "chain_ok ch h t q"
  shows "finishes 10 q (Enq_load_tail n)"
proof (cases "Next (heap q (Tail q))")
  case None
  then show ?thesis by (rule finishes_le [OF enq_pass]) simp
next
  case (Some x)
  have "finishes 6 (q\<lparr>Tail := x\<rparr>) (Enq_load_tail n)"
    using tail_next_None [OF assms Some] by (simp add: enq_pass)
  then show ?thesis using Some
    by (simp add: finishes_def eval_nat_numeral cas_defs)
qed

lemma deq_finishes:
  assumes c: "chain_ok ch h t q"
  shows "finishes 12 q Deq_load_head"
proof -
  have direct: "finishes 7 q' Deq_load_head"
    if "Head q' \<noteq> Tail q'" "Next (heap q' (Head q')) \<noteq> None" for q' :: "'a queue"
  proof -
    obtain x where "Next (heap q' (Head q')) = Some x" using \<open>Next (heap q' (Head q')) \<noteq> None\<close> by auto
    then show ?thesis using \<open>Head q' \<noteq> Tail q'\<close> by (simp add: finishes_def eval_nat_numeral cas_defs)
  qed
  have nx: "Next (heap q (Head q)) \<noteq> None" if "Head q \<noteq> Tail q"
  proof
    assume "Next (heap q (Head q)) = None"
    moreover have "at ch h (Head q)" "at ch t (Tail q)" "h \<le> t"
      using c by (simp_all add: chain_ok_def)
    ultimately have "h = t" using chain_next_None [OF c, of h "Head q"] by (simp add: at_def)
    then show False using that \<open>at ch h (Head q)\<close> \<open>at ch t (Tail q)\<close> at_fun by blast
  qed
  show ?thesis
  proof (cases "Head q = Tail q")
    case False
    have "finishes 7 q Deq_load_head" by (rule direct [OF False nx [OF False]])
    then show ?thesis by (rule finishes_le) simp
  next
    case same: True
    show ?thesis
    proof (cases "Next (heap q (Tail q))")
      case None
      then show ?thesis using same by (simp add: finishes_def eval_nat_numeral)
    next
      case (Some x)
      have "finishes 7 (q\<lparr>Tail := x\<rparr>) Deq_load_head"
        using direct [of "q\<lparr>Tail := x\<rparr>"] tail_next_None [OF c Some] same Some by auto
      then show ?thesis using same Some
        by (simp add: finishes_def eval_nat_numeral cas_defs)
    qed
  qed
qed

lemma chain_ok_swing:
  assumes "chain_ok ch h t q" "at ch j ta" "at ch (Suc j) x"
  shows "\<exists>ch' h' t'. chain_ok ch' h' t' (snd (cas_Tail q ta x))"
  using step_ok_swing [OF assms, of Idle Idle] unfolding step_ok_def by auto

lemma step_keeps:
  assumes "chain_ok ch h t q" "pc_ok ch h t q p" "owned p = None" "tstep q p = (l, q', p')"
  shows "\<exists>ch' h' t'. chain_ok ch' h' t' q' \<and> pc_ok ch' h' t' q' p'"
  using tstep_ok [OF assms(1,2) _ assms(4)] assms(3) unfolding step_ok_def by auto

lemma enq_link_finishes: "chain_ok ch h t q \<Longrightarrow> finishes 11 q (Enq_link n ta)"
  using enq_finishes [of ch h t q n]
  by (cases "Next (heap q ta)") (simp_all add: finishes_def eval_nat_numeral cas_defs)

lemma enq_help_finishes:
  assumes "chain_ok ch h t q" "pc_ok ch h t q (Enq_help n ta x)"
  shows "finishes 11 q (Enq_help n ta x)"
proof -
  obtain ch' h' t' where "chain_ok ch' h' t' (snd (cas_Tail q ta x))"
    using chain_ok_swing assms by fastforce
  then have "finishes 10 (snd (cas_Tail q ta x)) (Enq_load_tail n)" by (rule enq_finishes)
  then show ?thesis using finishes_step [of "Enq_help n ta x" q _ _ _ 10] by simp
qed

lemma enq_check_finishes:
  assumes "chain_ok ch h t q" "pc_ok ch h t q (Enq_check n ta nx)"
  shows "finishes 12 q (Enq_check n ta nx)"
proof -
  have "pc_ok ch h t q (Enq_help n ta x)" if "nx = Some x" for x
    using assms(2) that by auto
  moreover have "finishes 11 q (Enq_load_tail n)"
    by (rule finishes_le [OF enq_finishes [OF assms(1)]]) simp
  ultimately show ?thesis
    using enq_link_finishes [OF assms(1)] enq_help_finishes [OF assms(1)]
    by (subst finishes_next) (auto simp del: pc_ok.simps split: option.split)
qed

lemma deq_swing_finishes: "chain_ok ch h t q \<Longrightarrow> finishes 13 q (Deq_swing hn x v)"
  using deq_finishes [of ch h t q]
  by (cases "Head q = hn") (simp_all add: finishes_def eval_nat_numeral cas_defs)

lemma deq_help_finishes:
  assumes "chain_ok ch h t q" "pc_ok ch h t q (Deq_help ta x)"
  shows "finishes 13 q (Deq_help ta x)"
proof -
  obtain ch' h' t' where "chain_ok ch' h' t' (snd (cas_Tail q ta x))"
    using chain_ok_swing assms by fastforce
  then have "finishes 12 (snd (cas_Tail q ta x)) Deq_load_head" by (rule deq_finishes)
  then show ?thesis using finishes_step [of "Deq_help ta x" q _ _ _ 12] by simp
qed

lemma deq_value_finishes:
  "chain_ok ch h t q \<Longrightarrow> pc_ok ch h t q (Deq_value hn nx) \<Longrightarrow> finishes 14 q (Deq_value hn nx)"
  using finishes_step [of "Deq_value hn nx" q _ _ _ 13] deq_swing_finishes by fastforce

lemma deq_check_finishes:
  assumes c: "chain_ok ch h t q" and p: "pc_ok ch h t q (Deq_check hn ta nx)"
  shows "finishes 15 q (Deq_check hn ta nx)"
proof -
  obtain l q' p' where st: "tstep q (Deq_check hn ta nx) = (l, q', p')"
    by (cases "tstep q (Deq_check hn ta nx)") auto
  then have q': "q' = q" by (auto split: if_splits option.splits)
  obtain ch' h' t' where ok: "chain_ok ch' h' t' q" "pc_ok ch' h' t' q p'"
    using step_keeps [OF c p _ st] q' by auto
  have "p' = Deq_load_head \<or> p' = Finished (DeqDone None) \<or> (\<exists>x. p' = Deq_help ta x) \<or> p' = Deq_value hn nx"
    using st by (auto split: if_splits option.splits)
  then have "finishes 14 q p'"
  proof (elim disjE exE)
    assume "p' = Deq_load_head"
    then show ?thesis using finishes_le [OF deq_finishes [OF c]] by simp
  next
    fix x assume "p' = Deq_help ta x"
    then have "finishes 13 q p'" using deq_help_finishes [OF ok(1)] ok(2) by blast
    then show ?thesis by (rule finishes_le) simp
  next
    assume "p' = Deq_value hn nx"
    then show ?thesis using deq_value_finishes [OF ok(1)] ok(2) by blast
  qed (simp add: finishes_done)
  then show ?thesis using finishes_step [OF _ st, of 14] q' by simp
qed

lemma deq_load_next_finishes:
  assumes "chain_ok ch h t q" "pc_ok ch h t q (Deq_load_next hn ta)"
  shows "finishes 16 q (Deq_load_next hn ta)"
proof -
  obtain ch' h' t' where "chain_ok ch' h' t' q" "pc_ok ch' h' t' q (Deq_check hn ta (Next (heap q hn)))"
    using step_keeps [OF assms] by (auto simp del: pc_ok.simps)
  then have "finishes 15 q (Deq_check hn ta (Next (heap q hn)))" by (rule deq_check_finishes)
  then show ?thesis by (subst finishes_next) simp_all
qed

lemma solo_finishes:
  assumes c: "chain_ok ch h t q" and p: "pc_ok ch h t q p" and r: "p \<noteq> Idle"
  shows "finishes 17 q p"
proof (cases p)
  case (Enq_load_tail n)
  then show ?thesis using finishes_le [OF enq_finishes [OF c]] by simp
next
  case (Enq_load_next n ta)
  then obtain j where "j \<le> t" "at ch j ta" using p by auto
  then have "pc_ok ch h t q (Enq_check n ta (Next (heap q ta)))"
    using chain_next_Some [OF c] by auto
  then have "finishes 16 q (Enq_check n ta (Next (heap q ta)))"
    using finishes_le [OF enq_check_finishes [OF c]] by simp
  then show ?thesis unfolding Enq_load_next by (subst finishes_next) simp_all
next
  case (Enq_check n ta nx)
  then show ?thesis using finishes_le [OF enq_check_finishes [OF c]] p by simp
next
  case (Enq_link n ta)
  then show ?thesis using finishes_le [OF enq_link_finishes [OF c]] by simp
next
  case (Enq_help n ta x)
  then show ?thesis using finishes_le [OF enq_help_finishes [OF c]] p by simp
next
  case Deq_load_head
  then show ?thesis using finishes_le [OF deq_finishes [OF c]] by simp
next
  case (Deq_load_tail hn)
  obtain ch' h' t' where "chain_ok ch' h' t' q" "pc_ok ch' h' t' q (Deq_load_next hn (Tail q))"
    using step_keeps [OF c p] Deq_load_tail by (auto simp del: pc_ok.simps)
  then have "finishes 16 q (Deq_load_next hn (Tail q))" by (rule deq_load_next_finishes)
  then show ?thesis unfolding Deq_load_tail by (subst finishes_next) simp_all
next
  case (Deq_load_next hn ta)
  then show ?thesis using finishes_le [OF deq_load_next_finishes [OF c]] p by simp
next
  case (Deq_check hn ta nx)
  then show ?thesis using finishes_le [OF deq_check_finishes [OF c]] p by simp
next
  case (Deq_help ta x)
  then show ?thesis using finishes_le [OF deq_help_finishes [OF c]] p by simp
next
  case (Deq_value hn nx)
  then show ?thesis using finishes_le [OF deq_value_finishes [OF c]] p by simp
next
  case (Deq_swing hn x v)
  then show ?thesis using finishes_le [OF deq_swing_finishes [OF c]] by simp
qed (use p r in \<open>auto simp: finishes_def eval_nat_numeral cas_defs\<close>)

section \<open>The methods without interference\<close>

definition seq_Enqueue :: "'v \<Rightarrow> 'v queue \<Rightarrow> 'v queue" where
  "seq_Enqueue v q = (case start (Enqueue v) q of (q', p) \<Rightarrow> fst (solo 17 q' p))"

definition seq_Dequeue :: "'v queue \<Rightarrow> 'v option \<times> 'v queue" where
  "seq_Dequeue q =
     (case solo 17 q Deq_load_head of
        (q', p) \<Rightarrow> (case p of Finished (DeqDone r) \<Rightarrow> r | _ \<Rightarrow> None, q'))"

definition seq_IsEmpty :: "'v queue \<Rightarrow> bool" where
  "seq_IsEmpty q =
     (case solo 17 q Empty_load of (q', p) \<Rightarrow> (case p of Finished (EmptyDone b) \<Rightarrow> b | _ \<Rightarrow> False))"

definition quiet :: "'v queue \<Rightarrow> 'v pc \<Rightarrow> 'v qsys" where
  "quiet q p = \<lparr>shared = q, pcs = [p]\<rparr>"

definition queue_inv :: "'v queue \<Rightarrow> bool" where
  "queue_inv q \<longleftrightarrow> represents (quiet q Idle) (snapshot q) \<and> None \<notin> set (snapshot q)"

definition queue_model :: "'v queue \<Rightarrow> 'v list" where
  "queue_model q = map the (snapshot q)"

lemma represents_rest: "represents (quiet q (Finished r)) vs \<longleftrightarrow> represents (quiet q Idle) vs"
  by (simp add: represents_def sys_inv_def quiet_def own_ok_def)

lemma exec_nil:
  "qexec s ls s' \<Longrightarrow> represents s vs \<Longrightarrow> LinNil \<in> set ls \<Longrightarrow> enqs ls = [] \<Longrightarrow> deqs ls = [] \<Longrightarrow> vs = []"
proof (induction rule: qexec.induct)
  case (none s)
  then show ?case by simp
next
  case (more s ls t l u)
  have e: "enqs ls = []" "deqs ls = []" using more.prems by simp_all
  show ?case
  proof (cases "LinNil \<in> set ls")
    case True
    then show ?thesis using more.IH more.prems(1) e by simp
  next
    case False
    then have "l = LinNil" using more.prems(2) by simp
    moreover have "represents t vs" using represents_exec [OF more.hyps(1) more.prems(1)] e by simp
    ultimately show ?thesis using represents_step [OF more.hyps(2)] by fastforce
  qed
qed

lemma solo_exec:
  assumes "qexec s0 (Tau # ls) (quiet q p)" "own_steps c ls q p" "solo k q p = (q', p')"
  shows "\<exists>ls'. qexec s0 (Tau # ls') (quiet q' p') \<and> own_steps c ls' q' p'"
  using assms
proof (induction k arbitrary: ls q p)
  case 0
  then show ?case by auto
next
  case (Suc k)
  show ?case
  proof (cases "at_rest p")
    case True
    then show ?thesis using Suc.prems by auto
  next
    case False
    obtain l q1 p1 where st: "tstep q p = (l, q1, p1)" by (cases "tstep q p") auto
    have "qstep (quiet q p) l (quiet q1 p1)"
      using qstep.run [of 0 "quiet q p"] False st by (simp add: quiet_def)
    then have "qexec s0 ((Tau # ls) @ [l]) (quiet q1 p1)" by (rule qexec.more [OF Suc.prems(1)])
    then show ?thesis
      using Suc.IH [of "ls @ [l]" q1 p1] own_steps.own [OF Suc.prems(2) False st] Suc.prems(3) False st
      by simp
  qed
qed

text \<open>A call that runs alone returns, takes effect once, and leaves a good queue.\<close>

lemma call_alone:
  assumes rep: "represents (quiet q Idle) vs" and st: "start c q = (q1, p1)"
    and so: "solo 17 q1 p1 = (q', p')"
  shows "\<exists>r ls vs'. p' = Finished r \<and> accounted c ls r \<and> represents (quiet q' Idle) vs' \<and>
    vs @ enqs ls = deqs ls @ vs' \<and> (LinNil \<in> set ls \<longrightarrow> enqs ls = [] \<longrightarrow> deqs ls = [] \<longrightarrow> vs = [])"
proof -
  have call: "qstep (quiet q Idle) Tau (quiet q1 p1)"
    using qstep.call [of 0 "quiet q Idle" c q1 p1] st by (simp add: quiet_def)
  obtain vs1 where "represents (quiet q1 p1) vs1" using represents_step [OF call rep] by blast
  then obtain ch h t where "chain_ok ch h t q1" "pc_ok ch h t q1 p1"
    by (auto simp: represents_def sys_inv_def quiet_def)
  moreover have "p1 \<noteq> Idle" using st by (cases c) auto
  ultimately have "finishes 17 q1 p1" by (rule solo_finishes)
  then obtain r where p': "p' = Finished r" using so by (cases p') (auto simp: finishes_def)
  have "qexec (quiet q Idle) (Tau # []) (quiet q1 p1)"
    using qexec.more [OF qexec.none call] by simp
  then obtain ls where ls: "qexec (quiet q Idle) (Tau # ls) (quiet q' p')" "own_steps c ls q' p'"
    using solo_exec [OF _ own_steps.enter [OF st] so] by blast
  obtain vs' where vs': "represents (quiet q' p') vs'" "vs @ enqs ls = deqs ls @ vs'"
    using represents_exec [OF ls(1) rep] by auto
  have "accounted c ls r" using own_steps_so_far [OF ls(2)] p' by simp
  moreover have "LinNil \<in> set ls \<longrightarrow> enqs ls = [] \<longrightarrow> deqs ls = [] \<longrightarrow> vs = []"
    using exec_nil [OF ls(1) rep] by simp
  ultimately show ?thesis using p' vs' represents_rest by blast
qed

lemma represents_quiet_snapshot: "represents (quiet q p) vs \<Longrightarrow> vs = snapshot q"
  by (drule represents_snapshot) (simp add: quiet_def)

lemma seq_Enqueue_ok:
  assumes "queue_inv q"
  shows "queue_inv (seq_Enqueue v q) \<and> queue_model (seq_Enqueue v q) = queue_model q @ [v]"
proof -
  obtain q1 p1 q' p' where st: "start (Enqueue v) q = (q1, p1)" "solo 17 q1 p1 = (q', p')"
    by (cases "start (Enqueue v) q"; cases "solo 17 (fst (start (Enqueue v) q)) (snd (start (Enqueue v) q))") auto
  have rep: "represents (quiet q Idle) (snapshot q)" using assms by (simp add: queue_inv_def)
  obtain vs' where vs': "represents (quiet q' Idle) vs'" "vs' = snapshot q @ [Some v]"
    using call_alone [OF rep st] by auto
  have "seq_Enqueue v q = q'" unfolding seq_Enqueue_def st(1) by (simp add: st(2))
  then show ?thesis
    using vs' represents_quiet_snapshot [OF vs'(1)] assms by (auto simp: queue_inv_def queue_model_def)
qed

lemma seq_Dequeue_ok:
  assumes "queue_inv q" and "seq_Dequeue q = (r, q')"
  shows "queue_inv q' \<and> (case queue_model q of [] \<Rightarrow> r = None \<and> queue_model q' = []
    | x # xs \<Rightarrow> r = Some x \<and> queue_model q' = xs)"
proof -
  obtain q2 p2 where so: "solo 17 q Deq_load_head = (q2, p2)" by fastforce
  have rep: "represents (quiet q Idle) (snapshot q)" using assms by (simp add: queue_inv_def)
  obtain r2 ls vs' where p2: "p2 = Finished r2" and acc: "accounted Dequeue ls r2"
      and vs': "represents (quiet q2 Idle) vs'" "snapshot q @ enqs ls = deqs ls @ vs'"
      and nil: "LinNil \<in> set ls \<longrightarrow> enqs ls = [] \<longrightarrow> deqs ls = [] \<longrightarrow> snapshot q = []"
    using call_alone [OF rep start.simps(2) so] by blast
  then obtain v where v: "r2 = DeqDone v" "enqs ls = []"
      "deqs ls = [v] \<or> deqs ls = [] \<and> v = None \<and> LinNil \<in> set ls" by (cases r2) auto
  have "q' = q2" "r = v" using assms(2) so p2 v(1) by (auto simp: seq_Dequeue_def)
  moreover have "vs' = snapshot q2" by (rule represents_quiet_snapshot [OF vs'(1)])
  ultimately show ?thesis
    using assms(1) vs' v nil by (auto simp: queue_inv_def queue_model_def)
qed

lemma seq_IsEmpty_ok:
  assumes "queue_inv q" "length (queue_model q) < 2 ^ 32"
  shows "seq_IsEmpty q \<longleftrightarrow> queue_model q = []"
proof -
  have "Length q = of_nat (length (snapshot q))"
    using assms(1) by (auto simp: queue_inv_def represents_def sys_inv_def quiet_def)
  moreover have "(of_nat (length (snapshot q)) :: 32 word) = 0 \<longleftrightarrow> snapshot q = []"
    using assms(2) by (simp add: queue_model_def word32_of_nat_0)
  ultimately show ?thesis
    by (simp add: seq_IsEmpty_def queue_model_def eval_nat_numeral)
qed

lemma NewQueue_ok: "queue_inv (NewQueue :: 'v queue) \<and> queue_model (NewQueue :: 'v queue) = []"
proof -
  have rep: "represents (quiet (NewQueue :: 'v queue) Idle) []"
    using represents_init [of 1] by (simp add: init_sys_def quiet_def)
  then have "snapshot (NewQueue :: 'v queue) = []" by (rule represents_quiet_snapshot [symmetric])
  then show ?thesis using rep by (simp add: queue_inv_def queue_model_def)
qed

section \<open>The interface\<close>

locale task_queue =
  fixes new :: 'q and enq :: "'a \<Rightarrow> 'q \<Rightarrow> 'q" and deq :: "'q \<Rightarrow> 'a option \<times> 'q"
    and isempty :: "'q \<Rightarrow> bool" and model :: "'q \<Rightarrow> 'a list" and inv :: "'q \<Rightarrow> bool"
  assumes new_ok: "inv new \<and> model new = []"
    and enq_ok: "inv q \<Longrightarrow> inv (enq x q) \<and> model (enq x q) = model q @ [x]"
    and deq_ok: "inv q \<Longrightarrow> deq q = (r, q') \<Longrightarrow>
      inv q' \<and> (case model q of [] \<Rightarrow> r = None \<and> model q' = [] | x # xs \<Rightarrow> r = Some x \<and> model q' = xs)"
    and isempty_ok: "inv q \<Longrightarrow> length (model q) < 2 ^ 32 \<Longrightarrow> isempty q \<longleftrightarrow> model q = []"

text \<open>A client loop that takes at most \<open>n\<close> tasks and stops at the first nil.\<close>

fun deq_upto :: "('q \<Rightarrow> 'a option \<times> 'q) \<Rightarrow> nat \<Rightarrow> 'q \<Rightarrow> 'a list \<times> 'q" where
  "deq_upto d 0 q = ([], q)"
| "deq_upto d (Suc n) q =
     (case d q of (None, q') \<Rightarrow> ([], q')
                | (Some x, q') \<Rightarrow> (case deq_upto d n q' of (xs, q'') \<Rightarrow> (x # xs, q'')))"

context task_queue
begin

lemma deq_empty: "inv q \<Longrightarrow> model q = [] \<Longrightarrow> deq q = (r, q') \<Longrightarrow> r = None \<and> inv q' \<and> model q' = []"
  using deq_ok [of q r q'] by simp

lemma deq_cons:
  "inv q \<Longrightarrow> model q = x # xs \<Longrightarrow> deq q = (r, q') \<Longrightarrow> r = Some x \<and> inv q' \<and> model q' = xs"
  using deq_ok [of q r q'] by simp

lemma enq_all:
  "inv q \<Longrightarrow> inv (fold enq xs q) \<and> model (fold enq xs q) = model q @ xs"
  by (induction xs arbitrary: q) (auto simp: enq_ok)

lemma take_tasks:
  "inv q \<Longrightarrow> deq_upto deq n q = (xs, q') \<Longrightarrow>
   xs = take n (model q) \<and> inv q' \<and> model q' = drop n (model q)"
proof (induction n arbitrary: q xs q')
  case 0
  then show ?case by simp
next
  case (Suc n)
  obtain r q1 where d: "deq q = (r, q1)" by fastforce
  show ?case
  proof (cases "model q")
    case Nil
    then show ?thesis using Suc.prems deq_empty [OF Suc.prems(1) Nil d] d by auto
  next
    case (Cons x ys)
    obtain zs q2 where rest: "deq_upto deq n q1 = (zs, q2)" by fastforce
    then show ?thesis
      using Suc.prems deq_cons [OF Suc.prems(1) Cons d] d Cons Suc.IH [of q1 zs q2] by auto
  qed
qed

end

interpretation tq: task_queue NewQueue seq_Enqueue seq_Dequeue seq_IsEmpty queue_model queue_inv
  by unfold_locales (simp_all add: NewQueue_ok seq_Enqueue_ok seq_Dequeue_ok seq_IsEmpty_ok)

section \<open>Properties\<close>

text \<open>
  C1. First in, first out, for any number of goroutines and any interleaving: the values that
  \<open>Enqueue\<close> calls have linked, in the order of their links, are the values that \<open>Dequeue\<close> calls
  have removed, in the order of their removals, followed by the values now in the queue. Nothing
  is lost, duplicated or reordered.
\<close>

theorem queue_fifo:
  assumes "qexec (init_sys n) ls s"
  shows "enqs ls = deqs ls @ snapshot (shared s)"
  using exec_represents [OF assms] by simp

text \<open>Two goroutines enqueue at the same time; the second one helps to swing \<open>Tail\<close>.\<close>

definition demo_schedule :: "(nat \<times> nat call option) list" where
  "demo_schedule = [(0, Some (Enqueue 7)), (1, Some (Enqueue 8))] @ replicate 4 (0, None) @
     replicate 4 (1, None) @ replicate 4 (1, None) @ [(1, None), (1, None)]"

definition demo_end :: "(nat label list \<times> nat qsys) option" where
  "demo_end = sched (init_sys 2) demo_schedule"

lemmas demo_eval = demo_end_def demo_schedule_def init_sys_def NewQueue_def cas_defs snapshot_def
  eval_nat_numeral

theorem queue_fifo_witness:
  "qexec (init_sys 2) (fst (the demo_end)) (snd (the demo_end)) \<and>
   snapshot (shared (snd (the demo_end))) = [Some 7, Some 8]"
proof -
  have e: "qexec (init_sys 2) (fst (the demo_end)) (snd (the demo_end))"
    by (rule sched_exec [of 2 demo_schedule]) (simp add: demo_eval)
  have "enqs (fst (the demo_end)) = [Some 7, Some 8]" "deqs (fst (the demo_end)) = []"
    by (simp_all add: demo_eval)
  then show ?thesis using e queue_fifo [OF e] by simp
qed

text \<open>
  C9. \<open>Dequeue\<close> never dereferences a nil \<open>next\<close>: in no reachable state has a goroutine crashed.
\<close>

theorem queue_no_nil_dereference:
  assumes "qexec (init_sys n) ls s" and "i < length (pcs s)"
  shows "pcs s ! i \<noteq> Crashed"
  using exec_represents [OF assms(1)] assms(2) by (auto simp: represents_def sys_inv_def)

theorem queue_no_nil_dereference_witness:
  "pcs (snd (the demo_end)) ! 1 \<noteq> Crashed"
proof -
  have e: "qexec (init_sys 2) (fst (the demo_end)) (snd (the demo_end))"
    by (rule sched_exec [of 2 demo_schedule]) (simp add: demo_eval)
  have "1 < length (pcs (snd (the demo_end)))" by (simp add: demo_eval)
  then show ?thesis by (rule queue_no_nil_dereference [OF e])
qed

text \<open>
  C2. Every call that returns has taken effect exactly once: an \<open>Enqueue\<close> linked its own value
  once, a \<open>Dequeue\<close> that returns a value removed that value and nothing else, a \<open>Dequeue\<close> that
  returns nil removed nothing and made the step at which it saw the queue empty, and \<open>IsEmpty\<close>
  changed nothing. The other goroutines may do anything in between.
\<close>

theorem call_takes_effect_once:
  assumes "own_steps c ls q (Finished r)"
  shows "case c of
      Enqueue v \<Rightarrow> r = EnqDone \<and> enqs ls = [Some v] \<and> deqs ls = []
    | Dequeue \<Rightarrow> (\<exists>v. r = DeqDone v \<and> enqs ls = [] \<and>
        (deqs ls = [v] \<or> deqs ls = [] \<and> v = None \<and> LinNil \<in> set ls))
    | IsEmpty \<Rightarrow> (\<exists>b. r = EmptyDone b \<and> enqs ls = [] \<and> deqs ls = [])"
proof -
  have "accounted c ls r" using own_steps_so_far [OF assms] by simp
  then show ?thesis by (cases c; cases r) auto
qed

theorem call_takes_effect_once_witness:
  "\<exists>v. (DeqDone None :: nat result) = DeqDone v \<and> enqs [Tau, Tau, LinNil, Tau :: nat label] = [] \<and>
     (deqs [Tau, Tau, LinNil, Tau] = [v] \<or>
      deqs [Tau, Tau, LinNil, Tau] = [] \<and> v = None \<and> LinNil \<in> set [Tau, Tau, LinNil, Tau])"
proof -
  let ?q = "NewQueue :: nat queue"
  have 1: "own_steps Dequeue [] ?q Deq_load_head" by (rule own_steps.enter) simp
  have 2: "own_steps Dequeue ([] @ [Tau]) ?q (Deq_load_tail 0)"
    by (rule own_steps.own [OF 1]) (simp_all add: NewQueue_def)
  have 3: "own_steps Dequeue (([] @ [Tau]) @ [Tau]) ?q (Deq_load_next 0 0)"
    by (rule own_steps.own [OF 2]) (simp_all add: NewQueue_def)
  have 4: "own_steps Dequeue ((([] @ [Tau]) @ [Tau]) @ [LinNil]) ?q (Deq_check 0 0 None)"
    by (rule own_steps.own [OF 3]) (simp_all add: NewQueue_def)
  have 5: "own_steps Dequeue (((([] @ [Tau]) @ [Tau]) @ [LinNil]) @ [Tau]) ?q (Finished (DeqDone None))"
    by (rule own_steps.own [OF 4]) (simp_all add: NewQueue_def)
  show ?thesis using call_takes_effect_once [OF 5] by simp
qed

text \<open>
  The nil result is right: whenever a goroutine makes the step that leads to a nil result,
  the queue is empty at that moment.
\<close>

lemma nil_only_when_empty:
  assumes "qexec (init_sys n) ls s" and "qstep s LinNil s'"
  shows "snapshot (shared s) = []"
  using represents_step [OF assms(2)] exec_represents [OF assms(1)] by fastforce

theorem nil_only_when_empty_witness:
  "snapshot (shared (snd (the (sched (init_sys 1 :: nat qsys) [(0, Some Dequeue), (0, None), (0, None)])))) = []"
proof -
  let ?r = "the (sched (init_sys 1 :: nat qsys) [(0, Some Dequeue), (0, None), (0, None)])"
  have e: "qexec (init_sys 1) (fst ?r) (snd ?r)"
    by (rule sched_exec [of 1 "[(0, Some Dequeue), (0, None), (0, None)]"]) (simp add: demo_eval)
  have "qstep (snd ?r) LinNil (snd (the (sched_step (snd ?r) (0, None))))"
    by (rule sched_step_qstep [of _ 0 None]) (simp add: demo_eval)
  then show ?thesis by (rule nil_only_when_empty [OF e])
qed

text \<open>
  C10. The counter behind \<open>IsEmpty\<close>: it differs from the number of values in the queue by exactly
  the calls that are between their link or removal and their \<open>AddInt32\<close>; so whenever no call is
  under way, \<open>IsEmpty\<close> is exact (up to \<open>2 ^ 32\<close> values, where the counter wraps).
\<close>

theorem length_counter:
  assumes "qexec (init_sys n) ls s"
  shows "Length (shared s) =
      of_int (int (length (snapshot (shared s))) - sum_list (map pending (pcs s))) \<and>
    (list_all at_rest (pcs s) \<and> length (snapshot (shared s)) < 2 ^ 32 \<longrightarrow>
      (Length (shared s) = 0 \<longleftrightarrow> snapshot (shared s) = []))"
proof -
  have 1: "Length (shared s) =
      of_int (int (length (snapshot (shared s))) - sum_list (map pending (pcs s)))"
    using exec_represents [OF assms] by (auto simp: represents_def sys_inv_def snapshot_items)
  have "Length (shared s) = word_of_nat (length (snapshot (shared s)))" if "list_all at_rest (pcs s)"
  proof -
    have "map pending (pcs s) = map (\<lambda>_. 0) (pcs s)"
      using that by (auto simp: list_all_iff elim!: at_rest.elims)
    then show ?thesis using 1 by (simp add: map_replicate_const sum_list_replicate)
  qed
  then show ?thesis using 1 by (auto simp: word32_of_nat_0)
qed

theorem length_counter_witness:
  "Length (shared (snd (the demo_end))) = 1 \<and> snapshot (shared (snd (the demo_end))) = [Some 7, Some 8]"
proof -
  have e: "qexec (init_sys 2) (fst (the demo_end)) (snd (the demo_end))"
    by (rule sched_exec [of 2 demo_schedule]) (simp add: demo_eval)
  have snap: "snapshot (shared (snd (the demo_end))) = [Some 7, Some 8]"
    and pend: "map pending (pcs (snd (the demo_end))) = [1, 0]"
    by (simp_all add: demo_eval)
  have "Length (shared (snd (the demo_end))) = of_int (int (length [Some (7::nat), Some 8]) - sum_list [1, 0])"
    using conjunct1 [OF length_counter [OF e]] unfolding snap pend .
  then show ?thesis using snap by simp
qed

text \<open>
  C11. Obstruction freedom: from any reachable state, whatever the other goroutines have left half
  done, a goroutine inside a call that is left to run alone returns within 17 of its own steps.
\<close>

theorem obstruction_free:
  assumes "qexec (init_sys n) ls s" and "i < length (pcs s)" and "\<not> at_rest (pcs s ! i)"
  shows "\<exists>q' r. solo 17 (shared s) (pcs s ! i) = (q', Finished r)"
proof -
  obtain ch h t where "chain_ok ch h t (shared s)" "pc_ok ch h t (shared s) (pcs s ! i)"
    using exec_represents [OF assms(1)] assms(2) by (auto simp: represents_def sys_inv_def)
  moreover have "pcs s ! i \<noteq> Idle" using assms(3) by auto
  ultimately have "is_finished (snd (solo 17 (shared s) (pcs s ! i)))"
    using solo_finishes by (auto simp: finishes_def)
  then show ?thesis
    by (cases "solo 17 (shared s) (pcs s ! i)") (auto elim!: is_finished.elims)
qed

theorem obstruction_free_witness:
  "\<exists>q' r. solo 17 (shared (snd (the demo_end))) (pcs (snd (the demo_end)) ! 0) = (q', Finished r)"
proof -
  have e: "qexec (init_sys 2) (fst (the demo_end)) (snd (the demo_end))"
    by (rule sched_exec [of 2 demo_schedule]) (simp add: demo_eval)
  have "0 < length (pcs (snd (the demo_end)))" "\<not> at_rest (pcs (snd (the demo_end)) ! 0)"
    by (simp_all add: demo_eval)
  then show ?thesis by (rule obstruction_free [OF e])
qed

end
