(* ===== verification/ByteSlice.thy ===== *)
theory ByteSlice
  imports Prelude
begin

text \<open>
  The pool of byte slices of \<open>utils/byteslice/bs.go\<close>: 32 classes, class \<open>i\<close> holding pointers to
  buffers of at least \<open>2 ^ i\<close> bytes. The pool keeps only the pointer of a returned buffer and
  makes up the capacity again from the class, so the size of the allocation behind the pointer
  (\<open>room\<close>) is what memory safety rests on.
\<close>

section \<open>index\<close>

text \<open>\<open>bits.Len32\<close> of the standard library: the number of bits needed to write \<open>n\<close>.\<close>

fun bits_len :: "nat \<Rightarrow> nat" where
  "bits_len n = (if n = 0 then 0 else Suc (bits_len (n div 2)))"

declare bits_len.simps [simp del]

definition index :: "32 word \<Rightarrow> nat" where
  "index n = bits_len (unat (n - 1))"

lemma bits_len_0 [simp]: "bits_len 0 = 0"
  by (simp add: bits_len.simps)

lemma bits_len_upper: "n < 2 ^ bits_len n"
proof (induction n rule: bits_len.induct)
  case (1 n)
  show ?case
  proof (cases "n = 0")
    case False
    then have "n div 2 < 2 ^ bits_len (n div 2)" using 1 by simp
    then show ?thesis using False by (simp add: bits_len.simps [of n])
  qed simp
qed

lemma bits_len_lower: "0 < n \<Longrightarrow> 2 ^ (bits_len n - 1) \<le> n"
proof (induction n rule: bits_len.induct)
  case (1 n)
  show ?case
  proof (cases "n div 2 = 0")
    case True
    then have "n = 1" using 1(2) by auto
    then show ?thesis by (simp add: bits_len.simps)
  next
    case False
    then have le: "2 ^ (bits_len (n div 2) - 1) \<le> n div 2" and "0 < bits_len (n div 2)"
      using 1 by (auto simp: bits_len.simps [of "n div 2"])
    then have "2 * 2 ^ (bits_len (n div 2) - 1) = (2::nat) ^ bits_len (n div 2)"
      by (simp flip: power_Suc)
    then show ?thesis using le False 1(2) by (simp add: bits_len.simps [of n])
  qed
qed

lemma bits_len_less: "n < 2 ^ k \<Longrightarrow> bits_len n \<le> k"
proof (rule ccontr)
  assume n: "n < 2 ^ k" and "\<not> bits_len n \<le> k"
  then have "k \<le> bits_len n - 1" "0 < n" by (auto intro: Suc_leI gr0I)
  then have "(2::nat) ^ k \<le> n"
    using bits_len_lower [of n] power_increasing [of k "bits_len n - 1" "2::nat"] by linarith
  with n show False by simp
qed

lemma index_of_nat: "0 < n \<Longrightarrow> n < 2 ^ 32 \<Longrightarrow> index (word_of_nat n) = bits_len (n - 1)"
proof -
  assume "0 < n" "n < 2 ^ 32"
  then have "unat (word_of_nat n - 1 :: 32 word) = n - 1"
    by (subst unat_minus_one) (auto simp: word_of_nat_eq_0_iff unat_of_nat dest: dvd_imp_le)
  then show ?thesis by (simp add: index_def)
qed

text \<open>The class of a size holds at least that many bytes, and half of it does not.\<close>

lemma index_bounds:
  assumes "0 < n" "n < 2 ^ 32"
  shows "n \<le> 2 ^ index (word_of_nat n)"
    and "1 < n \<Longrightarrow> 2 ^ (index (word_of_nat n) - 1) < n"
    and "1 < n \<Longrightarrow> 0 < index (word_of_nat n)"
proof -
  show "n \<le> 2 ^ index (word_of_nat n)"
    using bits_len_upper [of "n - 1"] assms by (simp add: index_of_nat)
  show "1 < n \<Longrightarrow> 2 ^ (index (word_of_nat n) - 1) < n"
    using bits_len_lower [of "n - 1"] assms by (simp add: index_of_nat)
  show "1 < n \<Longrightarrow> 0 < index (word_of_nat n)"
    using assms by (simp add: index_of_nat) (simp add: bits_len.simps [of "n - Suc 0"])
qed

section \<open>Get and Put\<close>

definition MaxInt32 :: int where
  "MaxInt32 = 2 ^ 31 - 1"

record buf =
  ptr :: nat
  blen :: int
  bcap :: int

text \<open>
  The state of the allocator and the pool. \<open>classes i\<close> are the pointers in \<open>pools[i]\<close>, \<open>room p\<close> the
  bytes of the allocation behind \<open>p\<close>, \<open>fresh_ptr\<close> the next pointer \<open>make\<close> hands out. A
  \<open>sync.Pool\<close> may return any of its items or none: \<open>pick\<close> says which, and an index outside the
  list is a miss.
\<close>

record pool =
  classes :: "nat \<Rightarrow> nat list"
  room :: "nat \<Rightarrow> int"
  fresh_ptr :: nat

definition make_buf :: "pool \<Rightarrow> int \<Rightarrow> int \<Rightarrow> buf \<times> pool" where
  "make_buf p len cap =
     (\<lparr>ptr = fresh_ptr p, blen = len, bcap = cap\<rparr>,
      p\<lparr>room := (room p)(fresh_ptr p := cap), fresh_ptr := Suc (fresh_ptr p)\<rparr>)"

definition Get :: "pool \<Rightarrow> nat \<Rightarrow> int \<Rightarrow> buf option \<times> pool" where
  "Get p pick sz =
     (if sz \<le> 0 then (None, p)
      else if sz > MaxInt32 then (case make_buf p sz sz of (b, p') \<Rightarrow> (Some b, p'))
      else let idx = index (word_of_int sz) in
        if pick < length (classes p idx)
        then (Some \<lparr>ptr = classes p idx ! pick, blen = sz, bcap = 2 ^ idx\<rparr>,
              p\<lparr>classes := (classes p)(idx := take pick (classes p idx) @ drop (Suc pick) (classes p idx))\<rparr>)
        else (case make_buf p sz (2 ^ idx) of (b, p') \<Rightarrow> (Some b, p')))"

definition Put :: "pool \<Rightarrow> buf \<Rightarrow> pool" where
  "Put p b =
     (let sz = bcap b in
      if sz = 0 \<or> sz > MaxInt32 then p
      else let idx = index (word_of_int sz);
               idx' = (if sz \<noteq> 2 ^ idx then idx - 1 else idx)
           in p\<lparr>classes := (classes p)(idx' := ptr b # classes p idx')\<rparr>)"

text \<open>
  A buffer is good when its length is within its capacity and its capacity within the
  allocation. A pool is good when every pointer of class \<open>i\<close> has room for \<open>2 ^ i\<close> bytes and was
  handed out by the allocator, and no pointer is in it twice.
\<close>

definition buf_ok :: "pool \<Rightarrow> buf \<Rightarrow> bool" where
  "buf_ok p b \<longleftrightarrow> 0 \<le> blen b \<and> blen b \<le> bcap b \<and> bcap b \<le> room p (ptr b) \<and> ptr b < fresh_ptr p"

definition pool_ok :: "pool \<Rightarrow> bool" where
  "pool_ok p \<longleftrightarrow>
     (\<forall>i. distinct (classes p i) \<and> (classes p i \<noteq> [] \<longrightarrow> i < 32)) \<and>
     (\<forall>i j. i \<noteq> j \<longrightarrow> set (classes p i) \<inter> set (classes p j) = {}) \<and>
     (\<forall>i. \<forall>q \<in> set (classes p i). 2 ^ i \<le> room p q \<and> q < fresh_ptr p)"

definition pooled :: "pool \<Rightarrow> nat set" where
  "pooled p = (\<Union>i. set (classes p i))"

definition empty_pool :: pool where
  "empty_pool = \<lparr>classes = (\<lambda>_. []), room = (\<lambda>_. 0), fresh_ptr = 0\<rparr>"

lemma pool_ok_empty: "pool_ok empty_pool" "pooled empty_pool = {}"
  by (simp_all add: pool_ok_def empty_pool_def pooled_def)

lemma pooled_less: "pool_ok p \<Longrightarrow> q \<in> pooled p \<Longrightarrow> q < fresh_ptr p"
  by (auto simp: pool_ok_def pooled_def)

lemma size_index:
  assumes "0 < sz" "sz \<le> MaxInt32"
  shows "index (word_of_int sz) = bits_len (nat sz - 1)"
    and "sz \<le> 2 ^ index (word_of_int sz)"
    and "1 < sz \<Longrightarrow> 2 ^ (index (word_of_int sz) - 1) < sz"
    and "index (word_of_int sz) < 32"
proof -
  obtain n where n: "sz = int n" using assms(1) by (metis less_imp_le nonneg_int_cases)
  have b: "0 < n" "n < 2 ^ 31" using assms n by (auto simp: MaxInt32_def)
  then have b32: "n < 2 ^ 32" by simp
  have w: "(word_of_int sz :: 32 word) = word_of_nat n" by (simp add: n)
  show "index (word_of_int sz) = bits_len (nat sz - 1)"
    using index_of_nat [OF b(1) b32] by (simp add: w n)
  have "int n \<le> int (2 ^ index (word_of_nat n))" "1 < n \<Longrightarrow> int (2 ^ (index (word_of_nat n) - 1)) < int n"
    using index_bounds(1,2) [OF b(1) b32] by (simp_all only: of_nat_le_iff of_nat_less_iff)
  then show "sz \<le> 2 ^ index (word_of_int sz)"
    and "1 < sz \<Longrightarrow> 2 ^ (index (word_of_int sz) - 1) < sz"
    by (simp_all add: w n)
  have "bits_len (n - 1) \<le> 31" using b by (intro bits_len_less) simp
  then show "index (word_of_int sz) < 32" using index_of_nat [OF b(1) b32] by (simp add: w)
qed

section \<open>Safety\<close>

lemma make_buf_ok:
  assumes "pool_ok p" "0 \<le> len" "len \<le> cap" "make_buf p len cap = (b, p')"
  shows "pool_ok p' \<and> buf_ok p' b \<and> blen b = len \<and> ptr b \<notin> pooled p' \<and> pooled p' = pooled p"
proof -
  have p': "p' = p\<lparr>room := (room p)(fresh_ptr p := cap), fresh_ptr := Suc (fresh_ptr p)\<rparr>"
    and b: "b = \<lparr>ptr = fresh_ptr p, blen = len, bcap = cap\<rparr>" using assms(4) by (auto simp: make_buf_def)
  have same: "pooled p' = pooled p" by (simp add: p' pooled_def)
  have old: "fresh_ptr p \<notin> pooled p" using pooled_less [OF assms(1)] by blast
  have "pool_ok p'"
    using assms(1) unfolding pool_ok_def p' by (auto simp: less_Suc_eq)
  then show ?thesis using same old assms(2,3) by (simp add: b buf_ok_def) (simp add: p')
qed

lemma remove_nth_set:
  "distinct xs \<Longrightarrow> k < length xs \<Longrightarrow>
   distinct (take k xs @ drop (Suc k) xs) \<and> set (take k xs @ drop (Suc k) xs) = set xs - {xs ! k}"
proof -
  assume d: "distinct xs" and k: "k < length xs"
  define ys zs where "ys = take k xs" and "zs = drop (Suc k) xs"
  have xs: "xs = ys @ xs ! k # zs" using k by (simp add: ys_def zs_def id_take_nth_drop)
  have "distinct (ys @ xs ! k # zs)" "set xs = set (ys @ xs ! k # zs)" using d xs by metis+
  then show ?thesis unfolding ys_def [symmetric] zs_def [symmetric] by auto
qed

lemma Get_hit:
  assumes ok: "pool_ok p" and sz: "0 < sz" "sz \<le> MaxInt32"
    and k: "pick < length (classes p (index (word_of_int sz)))" and g: "Get p pick sz = (Some b, p')"
  shows "pool_ok p' \<and> buf_ok p' b \<and> blen b = sz \<and> ptr b \<notin> pooled p' \<and>
    pooled p' \<subseteq> pooled p \<and> ptr b \<in> pooled p"
proof -
  define i where "i = index (word_of_int sz)"
  let ?c = "classes p i"
  have p': "p' = p\<lparr>classes := (classes p)(i := take pick ?c @ drop (Suc pick) ?c)\<rparr>"
    and b: "b = \<lparr>ptr = ?c ! pick, blen = sz, bcap = 2 ^ i\<rparr>"
    using g k sz by (auto simp: Get_def i_def Let_def)
  have d: "distinct ?c" and k': "pick < length ?c" using ok k by (auto simp: pool_ok_def i_def)
  note rm = remove_nth_set [OF d k']
  have mem: "?c ! pick \<in> set ?c" using k' by simp
  have "pool_ok p'"
    unfolding pool_ok_def
  proof (intro conjI allI impI ballI)
    fix j show "distinct (classes p' j)" using ok rm by (simp add: p' pool_ok_def)
  next
    fix j assume "classes p' j \<noteq> []"
    then have "classes p j \<noteq> []" by (cases "j = i") (auto simp: p')
    then show "j < 32" using ok unfolding pool_ok_def by blast
  next
    fix j l :: nat assume "j \<noteq> l"
    then have "set (classes p j) \<inter> set (classes p l) = {}" using ok by (simp add: pool_ok_def)
    then show "set (classes p' j) \<inter> set (classes p' l) = {}"
      using rm by (cases "j = i"; cases "l = i") (auto simp: p' simp del: set_append)
  next
    fix j q assume "q \<in> set (classes p' j)"
    then have "q \<in> set (classes p j)" using rm by (cases "j = i") (auto simp: p' simp del: set_append)
    then show "2 ^ j \<le> room p' q" "q < fresh_ptr p'" using ok by (auto simp: p' pool_ok_def)
  qed
  moreover have "ptr b \<notin> pooled p'"
  proof
    assume "ptr b \<in> pooled p'"
    then obtain j where j: "?c ! pick \<in> set (classes p' j)" by (auto simp: pooled_def b)
    show False
    proof (cases "j = i")
      case True
      then show False using j rm by (simp add: p' del: set_append)
    next
      case False
      then have "?c ! pick \<in> set (classes p j)" using j by (simp add: p')
      then show False using ok False mem by (auto simp: pool_ok_def)
    qed
  qed
  moreover have "pooled p' \<subseteq> pooled p"
  proof
    fix q assume "q \<in> pooled p'"
    then obtain j where "q \<in> set (classes p' j)" by (auto simp: pooled_def)
    then have "q \<in> set (classes p j)" using rm by (cases "j = i") (auto simp: p' simp del: set_append)
    then show "q \<in> pooled p" by (auto simp: pooled_def)
  qed
  moreover have "ptr b \<in> pooled p" using mem by (auto simp: pooled_def b)
  moreover have "buf_ok p' b"
    using size_index(2) [OF sz] ok mem sz by (auto simp: buf_ok_def b p' pool_ok_def i_def)
  ultimately show ?thesis by (simp add: b)
qed

lemma Get_ok:
  assumes ok: "pool_ok p" and g: "Get p pick sz = (Some b, p')"
  shows "pool_ok p' \<and> buf_ok p' b \<and> blen b = sz \<and> ptr b \<notin> pooled p' \<and> pooled p' \<subseteq> pooled p \<and>
    (ptr b \<in> pooled p \<or> ptr b = fresh_ptr p) \<and> fresh_ptr p \<le> fresh_ptr p' \<and>
    (\<forall>q < fresh_ptr p. room p' q = room p q)"
proof -
  have pos: "0 < sz" using g by (auto simp: Get_def split: if_splits)
  have frame: "fresh_ptr p \<le> fresh_ptr p' \<and> (\<forall>q < fresh_ptr p. room p' q = room p q)"
    using g by (auto simp: Get_def make_buf_def Let_def split: if_splits)
  consider (big) "MaxInt32 < sz"
    | (hit) "sz \<le> MaxInt32" "pick < length (classes p (index (word_of_int sz)))"
    | (miss) "sz \<le> MaxInt32" "\<not> pick < length (classes p (index (word_of_int sz)))"
    by linarith
  then show ?thesis
  proof cases
    case big
    then have "make_buf p sz sz = (b, p')" using g pos by (auto simp: Get_def split: prod.splits)
    then show ?thesis using make_buf_ok [OF ok, of sz sz] pos frame by (auto simp: make_buf_def)
  next
    case hit
    then show ?thesis using Get_hit [OF ok pos hit g] frame by simp
  next
    case miss
    then have "make_buf p sz (2 ^ index (word_of_int sz)) = (b, p')"
      using g pos by (auto simp: Get_def Let_def split: prod.splits)
    then show ?thesis
      using make_buf_ok [OF ok, of sz "2 ^ index (word_of_int sz)"] size_index(2) [OF pos miss(1)] pos frame
      by (auto simp: make_buf_def)
  qed
qed

text \<open>The class a buffer goes to never promises more room than the buffer has.\<close>

lemma Put_class:
  assumes "0 < sz" "sz \<le> MaxInt32"
  defines "idx \<equiv> index (word_of_int sz)"
  shows "2 ^ (if sz \<noteq> 2 ^ idx then idx - 1 else idx) \<le> sz" "(if sz \<noteq> 2 ^ idx then idx - 1 else idx) < 32"
proof -
  have "sz = 1 \<Longrightarrow> idx = 0" using size_index(1) [OF assms(1,2)] by (simp add: idx_def)
  then show "2 ^ (if sz \<noteq> 2 ^ idx then idx - 1 else idx) \<le> sz"
    using size_index(3) [OF assms(1,2)] assms(1) by (cases "sz = 1") (auto simp: idx_def)
  show "(if sz \<noteq> 2 ^ idx then idx - 1 else idx) < 32"
    using size_index(4) [OF assms(1,2)] by (auto simp: idx_def)
qed

lemma Put_ok:
  assumes ok: "pool_ok p" and b: "buf_ok p b" and new: "ptr b \<notin> pooled p"
  shows "pool_ok (Put p b) \<and> pooled (Put p b) \<subseteq> insert (ptr b) (pooled p) \<and>
    room (Put p b) = room p \<and> fresh_ptr (Put p b) = fresh_ptr p"
proof (cases "bcap b = 0 \<or> bcap b > MaxInt32")
  case True
  then show ?thesis using ok by (auto simp: Put_def)
next
  case False
  define idx where "idx = index (word_of_int (bcap b))"
  define k where "k = (if bcap b \<noteq> 2 ^ idx then idx - 1 else idx)"
  have sz: "0 < bcap b" "bcap b \<le> MaxInt32" using b False by (auto simp: buf_ok_def)
  have k: "2 ^ k \<le> bcap b" "k < 32" unfolding k_def idx_def by (rule Put_class [OF sz])+
  have put: "Put p b = p\<lparr>classes := (classes p)(k := ptr b # classes p k)\<rparr>"
    using False by (simp add: Put_def Let_def k_def idx_def)
  have out: "ptr b \<notin> set (classes p i)" for i using new by (auto simp: pooled_def)
  have "pool_ok (Put p b)"
    using ok out k b unfolding pool_ok_def put by (auto simp: buf_ok_def)
  moreover have "pooled (Put p b) \<subseteq> insert (ptr b) (pooled p)"
    by (auto simp: put pooled_def split: if_splits)
  ultimately show ?thesis by (simp add: put)
qed

section \<open>Clients\<close>

text \<open>
  The buffers clients hold. A client may get a buffer, reslice one it holds (a smaller length or
  capacity from the same start) and give one back; it does not use a buffer it has given back.
\<close>

inductive pool_run :: "pool \<Rightarrow> buf list \<Rightarrow> bool" where
  empty: "pool_run empty_pool []"
| get: "pool_run p own \<Longrightarrow> Get p pick sz = (Some b, p') \<Longrightarrow> pool_run p' (b # own)"
| reslice: "pool_run p (xs @ b # ys) \<Longrightarrow> 0 \<le> len \<Longrightarrow> len \<le> cap \<Longrightarrow> cap \<le> bcap b \<Longrightarrow>
    pool_run p (xs @ b\<lparr>blen := len, bcap := cap\<rparr> # ys)"
| put: "pool_run p (xs @ b # ys) \<Longrightarrow> pool_run (Put p b) (xs @ ys)"

definition held_ok :: "pool \<Rightarrow> buf list \<Rightarrow> bool" where
  "held_ok p own \<longleftrightarrow> distinct (map ptr own) \<and> (\<forall>b \<in> set own. buf_ok p b \<and> ptr b \<notin> pooled p)"

lemma held_ok_mono:
  assumes "held_ok p own" "fresh_ptr p \<le> fresh_ptr p'" "\<And>q. q < fresh_ptr p \<Longrightarrow> room p' q = room p q"
    and "\<And>b. b \<in> set own \<Longrightarrow> ptr b \<notin> pooled p'"
  shows "held_ok p' own"
  using assms by (fastforce simp: held_ok_def buf_ok_def)

lemma pool_run_ok: "pool_run p own \<Longrightarrow> pool_ok p \<and> held_ok p own"
proof (induction rule: pool_run.induct)
  case empty
  then show ?case by (simp add: pool_ok_empty held_ok_def)
next
  case (get p own pick sz b p')
  then have g: "pool_ok p' \<and> buf_ok p' b \<and> blen b = sz \<and> ptr b \<notin> pooled p' \<and> pooled p' \<subseteq> pooled p \<and>
      (ptr b \<in> pooled p \<or> ptr b = fresh_ptr p) \<and> fresh_ptr p \<le> fresh_ptr p' \<and>
      (\<forall>q < fresh_ptr p. room p' q = room p q)" using Get_ok by blast
  have "held_ok p' own"
    by (rule held_ok_mono [of p]) (use get.IH g in \<open>auto simp: held_ok_def\<close>)
  moreover have "ptr b \<notin> ptr ` set own"
  proof
    assume "ptr b \<in> ptr ` set own"
    then obtain c where "c \<in> set own" "ptr c = ptr b" by auto
    then have "ptr b < fresh_ptr p" "ptr b \<notin> pooled p" using get.IH by (auto simp: held_ok_def buf_ok_def)
    then show False using g by auto
  qed
  ultimately show ?case using g by (simp add: held_ok_def)
next
  case (reslice p xs b ys len cap)
  then show ?case by (auto simp: held_ok_def buf_ok_def)
next
  case (put p xs b ys)
  then have b: "buf_ok p b" "ptr b \<notin> pooled p" "pool_ok p" by (auto simp: held_ok_def)
  note ok = Put_ok [OF b(3,1,2)]
  have held: "held_ok p (xs @ ys)" using put.IH by (auto simp: held_ok_def)
  have out: "ptr c \<notin> insert (ptr b) (pooled p)" if c: "c \<in> set (xs @ ys)" for c
  proof -
    have "ptr c \<noteq> ptr b" using put.IH imageI [OF c, of ptr] by (auto simp: held_ok_def)
    then show ?thesis using held c by (auto simp: held_ok_def)
  qed
  have "held_ok (Put p b) (xs @ ys)"
  proof (rule held_ok_mono [OF held])
    show "ptr c \<notin> pooled (Put p b)" if "c \<in> set (xs @ ys)" for c
      using ok out [OF that] by blast
  qed (use ok in simp_all)
  then show ?case using ok by simp
qed

text \<open>
  C12. Memory safety of the pool, over every sequence of \<open>Get\<close>, reslicing and \<open>Put\<close>: every buffer a
  client holds lies within its allocation although the pool forgets capacities, no two held
  buffers start at the same address, and no held buffer is still in the pool.
\<close>

theorem pool_memory_safe:
  assumes "pool_run p own"
  shows "(\<forall>b \<in> set own. 0 \<le> blen b \<and> blen b \<le> bcap b \<and> bcap b \<le> room p (ptr b) \<and> ptr b \<notin> pooled p) \<and>
    distinct (map ptr own)"
  using pool_run_ok [OF assms] by (auto simp: held_ok_def buf_ok_def)

text \<open>A buffer of 100 bytes is cut to a capacity of 70, given back, and handed out again.\<close>

theorem pool_memory_safe_witness:
  "\<exists>p b. pool_run p [b] \<and> blen b = 50 \<and> bcap b = 64 \<and> bcap b \<le> room p (ptr b)"
proof -
  have i: "index 100 = 7" "index 70 = 7" "index 50 = 6"
    by (simp_all add: index_def bits_len.simps)
  let ?b = "\<lparr>ptr = 0, blen = 100, bcap = 128\<rparr>" and ?c = "\<lparr>ptr = 0, blen = 70, bcap = 70\<rparr>"
  let ?p1 = "snd (Get empty_pool 0 100)" and ?d = "\<lparr>ptr = 0, blen = 50, bcap = 64\<rparr>"
  let ?p2 = "snd (Get (Put ?p1 ?c) 0 50)"
  have g1: "Get empty_pool 0 100 = (Some ?b, ?p1)"
    by (simp add: Get_def MaxInt32_def i empty_pool_def make_buf_def)
  have "pool_run ?p1 ([] @ ?b # [])" using pool_run.get [OF pool_run.empty g1] by simp
  then have "pool_run ?p1 ([] @ ?b\<lparr>blen := 70, bcap := 70\<rparr> # [])" by (rule pool_run.reslice) simp_all
  then have "pool_run (Put ?p1 ?c) ([] @ [])" by (intro pool_run.put) simp
  moreover have "Get (Put ?p1 ?c) 0 50 = (Some ?d, ?p2)"
    by (simp add: Get_def Put_def MaxInt32_def i empty_pool_def make_buf_def Let_def)
  ultimately have run: "pool_run ?p2 [?d]" using pool_run.get [of "Put ?p1 ?c" "[]"] by simp
  show ?thesis using run pool_memory_safe [OF run] by (intro exI [of _ ?p2] exI [of _ ?d]) simp
qed

end
