(* ===== verification/Balancer.thy ===== *)
theory Balancer
  imports Prelude
begin

text \<open>
  The load balancers of \<open>balancer/round_robin.go\<close> and \<open>balancer/least_conn.go\<close>, and the interface
  \<open>IBalancer\<close> of \<open>iface/ifaces.go\<close> as a locale that both satisfy. An event loop is a value of
  type \<open>'e\<close>; \<open>LeastConn\<close> reads the connection count of a loop through a function.
\<close>

section \<open>Round robin\<close>

record 'e RoundRobin =
  rr_eloopList :: "'e list"
  rr_size :: int
  nextIndex :: int

definition new_RoundRobin :: "'e RoundRobin" where
  "new_RoundRobin = \<lparr>rr_eloopList = [], rr_size = 0, nextIndex = 0\<rparr>"

definition rr_Len :: "'e RoundRobin \<Rightarrow> int" where
  "rr_Len b = rr_size b"

definition rr_Register :: "'e \<Rightarrow> 'e RoundRobin \<Rightarrow> 'e RoundRobin" where
  "rr_Register e b = b\<lparr>rr_eloopList := rr_eloopList b @ [e], rr_size := rr_size b + 1\<rparr>"

definition rr_Next :: "'e RoundRobin \<Rightarrow> ('e \<times> 'e RoundRobin) go" where
  "rr_Next b =
     go_bind (index_expr (rr_eloopList b) (nextIndex b)) (\<lambda>e.
       let i = nextIndex b + 1 in
       Ret (e, b\<lparr>nextIndex := (if i > rr_size b then 0 else i)\<rparr>))"

text \<open>
  \<open>Iterator\<close> calls \<open>f\<close> with each index and loop until it returns false; the state \<open>'s\<close> is what
  the callback changes. Both balancers have the same loop.
\<close>

fun iterate :: "(nat \<Rightarrow> 'e \<Rightarrow> 's \<Rightarrow> bool \<times> 's) \<Rightarrow> nat \<Rightarrow> 'e list \<Rightarrow> 's \<Rightarrow> 's" where
  "iterate f k [] s = s"
| "iterate f k (e # es) s = (case f k e s of (ok, s') \<Rightarrow> if \<not> ok then s' else iterate f (Suc k) es s')"

lemma iterate_all:
  "(\<And>k e s. fst (f k e s)) \<Longrightarrow> iterate f k es s = fold (\<lambda>(k, e) s. snd (f k e s)) (enumerate k es) s"
proof (induction es arbitrary: k s)
  case (Cons e es)
  obtain s' where "f k e s = (True, s')" using Cons.prems [of k e s] by (cases "f k e s") auto
  then show ?case using Cons.IH [OF Cons.prems] by simp
qed simp

definition rr_Iterator :: "(nat \<Rightarrow> 'e \<Rightarrow> 's \<Rightarrow> bool \<times> 's) \<Rightarrow> 'e RoundRobin \<Rightarrow> 's \<Rightarrow> 's" where
  "rr_Iterator f b s = iterate f 0 (rr_eloopList b) s"

definition rr_ok :: "'e RoundRobin \<Rightarrow> bool" where
  "rr_ok b \<longleftrightarrow> rr_size b = int (length (rr_eloopList b)) \<and> 0 \<le> nextIndex b \<and> nextIndex b \<le> rr_size b"

section \<open>Least connections\<close>

record 'e LeastConn =
  lc_eloopList :: "'e list"
  lc_size :: int

definition new_LeastConn :: "'e LeastConn" where
  "new_LeastConn = \<lparr>lc_eloopList = [], lc_size = 0\<rparr>"

definition lc_Len :: "'e LeastConn \<Rightarrow> int" where
  "lc_Len b = lc_size b"

definition lc_Register :: "'e \<Rightarrow> 'e LeastConn \<Rightarrow> 'e LeastConn" where
  "lc_Register e b = b\<lparr>lc_eloopList := lc_eloopList b @ [e], lc_size := lc_size b + 1\<rparr>"

fun least :: "('e \<Rightarrow> 32 word) \<Rightarrow> 'e \<Rightarrow> 'e list \<Rightarrow> 'e" where
  "least cnt m [] = m"
| "least cnt m (v # vs) = least cnt (if sint (cnt v) < sint (cnt m) then v else m) vs"

definition lc_Next :: "('e \<Rightarrow> 32 word) \<Rightarrow> 'e LeastConn \<Rightarrow> 'e go" where
  "lc_Next cnt b =
     go_bind (index_expr (lc_eloopList b) 0) (\<lambda>m. Ret (least cnt m (lc_eloopList b)))"

definition lc_Iterator :: "(nat \<Rightarrow> 'e \<Rightarrow> 's \<Rightarrow> bool \<times> 's) \<Rightarrow> 'e LeastConn \<Rightarrow> 's \<Rightarrow> 's" where
  "lc_Iterator f b s = iterate f 0 (lc_eloopList b) s"

definition lc_ok :: "'e LeastConn \<Rightarrow> bool" where
  "lc_ok b \<longleftrightarrow> lc_size b = int (length (lc_eloopList b))"

section \<open>The interface\<close>

locale balancer =
  fixes new :: 'b and register :: "'e \<Rightarrow> 'b \<Rightarrow> 'b" and next_loop :: "'b \<Rightarrow> ('e \<times> 'b) go"
    and size_of :: "'b \<Rightarrow> int" and iterator :: "(nat \<Rightarrow> 'e \<Rightarrow> 's \<Rightarrow> bool \<times> 's) \<Rightarrow> 'b \<Rightarrow> 's \<Rightarrow> 's"
    and loops :: "'b \<Rightarrow> 'e list" and ok :: "'b \<Rightarrow> bool"
  assumes new_ok: "ok new \<and> loops new = []"
    and register_ok: "ok b \<Longrightarrow> ok (register e b) \<and> loops (register e b) = loops b @ [e]"
    and next_ok: "ok b \<Longrightarrow> next_loop b = Ret (e, b') \<Longrightarrow> ok b' \<and> loops b' = loops b \<and> e \<in> set (loops b)"
    and size_ok: "ok b \<Longrightarrow> size_of b = int (length (loops b))"
    and iterator_ok: "iterator f b s = iterate f 0 (loops b) s"
begin

text \<open>What the engine does: register the loops one by one, then visit all of them.\<close>

lemma register_all: "ok b \<Longrightarrow> ok (fold register es b) \<and> loops (fold register es b) = loops b @ es"
  by (induction es arbitrary: b) (auto simp: register_ok)

lemma visits_all_registered:
  assumes "ok b" "loops b = []" "\<And>k e s. fst (f k e s)"
  shows "iterator f (fold register es b) s = fold (\<lambda>(k, e) s. snd (f k e s)) (enumerate 0 es) s"
  using register_all [OF assms(1), of es] assms(2) iterate_all [of f 0 es s] assms(3)
  by (simp add: iterator_ok)

lemma next_registered:
  "ok b \<Longrightarrow> loops b = [] \<Longrightarrow> next_loop (fold register es b) = Ret (e, b') \<Longrightarrow> e \<in> set es"
  using register_all [of b es] next_ok by fastforce

end

lemma rr_Next_ok: "rr_ok b \<Longrightarrow> rr_Next b = Ret (e, b') \<Longrightarrow>
    rr_ok b' \<and> rr_eloopList b' = rr_eloopList b \<and> e \<in> set (rr_eloopList b)"
  by (auto simp: rr_Next_def rr_ok_def index_expr_def Let_def go_bind_eq_Ret split: if_splits)

lemma rr_Register_ok:
  "rr_ok b \<Longrightarrow> rr_ok (rr_Register e b) \<and> rr_eloopList (rr_Register e b) = rr_eloopList b @ [e]"
  by (simp add: rr_Register_def rr_ok_def)

interpretation rr: balancer new_RoundRobin rr_Register rr_Next rr_Len rr_Iterator rr_eloopList rr_ok
proof
  show "rr_ok new_RoundRobin \<and> rr_eloopList new_RoundRobin = []"
    by (simp add: new_RoundRobin_def rr_ok_def)
next
  fix b :: "'a RoundRobin" and e
  assume "rr_ok b"
  then show "rr_ok (rr_Register e b) \<and> rr_eloopList (rr_Register e b) = rr_eloopList b @ [e]"
    by (rule rr_Register_ok)
next
  fix b b' :: "'a RoundRobin" and e
  assume "rr_ok b" "rr_Next b = Ret (e, b')"
  then show "rr_ok b' \<and> rr_eloopList b' = rr_eloopList b \<and> e \<in> set (rr_eloopList b)"
    by (rule rr_Next_ok)
next
  fix b :: "'a RoundRobin"
  assume "rr_ok b"
  then show "rr_Len b = int (length (rr_eloopList b))" by (simp add: rr_Len_def rr_ok_def)
next
  fix f and b :: "'a RoundRobin" and s :: 'b
  show "rr_Iterator f b s = iterate f 0 (rr_eloopList b) s" by (rule rr_Iterator_def)
qed

lemma least_mem: "least cnt m vs \<in> insert m (set vs)"
  by (induction cnt m vs rule: least.induct) auto

lemma least_le: "sint (cnt (least cnt m vs)) \<le> sint (cnt m) \<and>
    (\<forall>v \<in> set vs. sint (cnt (least cnt m vs)) \<le> sint (cnt v))"
  by (induction cnt m vs rule: least.induct) (auto split: if_splits)

definition lc_Next_st :: "('e \<Rightarrow> 32 word) \<Rightarrow> 'e LeastConn \<Rightarrow> ('e \<times> 'e LeastConn) go" where
  "lc_Next_st cnt b = go_bind (lc_Next cnt b) (\<lambda>e. Ret (e, b))"

lemma lc_Next_ok: "lc_Next_st cnt b = Ret (e, b') \<Longrightarrow> b' = b \<and> e \<in> set (lc_eloopList b)"
  using least_mem [of cnt "lc_eloopList b ! 0" "lc_eloopList b"]
  by (auto simp: lc_Next_st_def lc_Next_def go_bind_eq_Ret index_expr_def split: if_splits)

lemma lc_Register_ok:
  "lc_ok b \<Longrightarrow> lc_ok (lc_Register e b) \<and> lc_eloopList (lc_Register e b) = lc_eloopList b @ [e]"
  by (simp add: lc_Register_def lc_ok_def)

interpretation lc: balancer new_LeastConn lc_Register "lc_Next_st cnt" lc_Len lc_Iterator lc_eloopList lc_ok
  for cnt
proof
  show "lc_ok new_LeastConn \<and> lc_eloopList new_LeastConn = []"
    by (simp add: new_LeastConn_def lc_ok_def)
next
  fix b :: "'a LeastConn" and e
  assume "lc_ok b"
  then show "lc_ok (lc_Register e b) \<and> lc_eloopList (lc_Register e b) = lc_eloopList b @ [e]"
    by (rule lc_Register_ok)
next
  fix b b' :: "'a LeastConn" and e
  assume "lc_ok b" "lc_Next_st cnt b = Ret (e, b')"
  then show "lc_ok b' \<and> lc_eloopList b' = lc_eloopList b \<and> e \<in> set (lc_eloopList b)"
    using lc_Next_ok by metis
next
  fix b :: "'a LeastConn"
  assume "lc_ok b"
  then show "lc_Len b = int (length (lc_eloopList b))" by (simp add: lc_Len_def lc_ok_def)
next
  fix f and b :: "'a LeastConn" and s :: 'b
  show "lc_Iterator f b s = iterate f 0 (lc_eloopList b) s" by (rule lc_Iterator_def)
qed

section \<open>Properties\<close>

fun rr_Nexts :: "nat \<Rightarrow> 'e RoundRobin \<Rightarrow> ('e list \<times> 'e RoundRobin) go" where
  "rr_Nexts 0 b = Ret ([], b)"
| "rr_Nexts (Suc n) b =
     go_bind (rr_Next b) (\<lambda>(e, b'). go_bind (rr_Nexts n b') (\<lambda>(es, b''). Ret (e # es, b'')))"

lemma rr_Nexts_from:
  "i + n \<le> length es \<Longrightarrow>
   rr_Nexts n \<lparr>rr_eloopList = es, rr_size = int (length es), nextIndex = int i\<rparr> =
   Ret (take n (drop i es), \<lparr>rr_eloopList = es, rr_size = int (length es), nextIndex = int (i + n)\<rparr>)"
proof (induction n arbitrary: i)
  case (Suc n)
  then have "rr_Next \<lparr>rr_eloopList = es, rr_size = int (length es), nextIndex = int i\<rparr> =
      Ret (es ! i, \<lparr>rr_eloopList = es, rr_size = int (length es), nextIndex = int (Suc i)\<rparr>)"
    by (simp add: rr_Next_def)
  then show ?case using Suc.IH [of "Suc i"] Suc.prems by (simp add: drop_Suc_conv_tl)
qed simp

lemma rr_registered:
  "fold rr_Register es new_RoundRobin = \<lparr>rr_eloopList = es, rr_size = int (length es), nextIndex = 0\<rparr>"
proof -
  have "fold rr_Register es \<lparr>rr_eloopList = xs, rr_size = int (length xs), nextIndex = 0\<rparr> =
      \<lparr>rr_eloopList = xs @ es, rr_size = int (length (xs @ es)), nextIndex = 0\<rparr>" for xs
  proof (induction es arbitrary: xs)
    case (Cons e es)
    then show ?case using Cons.IH [of "xs @ [e]"] by (simp add: rr_Register_def add_ac)
  qed simp
  from this [of "[]"] show ?thesis by (simp add: new_RoundRobin_def)
qed

text \<open>
  Round robin does not go round. After any list of loops has been registered, the first
  calls of \<open>Next\<close> hand out the loops once each, in order, and the call after the last one panics
  with an index out of range: \<open>nextIndex\<close> is reset only when it exceeds \<open>size\<close>, one too late. So
  a server with \<open>N\<close> loops dies when it dispatches connection \<open>N + 1\<close>.
\<close>

lemma round_robin_panics_after_one_round:
  "\<exists>b. rr_Nexts (length es) (fold rr_Register es new_RoundRobin) = Ret (es, b) \<and> rr_Next b = Panic"
proof -
  let ?b = "\<lparr>rr_eloopList = es, rr_size = int (length es), nextIndex = int (length es)\<rparr>"
  have "rr_Nexts (length es) (fold rr_Register es new_RoundRobin) = Ret (es, ?b)"
    using rr_Nexts_from [of 0 "length es" es] by (simp add: rr_registered)
  moreover have "rr_Next ?b = Panic" by (simp add: rr_Next_def)
  ultimately show ?thesis by blast
qed

text \<open>
  Least connections returns a registered loop whose count is minimal (as \<open>int32\<close> values),
  the first such loop in registration order, and panics exactly when no loop is registered.
\<close>

lemma least_conn_minimal:
  "case lc_Next cnt b of
     Ret e \<Rightarrow> (\<exists>i < length (lc_eloopList b). e = lc_eloopList b ! i \<and>
       list_all (\<lambda>v. sint (cnt e) \<le> sint (cnt v)) (lc_eloopList b) \<and>
       list_all (\<lambda>v. sint (cnt e) < sint (cnt v)) (take i (lc_eloopList b)))
   | Panic \<Rightarrow> lc_eloopList b = []
   | Blocked \<Rightarrow> False"
proof (cases "lc_eloopList b")
  case Nil
  then show ?thesis by (simp add: lc_Next_def index_expr_def)
next
  case (Cons m vs)
  have first: "\<exists>i < length (us @ ws). least cnt x ws = (us @ ws) ! i \<and>
      (\<forall>v \<in> set (take i (us @ ws)). sint (cnt (least cnt x ws)) < sint (cnt v))"
    if "\<exists>j < length us. x = us ! j \<and> (\<forall>v \<in> set (take j us). sint (cnt x) < sint (cnt v)) \<and>
         (\<forall>v \<in> set us. sint (cnt x) \<le> sint (cnt v))" for us ws x
    using that
  proof (induction ws arbitrary: us x)
    case Nil
    then show ?case by auto
  next
    case (Cons w ws)
    let ?y = "if sint (cnt w) < sint (cnt x) then w else x"
    have "\<exists>j < length (us @ [w]). ?y = (us @ [w]) ! j \<and>
        (\<forall>v \<in> set (take j (us @ [w])). sint (cnt ?y) < sint (cnt v)) \<and>
        (\<forall>v \<in> set (us @ [w]). sint (cnt ?y) \<le> sint (cnt v))"
    proof (cases "sint (cnt w) < sint (cnt x)")
      case True
      then show ?thesis using Cons.prems by (intro exI [of _ "length us"]) fastforce
    next
      case False
      obtain j where "j < length us" "x = us ! j" "\<forall>v \<in> set (take j us). sint (cnt x) < sint (cnt v)"
          "\<forall>v \<in> set us. sint (cnt x) \<le> sint (cnt v)" using Cons.prems by blast
      then show ?thesis using False by (intro exI [of _ j]) (auto simp: nth_append)
    qed
    from Cons.IH [OF this] show ?case by simp
  qed
  have "least cnt m (lc_eloopList b) = least cnt m vs" by (simp add: Cons)
  then show ?thesis
    using first [of "[m]" m vs] least_le [of cnt m vs] Cons
    by (auto simp: lc_Next_def index_expr_def list_all_iff)
qed

end
