(* ===== verification/Sockets.thy ===== *)
theory Sockets
  imports Prelude
begin

text \<open>
  The socket package: \<open>socket/convert.go\<close>, which turns kernel addresses into \<open>net.Addr\<close> values and
  prints IPv6 zones, and \<open>socket/listener.go\<close>, the listener the engine polls.
\<close>

section \<open>Addresses\<close>

datatype sockaddr =
    SockaddrInet4 (sa4_addr: bytes) (sa4_port: int)
  | SockaddrInet6 (sa6_addr: bytes) (sa6_port: int) (sa6_zone: "32 word")
  | SockaddrUnix (sa_name: string)
  | OtherSockaddr

datatype netaddr =
    TCPAddr bytes int string       \<comment> \<open>IP, port, zone\<close>
  | UDPAddr bytes int string
  | UnixAddr string string         \<comment> \<open>name, net\<close>

definition ipv4InIPv6Prefix :: bytes where
  "ipv4InIPv6Prefix = replicate 10 (char_of (0::nat)) @ [char_of (255::nat), char_of (255::nat)]"

text \<open>
  Go's \<open>copy(dst[lo:hi], src)\<close> on a buffer: it copies as much as fits, and the slice expression
  panics when it leaves the buffer. \<open>buf\<close> stands for what \<open>bsPool.Get\<close> returned; its old contents
  are whatever the last user left there.
\<close>

definition copy_at :: "bytes \<Rightarrow> nat \<Rightarrow> nat \<Rightarrow> bytes \<Rightarrow> bytes go" where
  "copy_at buf lo hi src =
     (if lo \<le> hi \<and> hi \<le> length buf
      then Ret (let k = min (hi - lo) (length src) in take lo buf @ take k src @ drop (lo + k) buf)
      else Panic)"

definition sockaddrInet4ToIP :: "bytes \<Rightarrow> bytes \<Rightarrow> bytes go" where
  "sockaddrInet4ToIP buf addr =
     go_bind (copy_at buf 0 12 ipv4InIPv6Prefix) (\<lambda>ip. copy_at ip 12 16 addr)"

text \<open>\<open>int2decimal\<close>: the digits are written from the end of a pooled buffer of 32 bytes.\<close>

fun int2decimal_loop :: "bytes \<Rightarrow> nat \<Rightarrow> 64 word \<Rightarrow> (bytes \<times> nat) go" where
  "int2decimal_loop b bp i =
     (if i = 0 then Ret (b, bp)
      else (case bp of
              0 \<Rightarrow> Panic
            | Suc k \<Rightarrow>
                if k < length b
                then int2decimal_loop (b[k := char_of (unat (i mod 10) + 48)]) k (i div 10)
                else Panic))"

declare int2decimal_loop.simps [simp del]

definition int2decimal :: "bytes \<Rightarrow> 64 word \<Rightarrow> string go" where
  "int2decimal buf i =
     (if i = 0 then Ret ''0''
      else go_bind (int2decimal_loop buf (length buf) i) (\<lambda>(b, bp). Ret (drop bp b)))"

text \<open>\<open>ifname\<close> is \<open>net.InterfaceByIndex\<close>: the name of a network interface, if it exists.\<close>

definition ip6ZoneToString :: "(int \<Rightarrow> string option) \<Rightarrow> bytes \<Rightarrow> int \<Rightarrow> string go" where
  "ip6ZoneToString ifname buf zone =
     (if zone = 0 then Ret []
      else (case ifname zone of Some name \<Rightarrow> Ret name | None \<Rightarrow> int2decimal buf (word_of_int zone)))"

definition sockaddrInet6ToIPAndZone ::
  "(int \<Rightarrow> string option) \<Rightarrow> bytes \<Rightarrow> bytes \<Rightarrow> bytes \<Rightarrow> 32 word \<Rightarrow> (bytes \<times> string) go" where
  "sockaddrInet6ToIPAndZone ifname buf buf32 addr zone =
     go_bind (copy_at buf 0 (length buf) addr) (\<lambda>ip.
       go_bind (ip6ZoneToString ifname buf32 (uint zone)) (\<lambda>z. Ret (ip, z)))"

fun SockaddrToTCPOrUnixAddr ::
  "(int \<Rightarrow> string option) \<Rightarrow> bytes \<Rightarrow> bytes \<Rightarrow> sockaddr \<Rightarrow> netaddr option go" where
  "SockaddrToTCPOrUnixAddr ifname buf buf32 (SockaddrInet4 addr port) =
     go_bind (sockaddrInet4ToIP buf addr) (\<lambda>ip. Ret (Some (TCPAddr ip port [])))"
| "SockaddrToTCPOrUnixAddr ifname buf buf32 (SockaddrInet6 addr port zone) =
     go_bind (sockaddrInet6ToIPAndZone ifname buf buf32 addr zone)
       (\<lambda>(ip, z). Ret (Some (TCPAddr ip port z)))"
| "SockaddrToTCPOrUnixAddr ifname buf buf32 (SockaddrUnix name) = Ret (Some (UnixAddr name ''unix''))"
| "SockaddrToTCPOrUnixAddr ifname buf buf32 OtherSockaddr = Ret None"

fun SockaddrToUDPAddr ::
  "(int \<Rightarrow> string option) \<Rightarrow> bytes \<Rightarrow> bytes \<Rightarrow> sockaddr \<Rightarrow> netaddr option go" where
  "SockaddrToUDPAddr ifname buf buf32 (SockaddrInet4 addr port) =
     go_bind (sockaddrInet4ToIP buf addr) (\<lambda>ip. Ret (Some (UDPAddr ip port [])))"
| "SockaddrToUDPAddr ifname buf buf32 (SockaddrInet6 addr port zone) =
     go_bind (sockaddrInet6ToIPAndZone ifname buf buf32 addr zone)
       (\<lambda>(ip, z). Ret (Some (UDPAddr ip port z)))"
| "SockaddrToUDPAddr ifname buf buf32 sa = Ret None"

subsection \<open>Decimal digits\<close>

fun digits :: "nat \<Rightarrow> string" where
  "digits n = (if n = 0 then [] else digits (n div 10) @ [char_of (n mod 10 + 48)])"

declare digits.simps [simp del]

definition decimal_value :: "string \<Rightarrow> nat" where
  "decimal_value s = foldl (\<lambda>a c. 10 * a + (of_char c - 48)) 0 s"

definition is_digit :: "char \<Rightarrow> bool" where
  "is_digit c \<longleftrightarrow> 48 \<le> (of_char c :: nat) \<and> (of_char c :: nat) \<le> 57"

lemma of_char_digit: "d < 10 \<Longrightarrow> of_char (char_of (d + 48) :: char) = (d + 48 :: nat)"
  by (simp add: of_char_of)

lemma digits_value: "decimal_value (digits n) = n"
proof (induction n rule: digits.induct)
  case (1 n)
  show ?case
  proof (cases "n = 0")
    case False
    then have "decimal_value (digits n) = 10 * decimal_value (digits (n div 10)) + n mod 10"
      by (subst digits.simps) (simp add: decimal_value_def of_char_digit)
    then show ?thesis using 1 False by simp
  qed (simp add: digits.simps decimal_value_def)
qed

lemma digits_digit: "list_all is_digit (digits n)"
proof (induction n rule: digits.induct)
  case (1 n)
  show ?case
  proof (cases "n = 0")
    case False
    have "is_digit (char_of (n mod 10 + 48))" by (simp add: is_digit_def of_char_digit)
    then show ?thesis using 1 False by (subst digits.simps) simp
  qed (simp add: digits.simps)
qed

lemma digits_lead: "0 < n \<Longrightarrow> digits n \<noteq> [] \<and> hd (digits n) \<noteq> CHR ''0''"
proof (induction n rule: digits.induct)
  case (1 n)
  show ?case
  proof (cases "n < 10")
    case True
    have "char_of (n + 48) \<noteq> CHR ''0''"
    proof
      assume "char_of (n + 48) = CHR ''0''"
      then have "of_char (char_of (n + 48) :: char) = (of_char (CHR ''0'') :: nat)" by simp
      then show False using True "1.prems" by (simp add: of_char_digit)
    qed
    then show ?thesis using True "1.prems" by (simp add: digits.simps [of n] digits.simps [of 0])
  next
    case False
    then show ?thesis using 1 by (simp add: digits.simps [of n])
  qed
qed

lemma int2decimal_loop_digits:
  "unat i < 10 ^ bp \<Longrightarrow> bp \<le> length b \<Longrightarrow>
   \<exists>b' bp'. int2decimal_loop b bp i = Ret (b', bp') \<and> drop bp' b' = digits (unat i) @ drop bp b"
proof (induction b bp i rule: int2decimal_loop.induct)
  case (1 b bp i)
  show ?case
  proof (cases "i = 0")
    case True
    then show ?thesis by (simp add: int2decimal_loop.simps digits.simps)
  next
    case False
    then obtain k where k: "bp = Suc k"
      using "1.prems"(1) by (cases bp) (auto simp: unat_eq_zero)
    let ?c = "char_of (unat (i mod 10) + 48)"
    have "unat (i div 10) < 10 ^ k" using "1.prems"(1) k
      by (simp add: unat_div_distrib less_mult_imp_div_less mult.commute)
    then obtain b' bp' where r: "int2decimal_loop (b[k := ?c]) k (i div 10) = Ret (b', bp')"
        "drop bp' b' = digits (unat (i div 10)) @ drop k (b[k := ?c])"
      using "1.IH" [OF False k] "1.prems"(2) k by auto
    have "drop k (b[k := ?c]) = ?c # drop (Suc k) b"
      using "1.prems"(2) k by (simp add: drop_Suc_conv_tl)
    moreover have "digits (unat i) = digits (unat (i div 10)) @ [?c]"
      using False by (subst digits.simps) (simp add: unat_eq_zero unat_div_distrib unat_mod_distrib)
    ultimately show ?thesis
      using r False k "1.prems"(2) by (subst int2decimal_loop.simps) simp
  qed
qed

lemma unat_widen: "unat (word_of_int (uint z) :: 64 word) = unat z" for z :: "32 word"
proof -
  have "uint z < 2 ^ 32" using unsigned_less [of z, where ?'a = int] by simp
  then have "uint z mod 2 ^ LENGTH(64) = uint z" by (intro mod_pos_pos_trivial) simp_all
  then show ?thesis by (simp only: unat_eq_nat_uint uint_word_of_int)
qed

lemma int2decimal_eq:
  assumes "length buf = 32" "i \<noteq> 0"
  shows "int2decimal buf i = Ret (digits (unat i))"
proof -
  have "unat i < 10 ^ 32" using unsigned_less [of i, where ?'a = nat] by simp
  then show ?thesis
    using int2decimal_loop_digits [of i "length buf" buf] assms by (auto simp: int2decimal_def)
qed

text \<open>
  Printing a zone number: for every 64-bit value and every contents of the pooled buffer the
  32 bytes are enough (no index leaves the buffer) and the result is the decimal numeral of the
  value, digits only, without leading zeros.
\<close>

lemma int2decimal_correct:
  assumes "length buf = 32"
  shows "\<exists>s. int2decimal buf i = Ret s \<and> decimal_value s = unat i \<and> list_all is_digit s \<and>
           (s = ''0'' \<or> hd s \<noteq> CHR ''0'') \<and> s \<noteq> []"
proof (cases "i = 0")
  case True
  then show ?thesis
    by (intro exI [of _ "''0''"]) (simp add: int2decimal_def decimal_value_def is_digit_def)
next
  case False
  then show ?thesis
    using int2decimal_eq [OF assms False] digits_value digits_digit digits_lead [of "unat i"]
    by (auto simp: unat_gt_0)
qed

theorem int2decimal_correct_witness:
  "\<exists>s. int2decimal (replicate 32 CHR ''x'') 18446744073709551615 = Ret s \<and>
     decimal_value s = 18446744073709551615"
  using int2decimal_correct [of "replicate 32 CHR ''x''" 18446744073709551615] by auto

text \<open>
  The IP of an accepted connection never shows a stale byte of the pooled buffer: for an IPv4
  peer it is the 12-byte prefix followed by the four address bytes, for an IPv6 peer the sixteen
  address bytes, whatever the buffer held, and the conversion never panics.
\<close>

lemma accepted_ip_is_peer_ip:
  assumes "length buf = 16" and "length buf32 = 32"
    and "case sa of SockaddrInet4 a p \<Rightarrow> length a = 4 | SockaddrInet6 a p z \<Rightarrow> length a = 16 | _ \<Rightarrow> True"
  shows "SockaddrToTCPOrUnixAddr ifname buf buf32 sa =
    (case sa of
       SockaddrInet4 a p \<Rightarrow> Ret (Some (TCPAddr (ipv4InIPv6Prefix @ a) p []))
     | SockaddrInet6 a p z \<Rightarrow> Ret (Some (TCPAddr a p
         (if z = 0 then [] else case ifname (uint z) of Some n \<Rightarrow> n | None \<Rightarrow> digits (unat z))))
     | SockaddrUnix n \<Rightarrow> Ret (Some (UnixAddr n ''unix''))
     | OtherSockaddr \<Rightarrow> Ret None)"
proof (cases sa)
  case (SockaddrInet4 a p)
  then show ?thesis using assms
    by (simp add: sockaddrInet4ToIP_def copy_at_def ipv4InIPv6Prefix_def)
next
  case (SockaddrInet6 a p z)
  have copy: "copy_at buf 0 (length buf) a = Ret a"
    using assms SockaddrInet6 by (simp add: copy_at_def)
  have "ip6ZoneToString ifname buf32 (uint z) =
      Ret (if z = 0 then [] else case ifname (uint z) of Some n \<Rightarrow> n | None \<Rightarrow> digits (unat z))"
  proof (cases "z = 0 \<or> ifname (uint z) \<noteq> None")
    case True
    then show ?thesis by (auto simp: ip6ZoneToString_def uint_0_iff)
  next
    case False
    have u: "unat (word_of_int (uint z) :: 64 word) = unat z" by (rule unat_widen)
    then have "(word_of_int (uint z) :: 64 word) \<noteq> 0" using False by (metis unat_0 unat_eq_zero)
    then show ?thesis using False int2decimal_eq [OF assms(2)] u
      by (simp add: ip6ZoneToString_def uint_0_iff)
  qed
  then show ?thesis using copy SockaddrInet6 by (simp add: sockaddrInet6ToIPAndZone_def)
qed simp_all

theorem accepted_ip_is_peer_ip_witness:
  "SockaddrToTCPOrUnixAddr (\<lambda>_. None) (replicate 16 CHR ''x'') (replicate 32 CHR ''y'')
     (SockaddrInet6 (replicate 16 CHR ''z'') 80 42) =
   Ret (Some (TCPAddr (replicate 16 CHR ''z'') 80 ''42''))"
proof -
  have "digits 42 = ''42''" by code_simp
  then show ?thesis
    using accepted_ip_is_peer_ip [of "replicate 16 CHR ''x''" "replicate 32 CHR ''y''"
      "SockaddrInet6 (replicate 16 CHR ''z'') 80 42" "\<lambda>_. None"] by simp
qed

section \<open>The listener\<close>

text \<open>
  An \<open>os.File\<close> of the standard library: \<open>Fd\<close> of a closed file is \<open>-1\<close> and closing it again is an
  error.
\<close>

record osfile =
  fnum :: int
  fclosed :: bool

definition file_Fd :: "osfile \<Rightarrow> int" where
  "file_Fd f = (if fclosed f then -1 else fnum f)"

definition file_Close :: "osfile \<Rightarrow> nerror \<times> osfile" where
  "file_Close f = (if fclosed f then (Some (NewError ''file already closed''), f) else (None, f\<lparr>fclosed := True\<rparr>))"

record GkListener =
  gl_fd :: int
  gl_file :: "osfile option"
  gl_addr :: "netaddr option"
  gl_isUDP :: bool

definition listener_Accept :: "GkListener \<Rightarrow> nerror" where
  "listener_Accept l = Some (NewError ''Accept not implemented for GkListener!'')"

definition listener_GetFd :: "GkListener \<Rightarrow> int \<times> GkListener" where
  "listener_GetFd l =
     (case gl_file l of
        Some f \<Rightarrow> if gl_fd l < 0 then (file_Fd f, l\<lparr>gl_fd := file_Fd f\<rparr>) else (gl_fd l, l)
      | None \<Rightarrow> (gl_fd l, l))"

text \<open>\<open>Close\<close> of a listener without a file would dereference nil inside \<open>os.File.Close\<close>, which returns
  an error for a nil file.\<close>

definition listener_Close :: "GkListener \<Rightarrow> nerror \<times> GkListener" where
  "listener_Close l =
     (case gl_file l of
        None \<Rightarrow> (Some EINVAL, l)
      | Some f \<Rightarrow> (case file_Close f of
          (Some e, f') \<Rightarrow> (Some e, l\<lparr>gl_file := Some f'\<rparr>)
        | (None, f') \<Rightarrow> (None, l\<lparr>gl_file := Some f', gl_fd := -1, gl_addr := None\<rparr>)))"

text \<open>
  What the engine is given: a listener of the standard library with its address and the result
  of its \<open>File\<close> method, or something else.
\<close>

datatype netlistener =
    TCPListener "netaddr option" "error + osfile"
  | UnixListener "netaddr option" "error + osfile"
  | UDPConn "netaddr option" "error + osfile"
  | OtherListener "netaddr option"

fun ResolveFile :: "netlistener \<Rightarrow> error + osfile" where
  "ResolveFile (TCPListener a r) = r"
| "ResolveFile (UnixListener a r) = r"
| "ResolveFile (UDPConn a r) = r"
| "ResolveFile (OtherListener a) = Inl (NewError ''Unsupported listener!'')"

fun ln_Addr :: "netlistener \<Rightarrow> netaddr option" where
  "ln_Addr (TCPListener a r) = a"
| "ln_Addr (UnixListener a r) = a"
| "ln_Addr (UDPConn a r) = a"
| "ln_Addr (OtherListener a) = a"

definition new_listener :: "osfile \<Rightarrow> netaddr option \<Rightarrow> bool \<Rightarrow> GkListener" where
  "new_listener f a udp = \<lparr>gl_fd = -1, gl_file = Some f, gl_addr = a, gl_isUDP = udp\<rparr>"

definition AdaptListener :: "netlistener \<Rightarrow> error + GkListener" where
  "AdaptListener l =
     (case ResolveFile l of Inl e \<Rightarrow> Inl e | Inr f \<Rightarrow> Inr (new_listener f (ln_Addr l) False))"

definition AdaptUDPConn :: "netlistener \<Rightarrow> error + GkListener" where
  "AdaptUDPConn l =
     (case ResolveFile l of Inl e \<Rightarrow> Inl e | Inr f \<Rightarrow> Inr (new_listener f (ln_Addr l) True))"

fun is_prefix :: "string \<Rightarrow> string \<Rightarrow> bool" where
  "is_prefix [] s = True"
| "is_prefix (c # cs) [] = False"
| "is_prefix (c # cs) (d # ds) = (c = d \<and> is_prefix cs ds)"

fun str_contains :: "string \<Rightarrow> string \<Rightarrow> bool" where
  "str_contains [] p = is_prefix p []"
| "str_contains (c # cs) p = (is_prefix p (c # cs) \<or> str_contains cs p)"

text \<open>\<open>resolve\<close>, \<open>listenUDP\<close> and \<open>listen\<close> are the calls into package \<open>net\<close>.\<close>

definition Listen ::
  "(string \<Rightarrow> string \<Rightarrow> error + 'u) \<Rightarrow> (string \<Rightarrow> 'u \<Rightarrow> error + netlistener) \<Rightarrow>
   (string \<Rightarrow> string \<Rightarrow> error + netlistener) \<Rightarrow> string \<Rightarrow> string \<Rightarrow> error + GkListener" where
  "Listen resolve listenUDP listen network address =
     (if str_contains network ''udp''
      then (case resolve network address of
              Inl e \<Rightarrow> Inl e
            | Inr addr \<Rightarrow> (case listenUDP network addr of
                Inl e \<Rightarrow> Inl e
              | Inr l \<Rightarrow> (case ResolveFile l of
                  Inl e \<Rightarrow> Inl e
                | Inr f \<Rightarrow> Inr (new_listener f (ln_Addr l) True))))
      else (case listen network address of
              Inl e \<Rightarrow> Inl e
            | Inr l \<Rightarrow> (case ResolveFile l of
                Inl e \<Rightarrow> Inl e
              | Inr f \<Rightarrow> Inr (new_listener f (ln_Addr l) False))))"

text \<open>
  The descriptor of a listener: a listener that \<open>Listen\<close> or an adapter made on an open file
  reports the file's descriptor from its first \<open>GetFd\<close> on, every further \<open>GetFd\<close> reports the same
  and changes nothing, and after \<open>Close\<close> it reports \<open>-1\<close> and a second \<open>Close\<close> is an error.
\<close>

lemma listener_fd_lifecycle:
  assumes "\<not> fclosed f" and "0 \<le> fnum f"
  shows "case listener_GetFd (new_listener f a u) of (fd, l1) \<Rightarrow>
     fd = fnum f \<and> listener_GetFd l1 = (fnum f, l1) \<and>
     (case listener_Close l1 of (e, l2) \<Rightarrow>
        e = None \<and> fst (listener_GetFd l2) = -1 \<and> fst (listener_Close l2) \<noteq> None)"
  using assms
  by (auto simp: listener_GetFd_def new_listener_def file_Fd_def listener_Close_def file_Close_def)

theorem listener_fd_lifecycle_witness:
  "fst (listener_GetFd (new_listener \<lparr>fnum = 7, fclosed = False\<rparr> None False)) = 7"
  using listener_fd_lifecycle [of "\<lparr>fnum = 7, fclosed = False\<rparr>" None False]
  by (auto split: prod.splits)

end
