(* ===== verification/SysCalls.thy ===== *)
theory SysCalls
  imports Prelude
begin

text \<open>
  Package sys: the system calls of \<open>sys/sys.go\<close>, \<open>sys/sys_utils.go\<close> and \<open>sys/sys_poll_linux.go\<close>,
  the event masks of the two platforms and the dispatch of an event to a connection. The kernel
  is a record of functions on its own state \<open>'k\<close>; what the code relies on is the predicate
  \<open>posix\<close>.
\<close>

unbundle bit_operations_syntax

section \<open>The kernel\<close>

datatype ctl = CTL_ADD | CTL_MOD | CTL_DEL

datatype sockopt = SO_KEEPALIVE | TCP_KEEPINTVL | TCP_KEEPIDLE | SO_REUSEPORT | SO_REUSEADDR | SO_RCVBUF | SO_SNDBUF

text \<open>The vectors of \<open>writev\<close> and \<open>readv\<close>; \<open>bytes2iovec\<close> keeps the chunks in order, the empty ones included.\<close>

record iovec =
  Base :: bytes
  Len :: nat

definition bytes2iovec :: "bytes list \<Rightarrow> iovec list" where
  "bytes2iovec bs = map (\<lambda>b. \<lparr>Base = b, Len = length b\<rparr>) bs"

text \<open>
  The two vector calls go through \<open>syscall.Syscall\<close> and give a raw error number. A read fills the
  buffers of a vector and is the list of their new contents.
\<close>

record ('k, 'sa) kernel =
  k_epoll_ctl :: "int \<Rightarrow> ctl \<Rightarrow> int \<Rightarrow> 32 word \<Rightarrow> 'k \<Rightarrow> nerror \<times> 'k"
  k_write :: "int \<Rightarrow> bytes \<Rightarrow> 'k \<Rightarrow> (int \<times> nerror) \<times> 'k"
  k_writev :: "int \<Rightarrow> iovec list \<Rightarrow> 'k \<Rightarrow> (int \<times> nat) \<times> 'k"
  k_readv :: "int \<Rightarrow> iovec list \<Rightarrow> 'k \<Rightarrow> (int \<times> bytes list \<times> nat) \<times> 'k"
  k_read :: "int \<Rightarrow> nat \<Rightarrow> 'k \<Rightarrow> (bytes \<times> nerror) \<times> 'k"
  k_sendto :: "int \<Rightarrow> bytes \<Rightarrow> 'sa option \<Rightarrow> 'k \<Rightarrow> nerror \<times> 'k"
  k_close :: "int \<Rightarrow> 'k \<Rightarrow> nerror \<times> 'k"
  k_setsockopt :: "int \<Rightarrow> sockopt \<Rightarrow> int \<Rightarrow> 'k \<Rightarrow> nerror \<times> 'k"
  k_accept4 :: "int \<Rightarrow> 'k \<Rightarrow> (int \<times> 'sa option \<times> nerror) \<times> 'k"
  k_accept :: "int \<Rightarrow> 'k \<Rightarrow> (int \<times> 'sa option \<times> nerror) \<times> 'k"
  k_set_nonblock :: "int \<Rightarrow> 'k \<Rightarrow> nerror \<times> 'k"
  k_epoll_create :: "'k \<Rightarrow> (int \<times> nerror) \<times> 'k"
  k_eventfd :: "'k \<Rightarrow> (int \<times> nerror) \<times> 'k"

section \<open>Errno\<close>

text \<open>\<open>errnoErr\<close>: 0 is nil, the common numbers are the package's constants.\<close>

definition errnoErr :: "nat \<Rightarrow> nerror" where
  "errnoErr e =
     (if e = 0 then None else if e = 11 then Some EAGAIN else if e = 22 then Some EINVAL
      else if e = 2 then Some ENOENT else Some (Errno e))"

lemma errnoErr_simps [simp]: "errnoErr 0 = None" "errnoErr 11 = Some EAGAIN"
  by (simp_all add: errnoErr_def)

lemma bytes2iovec_data [simp]: "concat (map Base (bytes2iovec bs)) = concat bs"
  by (induction bs) (simp_all add: bytes2iovec_def)

section \<open>Thin wrappers\<close>

definition CloseFd :: "('k, 'sa) kernel \<Rightarrow> int \<Rightarrow> 'k \<Rightarrow> nerror \<times> 'k" where
  "CloseFd K fd k = (case k_close K fd k of (e, k') \<Rightarrow> (SysError ''fd_close'' e, k'))"

definition Read :: "('k, 'sa) kernel \<Rightarrow> int \<Rightarrow> nat \<Rightarrow> 'k \<Rightarrow> (bytes \<times> nerror) \<times> 'k" where
  "Read K fd n k = (if fd = 0 then (([], None), k) else k_read K fd n k)"

definition Write :: "('k, 'sa) kernel \<Rightarrow> int \<Rightarrow> bytes \<Rightarrow> 'k \<Rightarrow> (int \<times> nerror) \<times> 'k" where
  "Write K fd p k = k_write K fd p k"

definition Writev :: "('k, 'sa) kernel \<Rightarrow> int \<Rightarrow> bytes list \<Rightarrow> 'k \<Rightarrow> (int \<times> nerror) \<times> 'k" where
  "Writev K fd iovs k = (case k_writev K fd (bytes2iovec iovs) k of ((n, e1), k') \<Rightarrow> ((n, errnoErr e1), k'))"

definition Readv :: "('k, 'sa) kernel \<Rightarrow> int \<Rightarrow> bytes list \<Rightarrow> 'k \<Rightarrow> (int \<times> bytes list \<times> nerror) \<times> 'k" where
  "Readv K fd iovs k = (case k_readv K fd (bytes2iovec iovs) k of ((n, ds, e1), k') \<Rightarrow> ((n, ds, errnoErr e1), k'))"

definition WriteUdp :: "('k, 'sa) kernel \<Rightarrow> int \<Rightarrow> bytes \<Rightarrow> 'sa option \<Rightarrow> 'k \<Rightarrow> nerror \<times> 'k" where
  "WriteUdp K fd p to k = k_sendto K fd p to k"

text \<open>
  What POSIX and \<open>epoll\<close> promise about writing: a call that succeeds has taken a prefix of the data
  (\<open>sent\<close> is what the kernel has accepted for a descriptor so far), a call that fails returns \<open>-1\<close>
  and has taken nothing; interest list calls, \<open>setsockopt\<close> and \<open>close\<close> send nothing.
\<close>

definition posix_write ::
  "('k \<Rightarrow> int \<Rightarrow> bytes) \<Rightarrow> int \<Rightarrow> bytes \<Rightarrow> 'k \<Rightarrow> (int \<times> nerror) \<times> 'k \<Rightarrow> bool" where
  "posix_write sent fd data k r \<longleftrightarrow>
     (case r of ((n, e), k') \<Rightarrow>
        (\<forall>fd'. fd' \<noteq> fd \<longrightarrow> sent k' fd' = sent k fd') \<and>
        (case e of None \<Rightarrow> 0 \<le> n \<and> n \<le> int (length data) \<and> sent k' fd = sent k fd @ take (nat n) data
                 | Some _ \<Rightarrow> n = -1 \<and> sent k' fd = sent k fd))"

definition posix :: "('k, 'sa) kernel \<Rightarrow> ('k \<Rightarrow> int \<Rightarrow> bytes) \<Rightarrow> bool" where
  "posix K sent \<longleftrightarrow>
     (\<forall>fd data k. posix_write sent fd data k (k_write K fd data k)) \<and>
     (\<forall>fd iovs k. posix_write sent fd (concat iovs) k (Writev K fd iovs k)) \<and>
     (\<forall>pfd c fd ev k. sent (snd (k_epoll_ctl K pfd c fd ev k)) = sent k) \<and>
     (\<forall>fd n k. sent (snd (k_read K fd n k)) = sent k) \<and>
     (\<forall>fd k. sent (snd (k_close K fd k)) = sent k)"

definition DefaultTCPKeepAlive :: int where
  "DefaultTCPKeepAlive = 15"

text \<open>
  \<open>transKeepAlive\<close>: durations are nanoseconds, and the division truncates towards zero. \<open>None\<close> is
  a call without the optional argument.
\<close>

definition transKeepAlive :: "int option \<Rightarrow> int" where
  "transKeepAlive t =
     (case t of None \<Rightarrow> DefaultTCPKeepAlive
      | Some d \<Rightarrow> (let secs = sgn d * (\<bar>d\<bar> div 1000000000) in
          if secs \<ge> 1 then secs else DefaultTCPKeepAlive))"

definition SetKeepAlive :: "('k, 'sa) kernel \<Rightarrow> int \<Rightarrow> int option \<Rightarrow> 'k \<Rightarrow> nerror \<times> 'k" where
  "SetKeepAlive K fd timeout k =
     (let secs = transKeepAlive timeout in
      case k_setsockopt K fd SO_KEEPALIVE 1 k of
        (Some e, k1) \<Rightarrow> (SysError ''setsockopt'' (Some e), k1)
      | (None, k1) \<Rightarrow> (case k_setsockopt K fd TCP_KEEPINTVL secs k1 of
          (Some e, k2) \<Rightarrow> (SysError ''setsockopt'' (Some e), k2)
        | (None, k2) \<Rightarrow> (case k_setsockopt K fd TCP_KEEPIDLE secs k2 of
            (e, k3) \<Rightarrow> (SysError ''setsockopt'' e, k3))))"

definition SetReusePort :: "('k, 'sa) kernel \<Rightarrow> int \<Rightarrow> 'k \<Rightarrow> nerror \<times> 'k" where
  "SetReusePort K fd k = (case k_setsockopt K fd SO_REUSEPORT 1 k of (e, k') \<Rightarrow> (SysError ''setsockopt'' e, k'))"

definition SetReuseAddr :: "('k, 'sa) kernel \<Rightarrow> int \<Rightarrow> 'k \<Rightarrow> nerror \<times> 'k" where
  "SetReuseAddr K fd k = (case k_setsockopt K fd SO_REUSEADDR 1 k of (e, k') \<Rightarrow> (SysError ''setsockopt'' e, k'))"

definition SetRecvBufferSize :: "('k, 'sa) kernel \<Rightarrow> int \<Rightarrow> int \<Rightarrow> 'k \<Rightarrow> nerror \<times> 'k" where
  "SetRecvBufferSize K fd sz k = (case k_setsockopt K fd SO_RCVBUF sz k of (e, k') \<Rightarrow> (SysError ''setsockopt'' e, k'))"

definition SetSendBufferSize :: "('k, 'sa) kernel \<Rightarrow> int \<Rightarrow> int \<Rightarrow> 'k \<Rightarrow> nerror \<times> 'k" where
  "SetSendBufferSize K fd sz k = (case k_setsockopt K fd SO_SNDBUF sz k of (e, k') \<Rightarrow> (SysError ''setsockopt'' e, k'))"

text \<open>
  \<open>Accept\<close> on Linux: \<open>accept4\<close> first; the four errors with an empty case fall out of the switch to
  the plain \<open>accept\<close>. The keep-alive options are set on that second path only.
\<close>

definition accept_falls_back :: "error \<Rightarrow> bool" where
  "accept_falls_back e \<longleftrightarrow> e \<in> {Errno 38, EINVAL, Errno 13, Errno 14}"

definition Accept :: "('k, 'sa) kernel \<Rightarrow> int \<Rightarrow> int option \<Rightarrow> 'k \<Rightarrow> (int \<times> 'sa option \<times> nerror) \<times> 'k" where
  "Accept K lfd timeout k =
     (case k_accept4 K lfd k of
        ((nfd, sa, None), k1) \<Rightarrow> ((nfd, sa, None), k1)
      | ((nfd, sa, Some e), k1) \<Rightarrow>
          if \<not> accept_falls_back e then ((-1, None, Some e), k1)
          else (case k_accept K lfd k1 of
                  ((nfd, sa, Some e), k2) \<Rightarrow> ((-1, None, Some e), k2)
                | ((nfd, sa, None), k2) \<Rightarrow>
                    (case k_set_nonblock K nfd k2 of
                       (Some e, k3) \<Rightarrow> ((-1, None, Some e), snd (k_close K nfd k3))
                     | (None, k3) \<Rightarrow> ((nfd, sa, None), snd (SetKeepAlive K nfd timeout k3)))))"

section \<open>The interest list (Linux)\<close>

definition ReadEvents :: "32 word" where "ReadEvents = 0x2 OR 0x1"
definition WriteEvents :: "32 word" where "WriteEvents = 0x4"
definition ReadWriteEvents :: "32 word" where "ReadWriteEvents = ReadEvents OR WriteEvents"

fun eSysName :: "ctl \<Rightarrow> string" where
  "eSysName CTL_ADD = ''epoll_ctl_add''"
| "eSysName CTL_MOD = ''epoll_ctl_mod''"
| "eSysName CTL_DEL = ''epoll_ctl_del''"

definition epollFdHandler :: "('k, 'sa) kernel \<Rightarrow> int \<Rightarrow> int \<Rightarrow> ctl \<Rightarrow> 32 word \<Rightarrow> 'k \<Rightarrow> nerror \<times> 'k" where
  "epollFdHandler K pollFd fd action evs k =
     (case k_epoll_ctl K pollFd action fd (if action \<noteq> CTL_DEL then evs else 0) k of
        (e, k') \<Rightarrow> (SysError (eSysName action) e, k'))"

definition AddReadWrite :: "('k, 'sa) kernel \<Rightarrow> int \<Rightarrow> int \<Rightarrow> 'k \<Rightarrow> nerror \<times> 'k" where
  "AddReadWrite K pollFd fd = epollFdHandler K pollFd fd CTL_ADD ReadWriteEvents"
definition AddRead :: "('k, 'sa) kernel \<Rightarrow> int \<Rightarrow> int \<Rightarrow> 'k \<Rightarrow> nerror \<times> 'k" where
  "AddRead K pollFd fd = epollFdHandler K pollFd fd CTL_ADD ReadEvents"
definition AddWrite :: "('k, 'sa) kernel \<Rightarrow> int \<Rightarrow> int \<Rightarrow> 'k \<Rightarrow> nerror \<times> 'k" where
  "AddWrite K pollFd fd = epollFdHandler K pollFd fd CTL_ADD WriteEvents"
definition ModRead :: "('k, 'sa) kernel \<Rightarrow> int \<Rightarrow> int \<Rightarrow> 'k \<Rightarrow> nerror \<times> 'k" where
  "ModRead K pollFd fd = epollFdHandler K pollFd fd CTL_MOD ReadEvents"
definition ModWrite :: "('k, 'sa) kernel \<Rightarrow> int \<Rightarrow> int \<Rightarrow> 'k \<Rightarrow> nerror \<times> 'k" where
  "ModWrite K pollFd fd = epollFdHandler K pollFd fd CTL_MOD WriteEvents"
definition ModReadWrite :: "('k, 'sa) kernel \<Rightarrow> int \<Rightarrow> int \<Rightarrow> 'k \<Rightarrow> nerror \<times> 'k" where
  "ModReadWrite K pollFd fd = epollFdHandler K pollFd fd CTL_MOD ReadWriteEvents"
definition UnRegister :: "('k, 'sa) kernel \<Rightarrow> int \<Rightarrow> int \<Rightarrow> 'k \<Rightarrow> nerror \<times> 'k" where
  "UnRegister K pollFd fd = epollFdHandler K pollFd fd CTL_DEL 0"

lemmas interest_defs = AddReadWrite_def AddRead_def AddWrite_def ModRead_def ModWrite_def
  ModReadWrite_def UnRegister_def epollFdHandler_def

text \<open>\<open>CreatePoll\<close>: on an error every descriptor made so far is closed again.\<close>

definition CreatePoll :: "('k, 'sa) kernel \<Rightarrow> 'k \<Rightarrow> (int \<times> int \<times> nerror) \<times> 'k" where
  "CreatePoll K k =
     (case k_epoll_create K k of
        ((pfd, Some e), k1) \<Rightarrow> ((pfd, 0, SysError ''epoll_create1'' (Some e)), k1)
      | ((pfd, None), k1) \<Rightarrow>
          (case k_eventfd K k1 of
             ((efd, Some e), k2) \<Rightarrow> ((pfd, efd, SysError ''epoll_eventfd'' (Some e)), snd (k_close K pfd k2))
           | ((efd, None), k2) \<Rightarrow>
               (case AddRead K pfd efd k2 of
                  (Some e, k3) \<Rightarrow> ((pfd, efd, SysError ''epoll_eventfd_add'' (Some e)),
                     snd (k_close K efd (snd (k_close K pfd k3))))
                | (None, k3) \<Rightarrow> ((pfd, efd, None), k3))))"

text \<open>\<open>Trigger\<close> writes 8 bytes to the event descriptor; a full counter (\<open>EAGAIN\<close>) counts as done.\<close>

definition trigger_word :: bytes where
  "trigger_word = char_of (1::nat) # replicate 7 (char_of (0::nat))"

definition Trigger :: "('k, 'sa) kernel \<Rightarrow> int \<Rightarrow> 'k \<Rightarrow> nerror \<times> 'k" where
  "Trigger K pollEvFd k =
     (case k_write K pollEvFd trigger_word k of
        ((n, e), k') \<Rightarrow> (SysError ''pollEvFd_write'' (if e = Some EAGAIN then None else e), k'))"

section \<open>Event masks and dispatch\<close>

record masks =
  InEvents :: "32 word"
  OutEvents :: "32 word"
  ClosedFdEvents :: "32 word"

text \<open>\<open>EPOLLERR\<close> 0x8, \<open>EPOLLHUP\<close> 0x10, \<open>EPOLLRDHUP\<close> 0x2000, \<open>EPOLLIN\<close> 1, \<open>EPOLLPRI\<close> 2, \<open>EPOLLOUT\<close> 4.\<close>

definition ErrEvents :: "32 word" where
  "ErrEvents = 0x8 OR 0x10 OR 0x2000"

definition linux_masks :: masks where
  "linux_masks = \<lparr>InEvents = ErrEvents OR 0x1 OR 0x2, OutEvents = ErrEvents OR 0x4, ClosedFdEvents = 0\<rparr>"

definition darwin_masks :: masks where
  "darwin_masks = \<lparr>InEvents = 0x2, OutEvents = 0x4, ClosedFdEvents = 0x8\<rparr>"

text \<open>The interface \<open>EventHandler\<close>: what a connection does for the event loop.\<close>

record 's handler_ops =
  WriteToFd :: "'s \<Rightarrow> (nerror \<times> 's) go"
  ReadFromFd :: "'s \<Rightarrow> (nerror \<times> 's) go"
  Close :: "'s \<Rightarrow> (nerror \<times> 's) go"
  AsyncWriteToFd :: "'s \<Rightarrow> 's go"
  AsyncReadFromFd :: "'s \<Rightarrow> 's go"
  AsyncClose :: "'s \<Rightarrow> 's go"
  AsyncWriteToFdAndWait :: "'s \<Rightarrow> 's go"
  AsyncReadFromFdAndWait :: "'s \<Rightarrow> 's go"

definition HandleEvents :: "masks \<Rightarrow> 32 word \<Rightarrow> 's handler_ops \<Rightarrow> 's \<Rightarrow> (nerror \<times> 's) go" where
  "HandleEvents M events h s =
     (if events AND ClosedFdEvents M \<noteq> 0 then Close h s
      else go_bind (if events AND OutEvents M \<noteq> 0 then WriteToFd h s else Ret (None, s)) (\<lambda>(e, s1).
        if e \<noteq> None then Ret (e, s1)
        else if events AND InEvents M \<noteq> 0 then ReadFromFd h s1 else Ret (None, s1)))"

definition AsyncHandleEvents :: "masks \<Rightarrow> 32 word \<Rightarrow> 's handler_ops \<Rightarrow> 's \<Rightarrow> 's go" where
  "AsyncHandleEvents M events h s =
     (if events AND ClosedFdEvents M \<noteq> 0 then AsyncClose h s
      else if events AND OutEvents M \<noteq> 0 then AsyncWriteToFd h s
      else if events AND InEvents M \<noteq> 0 then AsyncReadFromFd h s
      else Ret s)"

definition AsyncHandleEventsAndWait :: "masks \<Rightarrow> 32 word \<Rightarrow> 's handler_ops \<Rightarrow> 's \<Rightarrow> 's go" where
  "AsyncHandleEventsAndWait M events h s =
     (if events AND ClosedFdEvents M \<noteq> 0 then AsyncClose h s
      else if events AND OutEvents M \<noteq> 0 then AsyncWriteToFdAndWait h s
      else if events AND InEvents M \<noteq> 0 then AsyncReadFromFdAndWait h s
      else Ret s)"

text \<open>The contract of a handler: its methods keep an invariant of the state they work on.\<close>

locale event_handler =
  fixes h :: "'s handler_ops" and ok :: "'s \<Rightarrow> bool"
  assumes write_ok: "ok s \<Longrightarrow> WriteToFd h s = Ret (e, s') \<Longrightarrow> ok s'"
    and read_ok: "ok s \<Longrightarrow> ReadFromFd h s = Ret (e, s') \<Longrightarrow> ok s'"
    and close_ok: "ok s \<Longrightarrow> Close h s = Ret (e, s') \<Longrightarrow> ok s'"
    and async_write_ok: "ok s \<Longrightarrow> AsyncWriteToFd h s = Ret s' \<Longrightarrow> ok s'"
    and async_read_ok: "ok s \<Longrightarrow> AsyncReadFromFd h s = Ret s' \<Longrightarrow> ok s'"
    and async_close_ok: "ok s \<Longrightarrow> AsyncClose h s = Ret s' \<Longrightarrow> ok s'"
    and async_write_wait_ok: "ok s \<Longrightarrow> AsyncWriteToFdAndWait h s = Ret s' \<Longrightarrow> ok s'"
    and async_read_wait_ok: "ok s \<Longrightarrow> AsyncReadFromFdAndWait h s = Ret s' \<Longrightarrow> ok s'"
begin

lemmas handler_ok = write_ok read_ok close_ok async_write_ok async_read_ok async_close_ok
  async_write_wait_ok async_read_wait_ok

lemma HandleEvents_ok: "ok s \<Longrightarrow> HandleEvents M events h s = Ret (e, s') \<Longrightarrow> ok s'"
  by (auto simp: HandleEvents_def go_bind_eq_Ret split: if_splits intro: handler_ok)

lemma AsyncHandleEvents_ok: "ok s \<Longrightarrow> AsyncHandleEvents M events h s = Ret s' \<Longrightarrow> ok s'"
  by (auto simp: AsyncHandleEvents_def split: if_splits intro: handler_ok)

lemma AsyncHandleEventsAndWait_ok: "ok s \<Longrightarrow> AsyncHandleEventsAndWait M events h s = Ret s' \<Longrightarrow> ok s'"
  by (auto simp: AsyncHandleEventsAndWait_def split: if_splits intro: handler_ok)

end

lemma and_or_word: "(e :: 32 word) AND (a OR b) = 0 \<longleftrightarrow> e AND a = 0 \<and> e AND b = 0"
  by (simp add: bit.conj_disj_distrib or_eq_0_iff)

text \<open>
  The Linux dispatch table of the asynchronous handler that the event loop uses: an event goes
  to the write method as soon as it carries \<open>EPOLLOUT\<close> or any error or hang-up bit, even when it is
  readable too; to the read method only when it is readable and carries none of these; to the close
  method never. So the end of a connection that epoll reports with \<open>EPOLLHUP\<close> or \<open>EPOLLRDHUP\<close> is
  handed to the write method and not to the one that would notice it.
\<close>

lemma linux_async_dispatch:
  "AsyncHandleEventsAndWait linux_masks events h s =
    (if events AND (0x8 OR 0x10 OR 0x2000 OR 0x4) \<noteq> 0 then AsyncWriteToFdAndWait h s
     else if events AND (0x1 OR 0x2) \<noteq> 0 then AsyncReadFromFdAndWait h s
     else Ret s)"
proof -
  have "(events AND 8219 = 0) = (events AND 8216 = 0 \<and> events AND 3 = 0)"
    using and_or_word [of events 8216 3] by simp
  moreover have "(events AND 8220 = 0) = (events AND 8216 = 0 \<and> events AND 4 = 0)"
    using and_or_word [of events 8216 4] by simp
  ultimately show ?thesis
    by (auto simp: AsyncHandleEventsAndWait_def linux_masks_def ErrEvents_def)
qed

end
