(* ===== verification/WaitPoll.thy ===== *)
theory WaitPoll
  imports SysCalls
begin

text \<open>
  The poll loop \<open>WaitPoll\<close> of \<open>sys/sys_poll_linux.go\<close> and \<open>sys/sys_poll_darwin.go\<close>: one round waits
  for events, hands each of them to the callback together with the \<open>trigger\<close> flag, and adapts the
  size of the event buffer. The waiting system call is a parameter that returns an error (the
  code then sees \<open>n = -1\<close>) or the list of ready events. The state \<open>'s\<close> is whatever the callback
  works on.
\<close>

type_synonym 's wait_callback = "int \<Rightarrow> 32 word \<Rightarrow> bool \<Rightarrow> 's \<Rightarrow> ((bool \<times> nerror) \<times> 's) go"

record 's poll_env =
  ep_wait :: "nat \<Rightarrow> int \<Rightarrow> 's \<Rightarrow> (error + (int \<times> 32 word) list) \<times> 's"
  wakeFd :: int
  readWake :: "'s \<Rightarrow> 's"
  wcb :: "'s wait_callback"
  doErr :: "nerror \<Rightarrow> nerror"

definition MaxPollSize :: nat where "MaxPollSize = 1024"
definition MinPollSize :: nat where "MinPollSize = 32"
definition InitPollSize :: nat where "InitPollSize = 128"

section \<open>One batch\<close>

text \<open>
  The \<open>for\<close> loop over the ready events. Only the last event of the batch is given \<open>trigger\<close>, and
  whatever the callback returns replaces \<open>trigger\<close> each time.
\<close>

fun dispatch :: "'s poll_env \<Rightarrow> (int \<times> 32 word) list \<Rightarrow> bool \<Rightarrow> 's \<Rightarrow> (nerror \<times> bool \<times> 's) go" where
  "dispatch E [] trigger s = Ret (None, trigger, s)"
| "dispatch E ((fd, events) # rest) trigger s =
     (let trigger1 = (if fd = wakeFd E then True else trigger);
          s1 = (if fd = wakeFd E then readWake E s else s) in
      go_bind (wcb E fd events (if rest = [] then trigger1 else False) s1) (\<lambda>((trigger2, err), s2).
        case doErr E err of
          Some e \<Rightarrow> Ret (Some e, trigger2, s2)
        | None \<Rightarrow> dispatch E rest trigger2 s2))"

definition expand :: "nat \<Rightarrow> nat" where "expand sz = sz * 2"
definition shrink :: "nat \<Rightarrow> nat" where "shrink sz = sz div 2"

definition resize :: "nat \<Rightarrow> nat \<Rightarrow> nat" where
  "resize n sz =
     (if n = sz \<and> sz * 2 \<le> MaxPollSize then expand sz
      else if n < sz div 2 \<and> sz div 2 \<ge> MinPollSize then shrink sz
      else sz)"

section \<open>The loop\<close>

text \<open>
  A run of the loop is either about to wait again, with the buffer size, the timeout and the
  \<open>trigger\<close> variable it carries over, or \<open>WaitPoll\<close> has returned. More events than the buffer
  holds would be an index panic.
\<close>

datatype 's poll_run = Running nat int bool 's | Stopped nerror 's

definition poll_round :: "'s poll_env \<Rightarrow> nat \<Rightarrow> int \<Rightarrow> bool \<Rightarrow> 's \<Rightarrow> 's poll_run go" where
  "poll_round E sz timeout trigger s =
     (case ep_wait E sz timeout s of
        (Inl e, s1) \<Rightarrow> Ret (if e = EINTR then Running sz (-1) trigger s1 else Stopped (Some e) s1)
      | (Inr evs, s1) \<Rightarrow>
          if evs = [] then Ret (Running sz (-1) trigger s1)
          else if length evs > sz then Panic
          else go_bind (dispatch E evs trigger s1) (\<lambda>(err, trigger2, s2).
                 case err of
                   Some e \<Rightarrow> Ret (Stopped (Some e) s2)
                 | None \<Rightarrow> Ret (Running (resize (length evs) sz) 0 trigger2 s2)))"

fun poll_rounds :: "'s poll_env \<Rightarrow> nat \<Rightarrow> 's poll_run \<Rightarrow> 's poll_run go" where
  "poll_rounds E 0 r = Ret r"
| "poll_rounds E (Suc n) (Stopped e s) = Ret (Stopped e s)"
| "poll_rounds E (Suc n) (Running sz timeout trigger s) =
     go_bind (poll_round E sz timeout trigger s) (poll_rounds E n)"

definition WaitPoll :: "'s poll_env \<Rightarrow> nat \<Rightarrow> 's \<Rightarrow> 's poll_run go" where
  "WaitPoll E n s = poll_rounds E n (Running InitPollSize (-1) False s)"

section \<open>The buffer size\<close>

definition pow2_size :: "nat \<Rightarrow> bool" where
  "pow2_size sz \<longleftrightarrow> sz \<in> {32, 64, 128, 256, 512, 1024}"

lemma resize_pow2: "pow2_size sz \<Longrightarrow> pow2_size (resize n sz)"
  by (auto simp: pow2_size_def resize_def expand_def shrink_def MaxPollSize_def MinPollSize_def)

fun run_ok :: "'s poll_run \<Rightarrow> bool" where
  "run_ok (Running sz timeout trigger s) = (pow2_size sz \<and> timeout \<in> {-1, 0})"
| "run_ok (Stopped e s) = (e \<noteq> None)"

lemma poll_round_ok: "pow2_size sz \<Longrightarrow> poll_round E sz timeout trigger s = Ret r \<Longrightarrow> run_ok r"
  by (auto simp: poll_round_def go_bind_eq_Ret resize_pow2 split: prod.splits sum.splits if_splits option.splits)

lemma poll_rounds_ok: "run_ok r \<Longrightarrow> poll_rounds E n r = Ret r' \<Longrightarrow> run_ok r'"
proof (induction E n r rule: poll_rounds.induct)
  case (3 E n sz timeout trigger s)
  then obtain r1 where "poll_round E sz timeout trigger s = Ret r1" "poll_rounds E n r1 = Ret r'"
    by (auto simp: go_bind_eq_Ret)
  then show ?case using 3 poll_round_ok [of sz E timeout trigger s r1] by auto
qed auto

text \<open>
  C13. The poll loop keeps its event buffer a power of two between \<open>MinPollSize\<close> and \<open>MaxPollSize\<close>
  for any sequence of events, blocks in the kernel or polls without waiting and nothing in
  between, and, when it returns, returns an error.
\<close>

theorem poll_buffer_bounds:
  assumes "WaitPoll E n s = Ret r"
  shows "case r of Running sz timeout trigger s' \<Rightarrow>
      sz \<in> {32, 64, 128, 256, 512, 1024} \<and> MinPollSize \<le> sz \<and> sz \<le> MaxPollSize \<and> timeout \<in> {-1, 0}
    | Stopped e s' \<Rightarrow> e \<noteq> None"
proof -
  have "run_ok r"
    using poll_rounds_ok [of "Running InitPollSize (-1) False s" E n r] assms
    by (simp add: WaitPoll_def pow2_size_def InitPollSize_def)
  then show ?thesis
    by (cases r) (auto simp: pow2_size_def MinPollSize_def MaxPollSize_def)
qed

text \<open>A kernel that reports as many events as fit, once more than the buffer holds each time.\<close>

definition busy_env :: "unit poll_env" where
  "busy_env = \<lparr>ep_wait = (\<lambda>sz _ s. (Inr (replicate sz (5, 1)), s)), wakeFd = 3, readWake = id,
     wcb = (\<lambda>_ _ _ s. Ret ((False, None), s)), doErr = id\<rparr>"

lemma dispatch_busy: "dispatch busy_env (replicate n (5, 1)) False () = Ret (None, False, ())"
  by (induction n) (auto simp: busy_env_def)

theorem poll_buffer_bounds_witness:
  "WaitPoll busy_env 2 () = Ret (Running 512 0 False ()) \<and> MinPollSize \<le> 512 \<and> 512 \<le> MaxPollSize"
proof -
  have wait: "ep_wait busy_env sz t () = (Inr (replicate sz (5, 1)), ())" for sz t
    by (simp add: busy_env_def)
  have round: "poll_round busy_env sz t False () = Ret (Running (resize sz sz) 0 False ())" if "sz > 0" for sz t
    using that by (simp add: poll_round_def wait dispatch_busy)
  have size: "resize 128 128 = 256" "resize 256 256 = 512"
    by (simp_all add: resize_def expand_def MaxPollSize_def)
  have w: "WaitPoll busy_env 2 () = Ret (Running 512 0 False ())"
    by (simp add: WaitPoll_def InitPollSize_def numeral_2_eq_2 round size)
  then show ?thesis using poll_buffer_bounds [OF w] by simp
qed

section \<open>Who sees the trigger\<close>

lemma dispatch_never_triggers:
  assumes "\<And>fd ev s t e s'. wcb E fd ev False s = Ret ((t, e), s') \<Longrightarrow> \<not> t"
    and "evs \<noteq> []" and "fst (last evs) \<noteq> wakeFd E" and "trigger \<longrightarrow> length evs > 1"
  shows "dispatch E evs trigger s = dispatch (E\<lparr>wcb := \<lambda>fd ev _. wcb E fd ev False\<rparr>) evs False s"
  using assms(2-)
proof (induction evs arbitrary: trigger s)
  case Nil
  then show ?case by simp
next
  case (Cons x rest)
  obtain fd ev where x: "x = (fd, ev)" by fastforce
  show ?case
  proof (cases rest)
    case Nil
    then show ?thesis using Cons.prems x by (auto split: option.splits intro!: go_bind_cong)
  next
    case (Cons y ys)
    have "dispatch E rest t s2 = dispatch (E\<lparr>wcb := \<lambda>fd ev _. wcb E fd ev False\<rparr>) rest t s2"
      if "\<not> t" for t s2
      using Cons.IH [of False s2] Cons.prems Cons that by simp
    then show ?thesis
      using Cons x
      by (auto simp: Let_def split: option.splits intro!: go_bind_cong dest: assms(1))
  qed
qed

end
