(* ===== verification/Wakeup.thy ===== *)
theory Wakeup
  imports WaitPoll
begin

text \<open>
  The wake-up protocol between the goroutines that call \<open>AddTask\<close> and \<open>AddPriorTask\<close> of
  \<open>poll/poll.go\<close> and the goroutine that runs \<open>Start\<close> in \<open>WaitPoll\<close>, step by step: the two task
  queues, the atomic \<open>toTrigger\<close>, and the counter of the event descriptor. Each step is one
  atomic access of the code. The queues are the lists that \<open>LockFreeQueue\<close> shows them to be,
  and their counters lag behind by the \<open>Enqueue\<close> calls that have linked a node and not yet
  counted it (the counter property of that theory).
\<close>

section \<open>Steps\<close>

text \<open>
  A goroutine is outside, has linked its task (in the priority queue or not), has counted it and
  so returned from \<open>Enqueue\<close>, or has won the compare-and-swap and still has to write.
\<close>

datatype adder = Out | Linked bool | Counted | Won

text \<open>
  The poll goroutine: in \<open>epoll_wait\<close>; in the loop over a batch (True is the event descriptor);
  in the callback; in its loops over the queues; before \<open>StoreInt32\<close>; at the two \<open>IsEmpty\<close> calls;
  before its own compare-and-swap; before its own \<open>Trigger\<close>; out of the loop.
\<close>

datatype loop_pc =
    Waiting bool
  | Batch "bool list" bool
  | Callback bool "bool list" bool
  | DrainPrior "bool list"
  | DrainTasks nat "bool list"
  | StoreZero "bool list"
  | LookTasks "bool list"
  | LookPrior "bool list"
  | Rearm "bool list"
  | Signal "bool list"
  | Ended

record 't wake =
  prior :: "'t list"
  ordinary :: "'t list"
  ran :: "'t list"
  toTrig :: int
  counter :: nat
  adders :: "adder list"
  pc :: loop_pc

definition uncounted :: "bool \<Rightarrow> 't wake \<Rightarrow> nat" where
  "uncounted p s = length (filter (\<lambda>a. a = Linked p) (adders s))"

definition seen_empty :: "bool \<Rightarrow> 't wake \<Rightarrow> bool" where
  "seen_empty p s \<longleftrightarrow> length (if p then prior s else ordinary s) = uncounted p s"

definition MaxTasks :: nat where "MaxTasks = 256"

text \<open>
  \<open>blk\<close> says whether the callback is a blocking one (the acceptor's). The other kind reads the
  event descriptor a second time in \<open>AsyncWaitCallback\<close>. A batch has at least one event, has the
  event descriptor at most once and only when it is readable; it may leave it out when the
  buffer is full. After its own \<open>Trigger\<close> the callback returns true, or false when it has an error
  to report; a fatal error of the wait or of a callback ends the loop.
\<close>

inductive wstep :: "bool \<Rightarrow> 't wake \<Rightarrow> 't wake \<Rightarrow> bool" for blk where
  add_prior: "i < length (adders s) \<Longrightarrow> adders s ! i = Out \<Longrightarrow>
    wstep blk s (s\<lparr>prior := prior s @ [t], adders := (adders s)[i := Linked True]\<rparr>)"
| add_task: "i < length (adders s) \<Longrightarrow> adders s ! i = Out \<Longrightarrow>
    wstep blk s (s\<lparr>ordinary := ordinary s @ [t], adders := (adders s)[i := Linked False]\<rparr>)"
| count: "i < length (adders s) \<Longrightarrow> adders s ! i = Linked p \<Longrightarrow>
    wstep blk s (s\<lparr>adders := (adders s)[i := Counted]\<rparr>)"
| cas_won: "i < length (adders s) \<Longrightarrow> adders s ! i = Counted \<Longrightarrow> toTrig s = 0 \<Longrightarrow>
    wstep blk s (s\<lparr>toTrig := 1, adders := (adders s)[i := Won]\<rparr>)"
| cas_lost: "i < length (adders s) \<Longrightarrow> adders s ! i = Counted \<Longrightarrow> toTrig s \<noteq> 0 \<Longrightarrow>
    wstep blk s (s\<lparr>adders := (adders s)[i := Out]\<rparr>)"
| trigger: "i < length (adders s) \<Longrightarrow> adders s ! i = Won \<Longrightarrow>
    wstep blk s (s\<lparr>counter := counter s + 1, adders := (adders s)[i := Out]\<rparr>)"
| no_events: "pc s = Waiting tr \<Longrightarrow> wstep blk s s"
| events: "pc s = Waiting tr \<Longrightarrow> evs \<noteq> [] \<Longrightarrow> length (filter id evs) \<le> 1 \<Longrightarrow>
    (True \<in> set evs \<longrightarrow> counter s > 0) \<Longrightarrow> wstep blk s (s\<lparr>pc := Batch evs tr\<rparr>)"
| batch_end: "pc s = Batch [] tr \<Longrightarrow> wstep blk s (s\<lparr>pc := Waiting tr\<rparr>)"
| event_wake: "pc s = Batch (True # rest) tr \<Longrightarrow>
    wstep blk s (s\<lparr>counter := 0, pc := Callback True rest (rest = [])\<rparr>)"
| event_conn: "pc s = Batch (False # rest) tr \<Longrightarrow>
    wstep blk s (s\<lparr>pc := Callback False rest (rest = [] \<and> tr)\<rparr>)"
| call_idle: "pc s = Callback ev rest False \<Longrightarrow>
    wstep blk s (s\<lparr>counter := (if ev \<and> \<not> blk then 0 else counter s), pc := Batch rest False\<rparr>)"
| call_drain: "pc s = Callback ev rest True \<Longrightarrow>
    wstep blk s (s\<lparr>counter := (if ev \<and> \<not> blk then 0 else counter s), pc := DrainPrior rest\<rparr>)"
| prior_next: "pc s = DrainPrior rest \<Longrightarrow> prior s = t # ts \<Longrightarrow>
    wstep blk s (s\<lparr>prior := ts, ran := ran s @ [t]\<rparr>)"
| prior_done: "pc s = DrainPrior rest \<Longrightarrow> prior s = [] \<Longrightarrow>
    wstep blk s (s\<lparr>pc := DrainTasks MaxTasks rest\<rparr>)"
| tasks_next: "pc s = DrainTasks (Suc n) rest \<Longrightarrow> ordinary s = t # ts \<Longrightarrow>
    wstep blk s (s\<lparr>ordinary := ts, ran := ran s @ [t], pc := DrainTasks n rest\<rparr>)"
| tasks_done: "pc s = DrainTasks n rest \<Longrightarrow> n = 0 \<or> ordinary s = [] \<Longrightarrow>
    wstep blk s (s\<lparr>pc := StoreZero rest\<rparr>)"
| stop: "pc s = StoreZero rest \<Longrightarrow> wstep blk s (s\<lparr>pc := Ended\<rparr>)"
| store_zero: "pc s = StoreZero rest \<Longrightarrow> wstep blk s (s\<lparr>toTrig := 0, pc := LookTasks rest\<rparr>)"
| look_tasks: "pc s = LookTasks rest \<Longrightarrow>
    wstep blk s (s\<lparr>pc := if seen_empty False s then LookPrior rest else Rearm rest\<rparr>)"
| look_prior: "pc s = LookPrior rest \<Longrightarrow>
    wstep blk s (s\<lparr>pc := if seen_empty True s then Batch rest False else Rearm rest\<rparr>)"
| rearm: "pc s = Rearm rest \<Longrightarrow> wstep blk s
    (if toTrig s = 0 then s\<lparr>toTrig := 1, pc := Signal rest\<rparr> else s\<lparr>pc := Batch rest False\<rparr>)"
| signal: "pc s = Signal rest \<Longrightarrow>
    wstep blk s (s\<lparr>counter := counter s + 1, pc := Batch rest tr\<rparr>)"
| fatal: "pc s = Batch rest tr \<or> pc s = Waiting tr \<Longrightarrow> wstep blk s (s\<lparr>pc := Ended\<rparr>)"

definition init_wake :: "nat \<Rightarrow> 't wake" where
  "init_wake n = \<lparr>prior = [], ordinary = [], ran = [], toTrig = 0, counter = 0,
     adders = replicate n Out, pc = Waiting False\<rparr>"

text \<open>Runs in which the event descriptor is the last event of every batch that has it.\<close>

fun wake_last :: "loop_pc \<Rightarrow> bool" where
  "wake_last (Batch evs tr) = (True \<notin> set (butlast evs))"
| "wake_last _ = True"

definition good_step :: "bool \<Rightarrow> 't wake \<Rightarrow> 't wake \<Rightarrow> bool" where
  "good_step blk s s' \<longleftrightarrow> wstep blk s s' \<and> wake_last (pc s')"

section \<open>The invariant of runs with the wake-up last\<close>

definition some_adder :: "(adder \<Rightarrow> bool) \<Rightarrow> 't wake \<Rightarrow> bool" where
  "some_adder P s \<longleftrightarrow> (\<exists>i < length (adders s). P (adders s ! i))"

fun before_cas :: "adder \<Rightarrow> bool" where
  "before_cas (Linked p) = True"
| "before_cas Counted = True"
| "before_cas _ = False"

definition promised :: "'t wake \<Rightarrow> bool" where
  "promised s \<longleftrightarrow> counter s > 0 \<or> some_adder (\<lambda>a. a = Won) s"

definition covered :: "'t list \<Rightarrow> 't wake \<Rightarrow> bool" where
  "covered ts s \<longleftrightarrow> ts = [] \<or> toTrig s \<noteq> 0 \<or> some_adder before_cas s"

fun loop_ok :: "loop_pc \<Rightarrow> 't wake \<Rightarrow> bool" where
  "loop_ok (Waiting tr) s = ((toTrig s \<noteq> 0 \<longrightarrow> promised s) \<and> covered (prior s) s \<and> covered (ordinary s) s)"
| "loop_ok (Batch evs tr) s = ((toTrig s \<noteq> 0 \<longrightarrow> promised s) \<and> covered (prior s) s \<and> covered (ordinary s) s \<and>
     True \<notin> set (butlast evs))"
| "loop_ok (Callback ev rest tr) s =
     (True \<notin> set (butlast rest) \<and>
      (if tr then rest = []
       else \<not> ev \<and> (toTrig s \<noteq> 0 \<longrightarrow> promised s) \<and> covered (prior s) s \<and> covered (ordinary s) s))"
| "loop_ok (DrainPrior rest) s = (rest = [])"
| "loop_ok (DrainTasks n rest) s = (rest = [])"
| "loop_ok (StoreZero rest) s = (rest = [])"
| "loop_ok (LookTasks rest) s = (rest = [] \<and> (toTrig s \<noteq> 0 \<longrightarrow> promised s))"
| "loop_ok (LookPrior rest) s = (rest = [] \<and> (toTrig s \<noteq> 0 \<longrightarrow> promised s) \<and> covered (ordinary s) s)"
| "loop_ok (Rearm rest) s = (rest = [] \<and> (toTrig s \<noteq> 0 \<longrightarrow> promised s))"
| "loop_ok (Signal rest) s = (rest = [] \<and> toTrig s \<noteq> 0)"
| "loop_ok Ended s = True"

definition wake_ok :: "'t wake \<Rightarrow> bool" where
  "wake_ok s \<longleftrightarrow> toTrig s \<in> {0, 1} \<and> loop_ok (pc s) s"

lemma some_adder_update:
  "i < length (adders s) \<Longrightarrow> adders s' = (adders s)[i := a] \<Longrightarrow>
   some_adder P s' \<longleftrightarrow> P a \<or> (\<exists>j < length (adders s). j \<noteq> i \<and> P (adders s ! j))"
  by (auto simp: some_adder_def nth_list_update)

lemma uncounted_some: "uncounted p s > 0 \<Longrightarrow> some_adder before_cas s"
proof -
  assume "uncounted p s > 0"
  then have "filter (\<lambda>a. a = Linked p) (adders s) \<noteq> []" by (simp add: uncounted_def)
  then have "Linked p \<in> set (adders s)" by (auto simp: filter_empty_conv)
  then show ?thesis by (auto simp: some_adder_def in_set_conv_nth intro: before_cas.simps(1))
qed

lemma seen_empty_covered:
  "seen_empty True s \<Longrightarrow> covered (prior s) s" "seen_empty False s \<Longrightarrow> covered (ordinary s) s"
  using uncounted_some [of True s] uncounted_some [of False s]
  by (auto simp: seen_empty_def covered_def) (metis gr0I length_0_conv)+

text \<open>What an adder's step may change without breaking what the loop relies on.\<close>

definition no_worse :: "'t wake \<Rightarrow> 't wake \<Rightarrow> bool" where
  "no_worse s s' \<longleftrightarrow> pc s' = pc s \<and> (toTrig s \<noteq> 0 \<longrightarrow> toTrig s' \<noteq> 0) \<and>
     ((toTrig s \<noteq> 0 \<longrightarrow> promised s) \<longrightarrow> (toTrig s' \<noteq> 0 \<longrightarrow> promised s')) \<and>
     (covered (prior s) s \<longrightarrow> covered (prior s') s') \<and>
     (covered (ordinary s) s \<longrightarrow> covered (ordinary s') s')"

lemma no_worse_loop_ok: "no_worse s s' \<Longrightarrow> loop_ok p s \<Longrightarrow> loop_ok p s'"
  by (cases p) (auto simp: no_worse_def split: if_splits)

lemma some_adder_I: "i < length (adders s) \<Longrightarrow> P (adders s ! i) \<Longrightarrow> some_adder P s"
  by (auto simp: some_adder_def)

lemma some_adder_mono:
  assumes "some_adder P s" "i < length (adders s)" "adders s' = (adders s)[i := a]"
    and "P (adders s ! i) \<Longrightarrow> P a"
  shows "some_adder P s'"
  using assms by (auto simp: some_adder_def nth_list_update) (metis nth_list_update_eq nth_list_update_neq)

lemma adder_step_no_worse:
  assumes i: "i < length (adders s)" and s': "adders s' = (adders s)[i := a]" and pc: "pc s' = pc s"
    and a: "before_cas (adders s ! i) \<Longrightarrow> before_cas a \<or> toTrig s' \<noteq> 0"
    and t: "toTrig s' = toTrig s \<or> toTrig s' = 1 \<and> a = Won"
    and c: "counter s' = counter s \<and> (adders s ! i = Won \<longrightarrow> a = Won) \<or> counter s' > 0"
    and q: "before_cas a \<or> prior s' = prior s \<and> ordinary s' = ordinary s"
  shows "no_worse s s'"
proof -
  have cas: "some_adder before_cas s \<Longrightarrow> some_adder before_cas s' \<or> toTrig s' \<noteq> 0"
    using some_adder_mono [of before_cas s i s' a] i s' a by blast
  have won: "some_adder (\<lambda>a. a = Won) s \<Longrightarrow> some_adder (\<lambda>a. a = Won) s' \<or> counter s' > 0"
    using some_adder_mono [of "\<lambda>a. a = Won" s i s' a] i s' c by auto
  have new: "P a \<Longrightarrow> some_adder P s'" for P
    using some_adder_I [of i s' P] i s' by simp
  show ?thesis
    unfolding no_worse_def covered_def promised_def
    using cas won new [of before_cas] new [of "\<lambda>a. a = Won"] pc t c q by auto
qed

lemma wstep_ok:
  assumes "wstep blk s s'" and "wake_last (pc s')" and "wake_ok s"
  shows "wake_ok s'"
  using assms
proof (induction rule: wstep.induct)
  case (add_prior i s t)
  then show ?case
    using no_worse_loop_ok [OF adder_step_no_worse, of i s _ "Linked True"] by (auto simp: wake_ok_def)
next
  case (add_task i s t)
  then show ?case
    using no_worse_loop_ok [OF adder_step_no_worse, of i s _ "Linked False"] by (auto simp: wake_ok_def)
next
  case (count i s p)
  then show ?case
    using no_worse_loop_ok [OF adder_step_no_worse, of i s _ Counted] by (auto simp: wake_ok_def)
next
  case (cas_won i s)
  then show ?case
    using no_worse_loop_ok [OF adder_step_no_worse, of i s _ Won] by (auto simp: wake_ok_def)
next
  case (cas_lost i s)
  then show ?case
    using no_worse_loop_ok [OF adder_step_no_worse, of i s _ Out] by (auto simp: wake_ok_def)
next
  case (trigger i s)
  then show ?case
    using no_worse_loop_ok [OF adder_step_no_worse, of i s _ Out] by (auto simp: wake_ok_def)
next
  case (event_wake s rest tr)
  then show ?case by (cases rest) (auto simp: wake_ok_def)
next
  case (event_conn s rest tr)
  then show ?case
    by (auto simp: wake_ok_def promised_def covered_def some_adder_def split: if_splits)
next
  case (look_tasks s rest)
  then show ?case
    using seen_empty_covered(2) [of s]
    by (auto simp: wake_ok_def promised_def covered_def some_adder_def)
next
  case (look_prior s rest)
  then show ?case
    using seen_empty_covered(1) [of s]
    by (auto simp: wake_ok_def promised_def covered_def some_adder_def)
qed (auto simp: wake_ok_def promised_def covered_def some_adder_def split: if_splits)

lemma good_steps_ok: "(good_step blk)\<^sup>*\<^sup>* (init_wake n) s \<Longrightarrow> wake_ok s"
proof (induction rule: rtranclp_induct)
  case base
  show ?case by (auto simp: wake_ok_def init_wake_def covered_def)
next
  case (step s s')
  then show ?case using wstep_ok by (auto simp: good_step_def)
qed

text \<open>
  No task is stranded, for any number of goroutines and any interleaving, in runs where the
  event descriptor comes last in its batches: whenever the loop waits in the kernel, no
  \<open>AddTask\<close> or \<open>AddPriorTask\<close> is under way and a task is queued, the event descriptor is readable,
  so the wait ends at once.
\<close>

lemma no_task_stranded:
  assumes "(good_step blk)\<^sup>*\<^sup>* (init_wake n) s" and "pc s = Waiting tr"
    and "\<not> some_adder (\<lambda>a. a \<noteq> Out) s"
  shows "prior s = [] \<and> ordinary s = [] \<or> counter s > 0"
proof -
  have "loop_ok (pc s) s" using good_steps_ok [OF assms(1)] by (simp add: wake_ok_def)
  moreover have "\<not> some_adder before_cas s" "\<not> some_adder (\<lambda>a. a = Won) s"
    using assms(3) by (auto simp: some_adder_def)
  ultimately show ?thesis using assms(2) by (auto simp: covered_def promised_def)
qed

text \<open>One goroutine adds a task while the loop waits: the state after its write.\<close>

definition added :: "nat wake" where
  "added = (init_wake 1)\<lparr>prior := [7], toTrig := 1, counter := 1\<rparr>"

lemma added_reached: "(good_step blk)\<^sup>*\<^sup>* (init_wake 1) added"
proof -
  let ?s1 = "(init_wake 1)\<lparr>prior := [7], adders := [Linked True]\<rparr> :: nat wake"
  let ?s2 = "?s1\<lparr>adders := [Counted]\<rparr>" and ?s3 = "?s1\<lparr>adders := [Won], toTrig := 1\<rparr>"
  have "good_step blk (init_wake 1) ?s1"
    using wstep.add_prior [of 0 "init_wake 1 :: nat wake" blk 7] by (simp add: good_step_def init_wake_def)
  moreover have "good_step blk ?s1 ?s2"
    using wstep.count [of 0 ?s1 True blk] by (simp add: good_step_def init_wake_def)
  moreover have "good_step blk ?s2 ?s3"
    using wstep.cas_won [of 0 ?s2 blk] by (simp add: good_step_def init_wake_def)
  moreover have "good_step blk ?s3 added"
    using wstep.trigger [of 0 ?s3 blk] by (simp add: good_step_def init_wake_def added_def)
  ultimately show ?thesis by (meson converse_rtranclp_into_rtranclp rtranclp.rtrancl_refl)
qed

theorem no_task_stranded_witness: "prior added = [] \<and> ordinary added = [] \<or> counter added > 0"
  by (rule no_task_stranded [OF added_reached [of False]]) (auto simp: added_def init_wake_def some_adder_def)

section \<open>The lost wake-up\<close>

text \<open>
  \<open>toTrigger\<close> is set, the event descriptor has been read, nobody is about to write to it, and the
  loop has no trigger left to pass on.
\<close>

fun no_wake :: "loop_pc \<Rightarrow> bool" where
  "no_wake (Waiting tr) = (\<not> tr)"
| "no_wake (Batch evs tr) = (\<not> tr \<and> True \<notin> set evs)"
| "no_wake (Callback ev rest tr) = (\<not> tr \<and> True \<notin> set rest)"
| "no_wake Ended = True"
| "no_wake p = False"

definition stuck :: "'t wake \<Rightarrow> bool" where
  "stuck s \<longleftrightarrow> toTrig s = 1 \<and> counter s = 0 \<and> \<not> some_adder (\<lambda>a. a = Won) s \<and> no_wake (pc s)"

definition only_added :: "'t wake \<Rightarrow> 't wake \<Rightarrow> bool" where
  "only_added s s' \<longleftrightarrow> ran s' = ran s \<and> (\<exists>xs ys. prior s' = prior s @ xs \<and> ordinary s' = ordinary s @ ys)"

lemma not_some_adder_update:
  "\<not> some_adder P s \<Longrightarrow> \<not> P a \<Longrightarrow> adders s' = (adders s)[i := a] \<Longrightarrow> \<not> some_adder P s'"
  by (auto simp: some_adder_def) (metis nth_list_update_eq nth_list_update_neq)

lemma stuck_step: "wstep blk s s' \<Longrightarrow> stuck s \<Longrightarrow> stuck s' \<and> only_added s s'"
  by (induction rule: wstep.induct)
    (auto simp: stuck_def only_added_def some_adder_I nth_list_update some_adder_def split: if_splits)


text \<open>
  The state is reached when a connection is ready behind the event descriptor; a second task that
  is added later stays in the queue behind the first.
\<close>

definition lost :: "nat wake" where
  "lost = added\<lparr>counter := 0\<rparr>"

lemma lost_reached: "(wstep False)\<^sup>*\<^sup>* (init_wake 1) lost"
proof -
  let ?b = "added\<lparr>pc := Batch [True, False] False\<rparr>"
  let ?c = "lost\<lparr>pc := Callback True [False] False\<rparr>" and ?d = "lost\<lparr>pc := Batch [False] False\<rparr>"
  let ?e = "lost\<lparr>pc := Callback False [] False\<rparr>" and ?f = "lost\<lparr>pc := Batch [] False\<rparr>"
  have "(wstep False)\<^sup>*\<^sup>* (init_wake 1) added"
    using added_reached [of False] by (rule rtranclp_mono [THEN predicate2D, rotated]) (auto simp: good_step_def)
  moreover have "wstep False added ?b"
    by (rule wstep.events [of _ False]) (simp_all add: added_def init_wake_def)
  moreover have "wstep False ?b ?c"
    using wstep.event_wake [of ?b "[False]" False False] by (simp add: lost_def)
  moreover have "wstep False ?c ?d"
    using wstep.call_idle [of ?c True "[False]" False] by (simp add: lost_def)
  moreover have "wstep False ?d ?e"
    using wstep.event_conn [of ?d "[]" False False] by (simp add: lost_def)
  moreover have "wstep False ?e ?f"
    using wstep.call_idle [of ?e False "[]" False] by (simp add: lost_def)
  moreover have "wstep False ?f lost"
    using wstep.batch_end [of ?f False False] by (simp add: lost_def added_def init_wake_def)
  ultimately show ?thesis by (meson rtranclp.rtrancl_into_rtrancl)
qed


end
