(* ===== verification/Poller.thy ===== *)
theory Poller
  imports TaskQueue WaitPoll "HOL-Library.Multiset"
begin

text \<open>
  The poller of \<open>poll/poll.go\<close> and \<open>poll/poll_task.go\<close>: its two task queues (the queue methods of
  \<open>TaskQueue\<close>), \<open>AddTask\<close>, \<open>AddPriorTask\<close>, \<open>runTask\<close>, the callback that \<open>Start\<close> gives to
  \<open>WaitPoll\<close>, the error filter and \<open>Close\<close>. A task is a value of type \<open>'t\<close>; what it does is a
  function on the poller, so a task may add tasks. What the goroutine pool runs is a list of
  jobs: \<open>wg.Wait\<close> runs them in an order the pool chooses.
\<close>

section \<open>State\<close>

datatype pool = NoPool | PoolOpen | PoolReleased

record ('t, 'k, 'w) poller =
  pollFd :: int
  pollEvFd :: int
  priorTasks :: "'t queue"
  tasks :: "'t queue"
  toTrigger :: int
  Pool :: pool
  ErrForStop :: "error list option"
  ReadBufferSize :: int
  kern :: 'k
  world :: 'w

text \<open>A job gives the state it leaves, or never returns.\<close>

type_synonym 's job = "'s \<Rightarrow> 's option"
type_synonym ('t, 's) task_fn = "'t \<Rightarrow> 's \<Rightarrow> nerror \<times> 's"

definition New :: "('k, 'sa) kernel \<Rightarrow> 'w \<Rightarrow> 'k \<Rightarrow> (('t, 'k, 'w) poller option \<times> nerror) \<times> 'k" where
  "New K w k =
     (case CreatePoll K k of
        ((pfd, efd, Some e), k') \<Rightarrow> ((None, Some e), k')
      | ((pfd, efd, None), k') \<Rightarrow>
          ((Some \<lparr>pollFd = pfd, pollEvFd = efd, priorTasks = NewQueue, tasks = NewQueue, toTrigger = 0,
             Pool = NoPool, ErrForStop = None, ReadBufferSize = 0, kern = k', world = w\<rparr>, None), k'))"

section \<open>Adding and running tasks\<close>

text \<open>\<open>CompareAndSwapInt32(&toTrigger, 0, 1)\<close>, then \<open>Trigger\<close>.\<close>

definition wake_up :: "('k, 'sa) kernel \<Rightarrow> ('t, 'k, 'w) poller \<Rightarrow> nerror \<times> ('t, 'k, 'w) poller" where
  "wake_up K p =
     (if toTrigger p = 0
      then (case Trigger K (pollEvFd p) (kern p) of (e, k') \<Rightarrow> (e, p\<lparr>toTrigger := 1, kern := k'\<rparr>))
      else (None, p))"

definition AddTask :: "('k, 'sa) kernel \<Rightarrow> 't \<Rightarrow> ('t, 'k, 'w) poller \<Rightarrow> nerror \<times> ('t, 'k, 'w) poller" where
  "AddTask K t p = wake_up K (p\<lparr>tasks := seq_Enqueue t (tasks p)\<rparr>)"

definition AddPriorTask :: "('k, 'sa) kernel \<Rightarrow> 't \<Rightarrow> ('t, 'k, 'w) poller \<Rightarrow> nerror \<times> ('t, 'k, 'w) poller" where
  "AddPriorTask K t p = wake_up K (p\<lparr>priorTasks := seq_Enqueue t (priorTasks p)\<rparr>)"

definition fatal_error :: "error \<Rightarrow> bool" where
  "fatal_error e \<longleftrightarrow> e = ErrEngineShutdown \<or> e = ErrAcceptSocket"

text \<open>The non-blocking send on \<open>ErrForStop\<close> (capacity 2 in the engine; a nil channel takes nothing).\<close>

definition send_stop :: "error \<Rightarrow> ('t, 'k, 'w) poller \<Rightarrow> ('t, 'k, 'w) poller" where
  "send_stop e p =
     (case ErrForStop p of None \<Rightarrow> p
      | Some es \<Rightarrow> if length es < 2 then p\<lparr>ErrForStop := Some (es @ [e])\<rparr> else p)"

definition recv_stop :: "('t, 'k, 'w) poller \<Rightarrow> nerror \<times> ('t, 'k, 'w) poller" where
  "recv_stop p = (case ErrForStop p of Some (e # es) \<Rightarrow> (Some e, p\<lparr>ErrForStop := Some es\<rparr>) | _ \<Rightarrow> (None, p))"

definition task_job :: "('t, ('t, 'k, 'w) poller) task_fn \<Rightarrow> 't \<Rightarrow> ('t, 'k, 'w) poller job" where
  "task_job G t p =
     (case G t p of
        (None, p') \<Rightarrow> Some p'
      | (Some e, p') \<Rightarrow> Some (if fatal_error e then send_stop e p' else p'))"

text \<open>
  \<open>runTask\<close>: without a pool the task runs here and its error is the result; with a pool it becomes
  a job. A released pool refuses the job, and the \<open>wg.Add(1)\<close> before it is never undone: a job
  that never returns.
\<close>

definition runTask ::
  "('t, ('t, 'k, 'w) poller) task_fn \<Rightarrow> 't \<Rightarrow> ('t, 'k, 'w) poller job list \<Rightarrow> ('t, 'k, 'w) poller \<Rightarrow>
   nerror \<times> ('t, 'k, 'w) poller job list \<times> ('t, 'k, 'w) poller" where
  "runTask G t jobs p =
     (case Pool p of
        NoPool \<Rightarrow> (case G t p of
            (None, p') \<Rightarrow> (None, jobs, p')
          | (Some e, p') \<Rightarrow> (if fatal_error e then Some e else None, jobs, p'))
      | PoolOpen \<Rightarrow> (None, jobs @ [task_job G t], p)
      | PoolReleased \<Rightarrow> (None, jobs @ [\<lambda>_. None], p))"

fun run_jobs :: "'s job list \<Rightarrow> 's \<Rightarrow> 's go" where
  "run_jobs [] s = Ret s"
| "run_jobs (j # js) s = (case j s of None \<Rightarrow> Blocked | Some s' \<Rightarrow> run_jobs js s')"

text \<open>
  The loop over the priority queue ends at the first nil; tasks run without a pool may add to
  it, so it may not end. The loop over the other queue runs at most \<open>MaxTasks\<close> tasks. Both ignore
  the error of \<open>runTask\<close>.
\<close>

partial_function (option) drain_prior ::
  "('t, ('t, 'k, 'w) poller) task_fn \<Rightarrow> ('t, 'k, 'w) poller job list \<Rightarrow> ('t, 'k, 'w) poller \<Rightarrow>
   (('t, 'k, 'w) poller job list \<times> ('t, 'k, 'w) poller) option" where
  "drain_prior G jobs p =
     (case seq_Dequeue (priorTasks p) of
        (None, q) \<Rightarrow> Some (jobs, p\<lparr>priorTasks := q\<rparr>)
      | (Some t, q) \<Rightarrow> (case runTask G t jobs (p\<lparr>priorTasks := q\<rparr>) of (e, jobs', p') \<Rightarrow> drain_prior G jobs' p'))"

fun drain_tasks ::
  "nat \<Rightarrow> ('t, ('t, 'k, 'w) poller) task_fn \<Rightarrow> ('t, 'k, 'w) poller job list \<Rightarrow> ('t, 'k, 'w) poller \<Rightarrow>
   ('t, 'k, 'w) poller job list \<times> ('t, 'k, 'w) poller" where
  "drain_tasks 0 G jobs p = (jobs, p)"
| "drain_tasks (Suc n) G jobs p =
     (case seq_Dequeue (tasks p) of
        (None, q) \<Rightarrow> (jobs, p\<lparr>tasks := q\<rparr>)
      | (Some t, q) \<Rightarrow> (case runTask G t jobs (p\<lparr>tasks := q\<rparr>) of (e, jobs', p') \<Rightarrow> drain_tasks n G jobs' p'))"

definition MaxTasks :: nat where "MaxTasks = 256"

section \<open>The callback of Start\<close>

text \<open>
  The interface \<open>IPollCallback\<close>. \<open>AsyncWaitCallback\<close> gives the error channel it returns, as its
  non-blocking receive, and the jobs it submits to the pool.
\<close>

record 's poll_callback =
  IsBlocked :: bool
  Callback :: "int \<Rightarrow> 32 word \<Rightarrow> 's \<Rightarrow> (nerror \<times> 's) go"
  AsyncWaitCallback :: "int \<Rightarrow> 32 word \<Rightarrow> 's \<Rightarrow> ('s \<Rightarrow> nerror \<times> 's) option \<times> 's job list \<times> 's"

text \<open>What follows the wait on the triggered path: the error channel, the reset, the second look.\<close>

definition after_wait :: "('k, 'sa) kernel \<Rightarrow> ('t, 'k, 'w) poller \<Rightarrow> (nerror \<times> bool) \<times> ('t, 'k, 'w) poller" where
  "after_wait K p =
     (case recv_stop p of
        (Some e, p1) \<Rightarrow> ((Some e, False), p1)
      | (None, p1) \<Rightarrow>
          (let p2 = p1\<lparr>toTrigger := 0\<rparr> in
           if (\<not> seq_IsEmpty (tasks p2) \<or> \<not> seq_IsEmpty (priorTasks p2)) \<and> toTrigger p2 = 0
           then (case Trigger K (pollEvFd p2) (kern p2) of
                   (e, k') \<Rightarrow> ((None, e = None), p2\<lparr>toTrigger := 1, kern := k'\<rparr>))
           else ((None, False), p2)))"

text \<open>The end of the callback: the blocking callback, the connection's error channel, the result.\<close>

definition end_callback ::
  "('t, 'k, 'w) poller poll_callback \<Rightarrow> (('t, 'k, 'w) poller \<Rightarrow> nerror \<times> ('t, 'k, 'w) poller) option \<Rightarrow> int \<Rightarrow>
   32 word \<Rightarrow> bool \<Rightarrow> ('t, 'k, 'w) poller \<Rightarrow> ((bool \<times> nerror) \<times> ('t, 'k, 'w) poller) go" where
  "end_callback C ch fd events trigger p =
     go_bind (if IsBlocked C then Callback C fd events p else Ret (None, p)) (\<lambda>(err, p1).
       case (case ch of None \<Rightarrow> (None, p1) | Some r \<Rightarrow> r p1) of
         (Some e, p2) \<Rightarrow> Ret ((False, Some e), p2)
       | (None, p2) \<Rightarrow> Ret ((if err \<noteq> None then False else trigger, err), p2))"

definition start_callback ::
  "('k, 'sa) kernel \<Rightarrow> ('t, ('t, 'k, 'w) poller) task_fn \<Rightarrow>
   (('t, 'k, 'w) poller job list \<Rightarrow> ('t, 'k, 'w) poller job list) \<Rightarrow>
   ('t, 'k, 'w) poller poll_callback \<Rightarrow> ('t, 'k, 'w) poller wait_callback" where
  "start_callback K G arrange C fd events trigger p =
     (let (ch, jobs, p1) = (if \<not> IsBlocked C then AsyncWaitCallback C fd events p else (None, [], p)) in
      if trigger then
        (case drain_prior G jobs p1 of
           None \<Rightarrow> Blocked
         | Some (jobs2, p2) \<Rightarrow>
             (let (jobs3, p3) = drain_tasks MaxTasks G jobs2 p2 in
              go_bind (run_jobs (arrange jobs3) p3) (\<lambda>p4.
                case after_wait K p4 of
                  ((Some e, tr), p5) \<Rightarrow> Ret ((tr, Some e), p5)
                | ((None, tr), p5) \<Rightarrow> end_callback C ch fd events tr p5)))
      else go_bind (run_jobs (arrange jobs) p1) (end_callback C ch fd events False))"

definition doWaitCallbackErr :: "nerror \<Rightarrow> nerror" where
  "doWaitCallbackErr err =
     (case err of None \<Rightarrow> None | Some e \<Rightarrow> if fatal_error e then Some e else None)"

text \<open>The environment in which \<open>Start\<close> calls \<open>WaitPoll\<close>; \<open>wait\<close> is the waiting system call.\<close>

definition start_env ::
  "('k, 'sa) kernel \<Rightarrow> (nat \<Rightarrow> int \<Rightarrow> 'k \<Rightarrow> (error + (int \<times> 32 word) list) \<times> 'k) \<Rightarrow>
   ('t, ('t, 'k, 'w) poller) task_fn \<Rightarrow> (('t, 'k, 'w) poller job list \<Rightarrow> ('t, 'k, 'w) poller job list) \<Rightarrow>
   ('t, 'k, 'w) poller poll_callback \<Rightarrow> int \<Rightarrow> ('t, 'k, 'w) poller poll_env" where
  "start_env K wait G arrange C efd =
     \<lparr>ep_wait = (\<lambda>sz timeout p. case wait sz timeout (kern p) of (r, k') \<Rightarrow> (r, p\<lparr>kern := k'\<rparr>)),
      wakeFd = efd,
      readWake = (\<lambda>p. p\<lparr>kern := snd (k_read K efd 8 (kern p))\<rparr>),
      wcb = start_callback K G arrange C,
      doErr = doWaitCallbackErr\<rparr>"

definition Start ::
  "('k, 'sa) kernel \<Rightarrow> (nat \<Rightarrow> int \<Rightarrow> 'k \<Rightarrow> (error + (int \<times> 32 word) list) \<times> 'k) \<Rightarrow>
   ('t, ('t, 'k, 'w) poller) task_fn \<Rightarrow> (('t, 'k, 'w) poller job list \<Rightarrow> ('t, 'k, 'w) poller job list) \<Rightarrow>
   ('t, 'k, 'w) poller poll_callback \<Rightarrow> nat \<Rightarrow> ('t, 'k, 'w) poller \<Rightarrow> ('t, 'k, 'w) poller poll_run go" where
  "Start K wait G arrange C n p = WaitPoll (start_env K wait G arrange C (pollEvFd p)) n p"

definition poller_Close :: "('k, 'sa) kernel \<Rightarrow> ('t, 'k, 'w) poller \<Rightarrow> nerror \<times> ('t, 'k, 'w) poller" where
  "poller_Close K p =
     (case CloseFd K (pollFd p) (kern p) of
        (Some e, k1) \<Rightarrow> (SysError ''pollfd_close'' (Some e), p\<lparr>kern := k1\<rparr>)
      | (None, k1) \<Rightarrow>
          if pollFd p \<noteq> pollEvFd p
          then (case CloseFd K (pollEvFd p) k1 of (e, k2) \<Rightarrow> (SysError ''pollEvFd_close'' e, p\<lparr>kern := k2\<rparr>))
          else (None, p\<lparr>kern := k1\<rparr>))"

text \<open>The descriptor methods pass the poller's own descriptor on.\<close>

definition on_poll_fd ::
  "(int \<Rightarrow> int \<Rightarrow> 'k \<Rightarrow> nerror \<times> 'k) \<Rightarrow> int \<Rightarrow> ('t, 'k, 'w) poller \<Rightarrow> nerror \<times> ('t, 'k, 'w) poller" where
  "on_poll_fd f fd p = (case f (pollFd p) fd (kern p) of (e, k') \<Rightarrow> (e, p\<lparr>kern := k'\<rparr>))"

definition poller_AddReadWrite where "poller_AddReadWrite K = on_poll_fd (AddReadWrite K)"
definition poller_AddRead where "poller_AddRead K = on_poll_fd (AddRead K)"
definition poller_AddWrite where "poller_AddWrite K = on_poll_fd (AddWrite K)"
definition poller_ModReadWrite where "poller_ModReadWrite K = on_poll_fd (ModReadWrite K)"
definition poller_ModRead where "poller_ModRead K = on_poll_fd (ModRead K)"
definition poller_ModWrite where "poller_ModWrite K = on_poll_fd (ModWrite K)"
definition poller_RemoveFd where "poller_RemoveFd K = on_poll_fd (UnRegister K)"

section \<open>Draining\<close>

definition poller_ok :: "('t, 'k, 'w) poller \<Rightarrow> bool" where
  "poller_ok p \<longleftrightarrow> queue_inv (priorTasks p) \<and> queue_inv (tasks p)"

lemma wake_up_frame:
  "priorTasks (snd (wake_up K p)) = priorTasks p" "tasks (snd (wake_up K p)) = tasks p"
  by (auto simp: wake_up_def split: prod.split)

lemma wake_up_ok: "poller_ok (snd (wake_up K p)) = poller_ok p"
  by (simp add: poller_ok_def wake_up_frame)

text \<open>With an open pool \<open>runTask\<close> only collects the job, so the two loops are loops over a queue.\<close>

lemma runTask_open: "Pool p = PoolOpen \<Longrightarrow> runTask G t jobs p = (None, jobs @ [task_job G t], p)"
  by (simp add: runTask_def)

lemma drain_prior_open:
  assumes "Pool p = PoolOpen" and "queue_inv (priorTasks p)"
  shows "\<exists>q. drain_prior G jobs p =
      Some (jobs @ map (task_job G) (queue_model (priorTasks p)), p\<lparr>priorTasks := q\<rparr>) \<and>
      queue_inv q \<and> queue_model q = []"
  using assms
proof (induction "queue_model (priorTasks p)" arbitrary: p jobs)
  case Nil
  obtain r q where d: "seq_Dequeue (priorTasks p) = (r, q)" by fastforce
  then have "r = None" "queue_inv q" "queue_model q = []"
    using tq.deq_empty [OF Nil.prems(2) Nil.hyps [symmetric] d] by auto
  then show ?case using d Nil.hyps by (subst drain_prior.simps) (auto split: option.split)
next
  case (Cons t ts)
  obtain r q where d: "seq_Dequeue (priorTasks p) = (r, q)" by fastforce
  then have r: "r = Some t" "queue_inv q" "queue_model q = ts"
    using tq.deq_cons [OF Cons.prems(2) Cons.hyps(2) [symmetric] d] by auto
  show ?case
    using Cons.hyps(1) [of "p\<lparr>priorTasks := q\<rparr>" "jobs @ [task_job G t]"] r d Cons.prems Cons.hyps(2) [symmetric]
    by (subst drain_prior.simps) (auto simp: runTask_open)
qed

lemma drain_tasks_open:
  assumes "Pool p = PoolOpen" and "queue_inv (tasks p)"
  shows "\<exists>q. drain_tasks n G jobs p =
      (jobs @ map (task_job G) (take n (queue_model (tasks p))), p\<lparr>tasks := q\<rparr>) \<and>
      queue_inv q \<and> queue_model q = drop n (queue_model (tasks p))"
  using assms
proof (induction n G jobs p rule: drain_tasks.induct)
  case (1 G jobs p)
  then show ?case by (auto intro: exI [of _ "tasks p"])
next
  case (2 n G jobs p)
  obtain r q where d: "seq_Dequeue (tasks p) = (r, q)" by fastforce
  show ?case
  proof (cases "queue_model (tasks p)")
    case Nil
    then show ?thesis using tq.deq_empty [OF 2(3) Nil d] d by auto
  next
    case (Cons t ts)
    then have r: "r = Some t" "queue_inv q" "queue_model q = ts"
      using tq.deq_cons [OF 2(3) Cons d] by auto
    then show ?thesis
      using 2(1) [OF d [symmetric] r(1) runTask_open [symmetric, of "p\<lparr>tasks := q\<rparr>"] refl] 2(2,3) d Cons
      by (auto simp: runTask_open)
  qed
qed

lemma drain_all_open:
  assumes "Pool p = PoolOpen" and "poller_ok p"
  shows "\<exists>p2 jobs2 p3. drain_prior G jobs p = Some (jobs2, p2) \<and>
      drain_tasks MaxTasks G jobs2 p2 =
        (jobs @ map (task_job G) (queue_model (priorTasks p) @ take MaxTasks (queue_model (tasks p))), p3) \<and>
      poller_ok p3 \<and> queue_model (priorTasks p3) = [] \<and>
      queue_model (tasks p3) = drop MaxTasks (queue_model (tasks p)) \<and>
      p3 = p\<lparr>priorTasks := priorTasks p3, tasks := tasks p3\<rparr>"
proof -
  obtain q1 where 1: "drain_prior G jobs p =
      Some (jobs @ map (task_job G) (queue_model (priorTasks p)), p\<lparr>priorTasks := q1\<rparr>)"
      "queue_inv q1" "queue_model q1 = []"
    using drain_prior_open [of p G jobs] assms by (auto simp: poller_ok_def)
  obtain q2 where 2: "drain_tasks MaxTasks G (jobs @ map (task_job G) (queue_model (priorTasks p)))
        (p\<lparr>priorTasks := q1\<rparr>) =
      ((jobs @ map (task_job G) (queue_model (priorTasks p))) @ map (task_job G) (take MaxTasks (queue_model (tasks p))),
       p\<lparr>priorTasks := q1, tasks := q2\<rparr>)"
      "queue_inv q2" "queue_model q2 = drop MaxTasks (queue_model (tasks p))"
    using drain_tasks_open [of "p\<lparr>priorTasks := q1\<rparr>" MaxTasks G "jobs @ map (task_job G) (queue_model (priorTasks p))"] assms
    by (auto simp: poller_ok_def)
  show ?thesis
    by (rule exI [of _ "p\<lparr>priorTasks := q1\<rparr>"],
        rule exI [of _ "jobs @ map (task_job G) (queue_model (priorTasks p))"],
        rule exI [of _ "p\<lparr>priorTasks := q1, tasks := q2\<rparr>"])
      (use 1 2 in \<open>simp add: poller_ok_def\<close>)
qed

section \<open>Properties\<close>


text \<open>
  After the wait, with no stop error received: if both queues are empty the flag is cleared and
  nothing else happens; if tasks are left the flag is set again and the event descriptor written,
  and the callback returns true exactly when that write succeeded.
\<close>

lemma reset_then_look_again:
  assumes "poller_ok p" and "recv_stop p = (None, p)"
    and "length (queue_model (tasks p)) < 2 ^ 32" and "length (queue_model (priorTasks p)) < 2 ^ 32"
  shows "after_wait K p =
    (if queue_model (tasks p) = [] \<and> queue_model (priorTasks p) = [] then ((None, False), p\<lparr>toTrigger := 0\<rparr>)
     else (let (e, k) = Trigger K (pollEvFd p) (kern p) in
             ((None, e = None), p\<lparr>toTrigger := 1, kern := k\<rparr>)))"
  using assms tq.isempty_ok [of "tasks p"] tq.isempty_ok [of "priorTasks p"]
  by (auto simp: after_wait_def poller_ok_def Let_def split: prod.split)

text \<open>An event descriptor as the whole kernel: its counter.\<close>

definition evfd_kernel :: "(nat, unit) kernel" where
  "evfd_kernel = \<lparr>k_epoll_ctl = (\<lambda>_ _ _ _ k. (None, k)), k_write = (\<lambda>_ d k. ((int (length d), None), k + 1)),
     k_writev = (\<lambda>_ d k. ((int (length (concat (map Base d))), 0), k)), k_readv = (\<lambda>_ _ k. ((0, [], 0), k)), k_read = (\<lambda>_ _ k. (([], None), 0)),
     k_sendto = (\<lambda>_ _ _ k. (None, k)), k_close = (\<lambda>_ k. (None, k)), k_setsockopt = (\<lambda>_ _ _ k. (None, k)),
     k_accept4 = (\<lambda>_ k. ((-1, None, Some EAGAIN), k)), k_accept = (\<lambda>_ k. ((-1, None, Some EAGAIN), k)),
     k_set_nonblock = (\<lambda>_ k. (None, k)), k_epoll_create = (\<lambda>k. ((4, None), k)), k_eventfd = (\<lambda>k. ((3, None), k))\<rparr>"

definition demo_poller :: "nat list \<Rightarrow> nat list \<Rightarrow> (nat, nat, nat list) poller" where
  "demo_poller ps ts = \<lparr>pollFd = 4, pollEvFd = 3, priorTasks = fold seq_Enqueue ps NewQueue,
     tasks = fold seq_Enqueue ts NewQueue, toTrigger = 1, Pool = PoolOpen, ErrForStop = Some [],
     ReadBufferSize = 65536, kern = 1, world = []\<rparr>"

lemma demo_poller_ok [simp]:
  "poller_ok (demo_poller ps ts) \<and> queue_model (priorTasks (demo_poller ps ts)) = ps \<and>
   queue_model (tasks (demo_poller ps ts)) = ts"
  by (simp add: demo_poller_def poller_ok_def tq.enq_all NewQueue_ok del: fold_simps)

text \<open>A callback without connections, and tasks that write their number down; task 0 shuts down.\<close>

definition idle_callback :: "'s poll_callback" where
  "idle_callback = \<lparr>IsBlocked = False, Callback = (\<lambda>_ _ s. Ret (None, s)),
     AsyncWaitCallback = (\<lambda>_ _ s. (None, [], s))\<rparr>"

definition log_task :: "nat \<Rightarrow> (nat, nat, nat list) poller \<Rightarrow> nerror \<times> (nat, nat, nat list) poller" where
  "log_task t p = (if t = 0 then Some ErrEngineShutdown else None, p\<lparr>world := world p @ [t]\<rparr>)"


theorem reset_then_look_again_witness:
  "after_wait evfd_kernel (demo_poller [] [9]) = ((None, True), (demo_poller [] [9])\<lparr>toTrigger := 1, kern := 2\<rparr>)"
proof -
  have "recv_stop (demo_poller [] [9]) = (None, demo_poller [] [9])"
    by (simp add: recv_stop_def demo_poller_def)
  moreover have "Trigger evfd_kernel 3 1 = (None, 2)"
    by (simp add: Trigger_def evfd_kernel_def SysError_def)
  moreover have "pollEvFd (demo_poller [] [9]) = 3" "kern (demo_poller [] [9]) = 1"
    by (simp_all add: demo_poller_def)
  ultimately show ?thesis
    using reset_then_look_again [of "demo_poller [] [9]" evfd_kernel] by simp
qed

text \<open>The pool may run jobs in any order, but it runs each of them once.\<close>

definition runs_all :: "('s job list \<Rightarrow> 's job list) \<Rightarrow> bool" where
  "runs_all arrange \<longleftrightarrow> (\<forall>js. mset (arrange js) = mset js)"

lemma runs_all_simps: "runs_all arrange \<Longrightarrow> arrange [] = [] \<and> arrange [j] = [j]"
  by (auto simp: runs_all_def dest: spec [of _ "[]"] spec [of _ "[j]"])

lemma drain_one_no_pool:
  assumes "Pool p = NoPool" and "poller_ok p" and "queue_model (priorTasks p) = [t]"
    and "\<And>q. G t q = (e, q)"
  shows "\<exists>q. drain_prior G jobs p = Some (jobs, p\<lparr>priorTasks := q\<rparr>) \<and> queue_inv q \<and> queue_model q = []"
proof -
  obtain r q where d: "seq_Dequeue (priorTasks p) = (r, q)" by fastforce
  then have r: "r = Some t" "queue_inv q" "queue_model q = []"
    using tq.deq_cons [OF _ assms(3) d] assms(2) by (auto simp: poller_ok_def)
  obtain r' q' where d': "seq_Dequeue q = (r', q')" by fastforce
  then have r': "r' = None" "queue_inv q'" "queue_model q' = []"
    using tq.deq_empty [OF r(2,3) d'] by auto
  have "drain_prior G jobs p = drain_prior G jobs (p\<lparr>priorTasks := q\<rparr>)"
    using d r assms by (subst drain_prior.simps) (auto simp: runTask_def split: option.split)
  also have "\<dots> = Some (jobs, p\<lparr>priorTasks := q'\<rparr>)"
    using d' r' by (subst drain_prior.simps) simp
  finally show ?thesis using r' by blast
qed

lemma drain_none: "queue_inv (tasks p) \<Longrightarrow> queue_model (tasks p) = [] \<Longrightarrow>
    \<exists>q. drain_tasks MaxTasks G jobs p = (jobs, p\<lparr>tasks := q\<rparr>) \<and> queue_inv q \<and> queue_model q = []"
  using tq.deq_empty [of "tasks p"]
  by (cases "seq_Dequeue (tasks p)") (auto simp: MaxTasks_def eval_nat_numeral split: option.split)

lemma after_wait_quiet:
  assumes "poller_ok p" and "queue_model (priorTasks p) = []" and "queue_model (tasks p) = []"
  shows "after_wait K p = (case ErrForStop p of
      Some (e # es) \<Rightarrow> ((Some e, False), p\<lparr>ErrForStop := Some es\<rparr>)
    | _ \<Rightarrow> ((None, False), p\<lparr>toTrigger := 0\<rparr>))"
  using assms tq.isempty_ok [of "tasks p"] tq.isempty_ok [of "priorTasks p"]
  by (auto simp: after_wait_def recv_stop_def poller_ok_def Let_def split: option.split list.split)

text \<open>
  Stopping works through the task queue: with the pool open, a queued task that returns
  \<open>ErrEngineShutdown\<close>, alone in the queues, makes the batch that ends with the event descriptor
  return that error from the loop over the events, so \<open>WaitPoll\<close> returns. The error goes through
  \<open>ErrForStop\<close>: without a pool the same task's error is dropped and the loop goes on.
\<close>

lemma shutdown_task_ends_loop:
  assumes "\<not> IsBlocked C" and "\<And>q. AsyncWaitCallback C efd events q = (None, [], q)"
    and "poller_ok p" and "queue_model (priorTasks p) = [t]" and "queue_model (tasks p) = []"
    and "ErrForStop p = Some []" and "\<And>q. G t q = (Some ErrEngineShutdown, q)"
    and "runs_all arrange" and "Pool p \<noteq> PoolReleased"
  shows "\<exists>p'. dispatch (start_env K wait G arrange C efd) [(efd, events)] False p =
    Ret (if Pool p = PoolOpen then Some ErrEngineShutdown else None, False, p')"
proof -
  let ?k = "snd (k_read K efd 8 (kern p))"
  let ?p = "p\<lparr>kern := ?k\<rparr>"
  have ok: "poller_ok ?p" "queue_model (priorTasks ?p) = [t]" "queue_model (tasks ?p) = []"
    using assms(3-5) by (simp_all add: poller_ok_def)
  have loop: "dispatch (start_env K wait G arrange C efd) [(efd, events)] False p =
      go_bind (start_callback K G arrange C efd events True ?p) (\<lambda>((tr, err), s2).
        case doWaitCallbackErr err of Some e \<Rightarrow> Ret (Some e, tr, s2) | None \<Rightarrow> Ret (None, tr, s2))"
    by (auto simp: start_env_def split: option.split intro!: go_bind_cong)
  have callback: "start_callback K G arrange C efd events True ?p =
      (case drain_prior G [] ?p of None \<Rightarrow> Blocked
       | Some (jobs2, p2) \<Rightarrow> (let (jobs3, p3) = drain_tasks MaxTasks G jobs2 p2 in
           go_bind (run_jobs (arrange jobs3) p3) (\<lambda>p4. case after_wait K p4 of
               ((Some e, tr), p5) \<Rightarrow> Ret ((tr, Some e), p5)
             | ((None, tr), p5) \<Rightarrow> end_callback C None efd events tr p5)))"
    using assms(1,2) by (simp add: start_callback_def)
  show ?thesis
  proof (cases "Pool p")
    case PoolOpen
    then have po: "Pool ?p = PoolOpen" by simp
    obtain jobs2 p2 p3 where d: "drain_prior G [] ?p = Some (jobs2, p2)"
        "drain_tasks MaxTasks G jobs2 p2 = ([task_job G t], p3)"
        "p3 = ?p\<lparr>priorTasks := priorTasks p3, tasks := tasks p3\<rparr>"
        and p3: "poller_ok p3" "queue_model (priorTasks p3) = []" "queue_model (tasks p3) = []"
      using drain_all_open [OF po ok(1), of G "[]"] ok by auto
    have "ErrForStop p3 = Some []" using assms(6) by (subst d(3)) simp
    then have "task_job G t p3 = Some (p3\<lparr>ErrForStop := Some [ErrEngineShutdown]\<rparr>)"
      using assms(7) by (simp add: task_job_def fatal_error_def send_stop_def)
    moreover have "after_wait K (p3\<lparr>ErrForStop := Some [ErrEngineShutdown]\<rparr>) =
        ((Some ErrEngineShutdown, False), p3\<lparr>ErrForStop := Some []\<rparr>)"
      using after_wait_quiet [of "p3\<lparr>ErrForStop := Some [ErrEngineShutdown]\<rparr>" K] p3 by (simp add: poller_ok_def)
    ultimately show ?thesis
      using loop callback d PoolOpen runs_all_simps [OF assms(8), of "task_job G t"]
      by (simp add: doWaitCallbackErr_def fatal_error_def)
  next
    case NoPool
    then obtain q where q: "drain_prior G [] ?p = Some ([], ?p\<lparr>priorTasks := q\<rparr>)" "queue_inv q" "queue_model q = []"
      using drain_one_no_pool [of ?p t G _ "[]"] ok assms(7) by auto
    moreover obtain q2 where "drain_tasks MaxTasks G [] (?p\<lparr>priorTasks := q\<rparr>) =
        ([], ?p\<lparr>priorTasks := q, tasks := q2\<rparr>)" "queue_inv q2" "queue_model q2 = []"
      using drain_none [of "?p\<lparr>priorTasks := q\<rparr>" G "[]"] ok by (auto simp: poller_ok_def)
    moreover have "after_wait K (?p\<lparr>priorTasks := q, tasks := q2\<rparr>) =
        ((None, False), ?p\<lparr>priorTasks := q, tasks := q2, toTrigger := 0\<rparr>)"
      if "queue_inv q2" "queue_model q2 = []" for q2
      using after_wait_quiet [of "?p\<lparr>priorTasks := q, tasks := q2\<rparr>" K] that q assms(6)
      by (simp add: poller_ok_def)
    ultimately show ?thesis
      using loop callback NoPool runs_all_simps [OF assms(8)] assms(1)
      by (simp add: end_callback_def doWaitCallbackErr_def)
  qed (use assms(9) in simp)
qed

theorem shutdown_task_ends_loop_witness:
  "\<exists>p'. dispatch (start_env evfd_kernel (\<lambda>_ _ k. (Inr [], k)) (\<lambda>t q. (Some ErrEngineShutdown, q)) id idle_callback 3)
     [(3, 1)] False (demo_poller [0] []) = Ret (Some ErrEngineShutdown, False, p')"
proof -
  have cb: "\<not> IsBlocked idle_callback" "\<And>q. AsyncWaitCallback idle_callback 3 1 q = (None, [], q)"
    by (simp_all add: idle_callback_def)
  have p: "ErrForStop (demo_poller [0] []) = Some []" "Pool (demo_poller [0] []) = PoolOpen"
    by (simp_all add: demo_poller_def)
  show ?thesis
    using shutdown_task_ends_loop [OF cb, of "demo_poller [0] []" 0 "\<lambda>t q. (Some ErrEngineShutdown, q)" id
        evfd_kernel "\<lambda>_ _ k. (Inr [], k)"] p
    by (simp add: runs_all_def del: dispatch.simps)
qed

text \<open>With a false \<open>trigger\<close> the callback neither looks at the queues nor returns true.\<close>

lemma end_callback_false:
  assumes "end_callback C ch fd events False p = Ret ((t, e), p')"
  shows "\<not> t"
proof -
  obtain err p1 where "(case (case ch of None \<Rightarrow> (None, p1) | Some r \<Rightarrow> r p1) of
         (Some e, p2) \<Rightarrow> Ret ((False, Some e), p2)
       | (None, p2) \<Rightarrow> Ret ((if err \<noteq> None then False else False, err), p2)) = Ret ((t, e), p')"
    using assms by (auto simp: end_callback_def go_bind_eq_Ret)
  then show ?thesis
    by (cases "case ch of None \<Rightarrow> (None, p1) | Some r \<Rightarrow> r p1") (auto split: option.splits)
qed

lemma start_callback_false: "start_callback K G arrange C fd events False p = Ret ((t, e), p') \<Longrightarrow> \<not> t"
  by (auto simp: start_callback_def Let_def go_bind_eq_Ret split: prod.splits dest: end_callback_false)

text \<open>
  The order of the events in a batch decides whether queued tasks are seen. A batch whose last
  event is not the event descriptor behaves exactly as if the callback were never triggered,
  even when the event descriptor is in the batch and has been read empty: the queues are not
  looked at, and \<open>toTrigger\<close> is not reset.
\<close>

lemma wake_up_missed_unless_last:
  assumes "evs \<noteq> []" and "fst (last evs) \<noteq> efd"
  shows "dispatch (start_env K wait G arrange C efd) evs False p =
    dispatch ((start_env K wait G arrange C efd)\<lparr>wcb := \<lambda>fd ev _. start_callback K G arrange C fd ev False\<rparr>)
      evs False p"
proof -
  let ?E = "start_env K wait G arrange C efd"
  have no: "\<And>fd ev s t e s'. wcb ?E fd ev False s = Ret ((t, e), s') \<Longrightarrow> \<not> t"
    using start_callback_false [of K G arrange C] by (simp add: start_env_def)
  have "dispatch ?E evs False p = dispatch (?E\<lparr>wcb := \<lambda>fd ev _. wcb ?E fd ev False\<rparr>) evs False p"
    by (rule dispatch_never_triggers [OF no]) (use assms in \<open>auto simp: start_env_def\<close>)
  then show ?thesis by (simp add: start_env_def)
qed

theorem wake_up_missed_unless_last_witness:
  "dispatch (start_env evfd_kernel (\<lambda>_ _ k. (Inr [], k)) log_task id idle_callback 3)
     [(3, 1), (7, 1)] False (demo_poller [5] []) = Ret (None, False, (demo_poller [5] [])\<lparr>kern := 0\<rparr>)"
proof -
  have 1: "start_callback evfd_kernel log_task id idle_callback fd ev False q = Ret ((False, None), q)" for fd ev q
    by (simp add: start_callback_def end_callback_def idle_callback_def)
  have 2: "snd (k_read evfd_kernel 3 8 k) = 0" for k by (simp add: evfd_kernel_def)
  show ?thesis
    by (subst wake_up_missed_unless_last) (simp_all add: 1 2 start_env_def doWaitCallbackErr_def)
qed

end
