(* ===== verification/Conn.thy ===== *)
theory Conn
  imports Utils SysCalls Sockets "HOL-Library.Sublist"
begin

text \<open>
  The connection of package conn: \<open>conn.go\<close>, \<open>conn_write.go\<close>, \<open>conn_read.go\<close>, \<open>conn_handler.go\<close>,
  \<open>conn_adapter.go\<close>, \<open>conn_context.go\<close> and \<open>conn_buffer_pool.go\<close>. The two elastic buffers come from
  another module: they are records of operations, and what the code relies on is the predicate
  \<open>elastic_ok\<close>. The kernel is the record of \<open>SysCalls\<close>. The user's handler, the TLS handshake and
  the event loop that owns the connection are functions of the environment.
\<close>

section \<open>State\<close>

record 'ob out_ops =
  ob_IsEmpty :: "'ob \<Rightarrow> bool"
  ob_Peek :: "int \<Rightarrow> 'ob \<Rightarrow> bytes list"
  ob_Discard :: "int \<Rightarrow> 'ob \<Rightarrow> 'ob"
  ob_Write :: "bytes \<Rightarrow> 'ob \<Rightarrow> (int \<times> nerror) \<times> 'ob"
  ob_Writev :: "bytes list \<Rightarrow> 'ob \<Rightarrow> 'ob"
  ob_Release :: "'ob \<Rightarrow> 'ob"
  ob_New :: "int \<Rightarrow> 'ob"

record 'rb ring_ops =
  rb_IsEmpty :: "'rb \<Rightarrow> bool"
  rb_Read :: "nat \<Rightarrow> 'rb \<Rightarrow> bytes \<times> 'rb"
  rb_Write :: "bytes \<Rightarrow> 'rb \<Rightarrow> 'rb"
  rb_Done :: "'rb \<Rightarrow> 'rb"
  rb_Zero :: "'rb"

text \<open>
  What the documentation of the elastic buffers promises: they are byte queues. \<open>Peek\<close> with a
  number that is not positive shows everything, \<open>Discard\<close> removes from the front, and the writes
  append everything they are given.
\<close>

definition elastic_ok :: "'ob out_ops \<Rightarrow> ('ob \<Rightarrow> bytes) \<Rightarrow> bool" where
  "elastic_ok B cont \<longleftrightarrow>
     (\<forall>b. ob_IsEmpty B b \<longleftrightarrow> cont b = []) \<and>
     (\<forall>n b. n \<le> 0 \<longrightarrow> concat (ob_Peek B n b) = cont b) \<and>
     (\<forall>n b. cont (ob_Discard B n b) = drop (nat n) (cont b)) \<and>
     (\<forall>d b. fst (ob_Write B d b) = (int (length d), None) \<and> cont (snd (ob_Write B d b)) = cont b @ d) \<and>
     (\<forall>ds b. cont (ob_Writev B ds b) = cont b @ concat ds) \<and>
     (\<forall>b. cont (ob_Release B b) = [])"

definition ring_ok :: "'rb ring_ops \<Rightarrow> ('rb \<Rightarrow> bytes) \<Rightarrow> bool" where
  "ring_ok R cont \<longleftrightarrow>
     (\<forall>b. rb_IsEmpty R b \<longleftrightarrow> cont b = []) \<and>
     (\<forall>n b. fst (rb_Read R n b) = take n (cont b) \<and> cont (snd (rb_Read R n b)) = drop n (cont b)) \<and>
     (\<forall>d b. cont (rb_Write R d b) = cont b @ d) \<and>
     cont (rb_Zero R) = []"

datatype adapter = ConnAsyncWriteAdapter | ConnNoneAdapter | ConnWritevAdapter | ConnAsyncWritevAdapter

text \<open>
  What a context writes to: the connection itself or one of the adapters, two of them with a callback.
  \<open>Adapt\<close> never makes a \<open>WritevConn\<close>.
\<close>

datatype 'cb adapted = Plain | WritevConn | AsyncWriteConn "'cb option" | AsyncWritevConn "'cb option"

text \<open>The context keeps the adapted connection and whether TLS is wrapped around it.\<close>

record 'cb ctx =
  ctx_conn :: "'cb adapted"
  ctx_tls :: bool

record ('cb, 'ob, 'rb, 'sa, 'k, 'w) conn =
  Fd :: int
  PollFd :: int
  Sock :: "'sa option"
  AddrLocal :: "netaddr option"
  AddrRemote :: "netaddr option"
  OutBuffer :: 'ob
  InBuffer :: 'rb
  Buffer :: bytes
  IsUDP :: bool
  Ctx :: "'cb ctx option"
  Opened :: bool
  WritevChunkSize :: int
  ErrChan :: "error list"
  ckern :: 'k
  cworld :: 'w

text \<open>The arguments of the two asynchronous write hooks.\<close>

datatype 'cb write_task = AsyncWriteHook "'cb option" bytes | AsyncWritevHook "'cb option" "bytes list"

record ('cb, 'ob, 'rb, 'sa, 'k, 'w) conn_env =
  kernel_of :: "('k, 'sa) kernel"
  out_of :: "'ob out_ops"
  ring_of :: "'rb ring_ops"
  readBufSize :: nat
  onOpen :: "('cb, 'ob, 'rb, 'sa, 'k, 'w) conn \<Rightarrow> (bytes option \<times> nerror) \<times> ('cb, 'ob, 'rb, 'sa, 'k, 'w) conn"
  onTrack :: "('cb, 'ob, 'rb, 'sa, 'k, 'w) conn \<Rightarrow> nerror \<times> ('cb, 'ob, 'rb, 'sa, 'k, 'w) conn"
  onClose :: "('cb, 'ob, 'rb, 'sa, 'k, 'w) conn \<Rightarrow> nerror \<times> ('cb, 'ob, 'rb, 'sa, 'k, 'w) conn"
  handshake :: "('cb, 'ob, 'rb, 'sa, 'k, 'w) conn \<Rightarrow> nerror \<times> ('cb, 'ob, 'rb, 'sa, 'k, 'w) conn"
  hookGo :: "'cb \<Rightarrow> ('cb, 'ob, 'rb, 'sa, 'k, 'w) conn \<Rightarrow> nerror \<times> ('cb, 'ob, 'rb, 'sa, 'k, 'w) conn"
  removeConn :: "int \<Rightarrow> 'w \<Rightarrow> 'w"
  pollerAddTask :: "'cb write_task \<Rightarrow> ('cb, 'ob, 'rb, 'sa, 'k, 'w) conn \<Rightarrow> nerror \<times> ('cb, 'ob, 'rb, 'sa, 'k, 'w) conn"

section \<open>Creation and release\<close>

definition NewTCPConn :: "('cb, 'ob, 'rb, 'sa, 'k, 'w) conn_env \<Rightarrow> int \<Rightarrow> 'ob \<Rightarrow> 'k \<Rightarrow> 'w \<Rightarrow>
    ('cb, 'ob, 'rb, 'sa, 'k, 'w) conn" where
  "NewTCPConn E fd nil_out k w =
     \<lparr>Fd = fd, PollFd = 0, Sock = None, AddrLocal = None, AddrRemote = None, OutBuffer = nil_out,
      InBuffer = rb_Zero (ring_of E), Buffer = [], IsUDP = False, Ctx = None, Opened = False,
      WritevChunkSize = 0, ErrChan = [], ckern = k, cworld = w\<rparr>"

record 'sa conn_opts =
  co_PollFd :: "int option"
  co_SockAddr :: "'sa option"
  co_LocalAddr :: "netaddr option"
  co_RemoteAddr :: "netaddr option"
  co_WriteBufferCap :: int
  co_WritevChunkSize :: int
  co_SocketWriteBuffer :: int
  co_SocketReadBuffer :: int

definition DefaultWritevChunkSize :: int where "DefaultWritevChunkSize = 2048"
definition IovMax :: nat where "IovMax = 1024"

text \<open>\<open>SetConn\<close>: nil options leave the fields alone; the errors of the two setters are dropped.\<close>

definition SetConn :: "('cb, 'ob, 'rb, 'sa, 'k, 'w) conn_env \<Rightarrow> 'sa conn_opts \<Rightarrow>
    ('cb, 'ob, 'rb, 'sa, 'k, 'w) conn \<Rightarrow> ('cb, 'ob, 'rb, 'sa, 'k, 'w) conn" where
  "SetConn E co c =
     (let wbc = (if co_WriteBufferCap co \<le> 0 then 1024 else co_WriteBufferCap co);
          k1 = (if co_SocketReadBuffer co > 0
                then snd (SetRecvBufferSize (kernel_of E) (Fd c) (co_SocketReadBuffer co) (ckern c)) else ckern c);
          k2 = (if co_SocketWriteBuffer co > 0
                then snd (SetSendBufferSize (kernel_of E) (Fd c) (co_SocketWriteBuffer co) k1) else k1) in
      c\<lparr>PollFd := (case co_PollFd co of Some p \<Rightarrow> p | None \<Rightarrow> PollFd c),
        Sock := (case co_SockAddr co of Some s \<Rightarrow> Some s | None \<Rightarrow> Sock c),
        AddrLocal := (case co_LocalAddr co of Some a \<Rightarrow> Some a | None \<Rightarrow> AddrLocal c),
        AddrRemote := (case co_RemoteAddr co of Some a \<Rightarrow> Some a | None \<Rightarrow> AddrRemote c),
        OutBuffer := ob_New (out_of E) wbc,
        WritevChunkSize := (if co_WritevChunkSize co = 0 then DefaultWritevChunkSize else co_WritevChunkSize co),
        ckern := k2\<rparr>)"

definition releaseUDP :: "('cb, 'ob, 'rb, 'sa, 'k, 'w) conn \<Rightarrow> ('cb, 'ob, 'rb, 'sa, 'k, 'w) conn" where
  "releaseUDP c = c\<lparr>Ctx := None, AddrLocal := None, AddrRemote := None, Buffer := []\<rparr>"

definition releaseTCP :: "('cb, 'ob, 'rb, 'sa, 'k, 'w) conn_env \<Rightarrow> ('cb, 'ob, 'rb, 'sa, 'k, 'w) conn \<Rightarrow>
    ('cb, 'ob, 'rb, 'sa, 'k, 'w) conn" where
  "releaseTCP E c =
     c\<lparr>Ctx := None, Opened := False, Sock := None, Buffer := [], AddrLocal := None, AddrRemote := None,
       InBuffer := rb_Done (ring_of E) (InBuffer c), OutBuffer := ob_Release (out_of E) (OutBuffer c)\<rparr>"

section \<open>Close\<close>

fun network :: "netaddr \<Rightarrow> string" where
  "network (TCPAddr ip port zone) = ''tcp''"
| "network (UDPAddr ip port zone) = ''udp''"
| "network (UnixAddr name net) = net"

text \<open>
  The loop that flushes the output buffer before closing: it ends when the buffer is empty or the
  first \<open>writev\<close> fails. \<open>None\<close> is a loop that does not end.
\<close>

partial_function (option) close_flush :: "('cb, 'ob, 'rb, 'sa, 'k, 'w) conn_env \<Rightarrow>
    ('cb, 'ob, 'rb, 'sa, 'k, 'w) conn \<Rightarrow> ('cb, 'ob, 'rb, 'sa, 'k, 'w) conn option" where
  "close_flush E c =
     (if ob_IsEmpty (out_of E) (OutBuffer c) then Some c
      else (case Writev (kernel_of E) (Fd c) (take IovMax (ob_Peek (out_of E) 0 (OutBuffer c))) (ckern c) of
              ((n, e), k) \<Rightarrow>
                if e \<noteq> None then Some (c\<lparr>ckern := k\<rparr>)
                else close_flush E (c\<lparr>ckern := k, OutBuffer := ob_Discard (out_of E) n (OutBuffer c)\<rparr>)))"

text \<open>The error that \<open>Close\<close> builds from those of \<open>RemoveFd\<close> and \<open>CloseFd\<close>.\<close>

definition close_error :: "int \<Rightarrow> nerror \<Rightarrow> nerror \<Rightarrow> nerror" where
  "close_error fd err0 err1 =
     (let r0 = map_option (Errorf ''failed to delete fd from poller'' fd) err0 in
      case map_option (Errorf ''failed to close fd'' fd) err1 of
        None \<Rightarrow> r0
      | Some e1 \<Rightarrow> Some (case r0 of Some e0 \<Rightarrow> JoinedError e0 e1 | None \<Rightarrow> e1))"

definition conn_Close :: "('cb, 'ob, 'rb, 'sa, 'k, 'w) conn_env \<Rightarrow> ('cb, 'ob, 'rb, 'sa, 'k, 'w) conn \<Rightarrow>
    (nerror \<times> ('cb, 'ob, 'rb, 'sa, 'k, 'w) conn) go" where
  "conn_Close E c =
     (if (case AddrLocal c of Some a \<Rightarrow> is_prefix ''udp'' (network a) | None \<Rightarrow> False)
      then Ret (None, releaseUDP c)
      else if \<not> Opened c then Ret (None, c)
      else (case close_flush E c of
              None \<Rightarrow> Blocked
            | Some c1 \<Rightarrow>
                (let (err0, k1) = UnRegister (kernel_of E) (PollFd c1) (Fd c1) (ckern c1);
                     (err1, k2) = CloseFd (kernel_of E) (Fd c1) k1;
                     c2 = c1\<lparr>ckern := k2, cworld := removeConn E (Fd c1) (cworld c1)\<rparr>;
                     (oc, c3) = onClose E c2;
                     rerr = (if oc \<noteq> None then Some ErrEngineShutdown else close_error (Fd c1) err0 err1) in
                 Ret (rerr, releaseTCP E c3))))"

section \<open>Writing\<close>

text \<open>\<open>on_poll\<close> is a descriptor method of the connection's poller applied to the connection.\<close>

definition on_poll :: "(int \<Rightarrow> int \<Rightarrow> 'k \<Rightarrow> nerror \<times> 'k) \<Rightarrow> ('cb, 'ob, 'rb, 'sa, 'k, 'w) conn \<Rightarrow>
    nerror \<times> ('cb, 'ob, 'rb, 'sa, 'k, 'w) conn" where
  "on_poll f c = (case f (PollFd c) (Fd c) (ckern c) of (e, k) \<Rightarrow> (e, c\<lparr>ckern := k\<rparr>))"

definition buffer_out :: "('cb, 'ob, 'rb, 'sa, 'k, 'w) conn_env \<Rightarrow> bytes \<Rightarrow> ('cb, 'ob, 'rb, 'sa, 'k, 'w) conn \<Rightarrow>
    ('cb, 'ob, 'rb, 'sa, 'k, 'w) conn" where
  "buffer_out E d c = c\<lparr>OutBuffer := snd (ob_Write (out_of E) d (OutBuffer c))\<rparr>"

definition conn_write :: "('cb, 'ob, 'rb, 'sa, 'k, 'w) conn_env \<Rightarrow> bytes \<Rightarrow> ('cb, 'ob, 'rb, 'sa, 'k, 'w) conn \<Rightarrow>
    ((int \<times> nerror) \<times> ('cb, 'ob, 'rb, 'sa, 'k, 'w) conn) go" where
  "conn_write E data c =
     (if \<not> ob_IsEmpty (out_of E) (OutBuffer c)
      then Ret (fst (ob_Write (out_of E) data (OutBuffer c)), buffer_out E data c)
      else (case Write (kernel_of E) (Fd c) data (ckern c) of
              ((sent, Some e), k) \<Rightarrow>
                (let c1 = c\<lparr>ckern := k\<rparr> in
                 if e = EAGAIN
                 then (case on_poll (ModReadWrite (kernel_of E)) (buffer_out E data c1) of
                         (err, c2) \<Rightarrow> Ret ((int (length data), err), c2))
                 else go_bind (conn_Close E c1) (\<lambda>(err, c2). Ret ((-1, err), c2)))
            | ((sent, None), k) \<Rightarrow>
                (let c1 = c\<lparr>ckern := k\<rparr> in
                 if sent < int (length data)
                 then (case on_poll (ModReadWrite (kernel_of E)) (buffer_out E (drop (nat sent) data) c1) of
                         (err, c2) \<Rightarrow> Ret ((int (length data), err), c2))
                 else Ret ((int (length data), None), c1))))"

text \<open>
  The loop of \<open>writev\<close> that finds the first chunk the kernel has not taken in full. If there were
  none, \<open>pos\<close> would stay 0 and the whole data would be buffered.
\<close>

fun unsent :: "int \<Rightarrow> bytes list \<Rightarrow> bytes list option" where
  "unsent sent [] = None"
| "unsent sent (d # ds) =
     (if sent < int (length d) then Some (drop (nat sent) d # ds) else unsent (sent - int (length d)) ds)"

definition buffer_outv :: "('cb, 'ob, 'rb, 'sa, 'k, 'w) conn_env \<Rightarrow> bytes list \<Rightarrow> ('cb, 'ob, 'rb, 'sa, 'k, 'w) conn \<Rightarrow>
    ('cb, 'ob, 'rb, 'sa, 'k, 'w) conn" where
  "buffer_outv E ds c = c\<lparr>OutBuffer := ob_Writev (out_of E) ds (OutBuffer c)\<rparr>"

definition conn_writev :: "('cb, 'ob, 'rb, 'sa, 'k, 'w) conn_env \<Rightarrow> bytes list \<Rightarrow> ('cb, 'ob, 'rb, 'sa, 'k, 'w) conn \<Rightarrow>
    ((int \<times> nerror) \<times> ('cb, 'ob, 'rb, 'sa, 'k, 'w) conn) go" where
  "conn_writev E data c =
     (let n = int (length (concat data)) in
      if \<not> ob_IsEmpty (out_of E) (OutBuffer c) then Ret ((n, None), buffer_outv E data c)
      else (case Writev (kernel_of E) (Fd c) data (ckern c) of
              ((sent, Some e), k) \<Rightarrow>
                (let c1 = c\<lparr>ckern := k\<rparr> in
                 if e = EAGAIN
                 then (case on_poll (ModReadWrite (kernel_of E)) (buffer_outv E data c1) of
                         (err, c2) \<Rightarrow> Ret ((n, err), c2))
                 else go_bind (conn_Close E c1) (\<lambda>(err, c2). Ret ((-1, err), c2)))
            | ((sent, None), k) \<Rightarrow>
                (let c1 = c\<lparr>ckern := k\<rparr>;
                     rest = (case unsent sent data of Some r \<Rightarrow> r | None \<Rightarrow> data) in
                 if sent < n
                 then (case on_poll (ModReadWrite (kernel_of E)) (buffer_outv E rest c1) of
                         (err, c2) \<Rightarrow> Ret ((n, err), c2))
                 else Ret ((n, None), c1))))"

definition writeUdp :: "('cb, 'ob, 'rb, 'sa, 'k, 'w) conn_env \<Rightarrow> bytes \<Rightarrow> ('cb, 'ob, 'rb, 'sa, 'k, 'w) conn \<Rightarrow>
    nerror \<times> ('cb, 'ob, 'rb, 'sa, 'k, 'w) conn" where
  "writeUdp E data c =
     (case WriteUdp (kernel_of E) (Fd c) data (Sock c) (ckern c) of (e, k) \<Rightarrow> (e, c\<lparr>ckern := k\<rparr>))"

definition conn_Write :: "('cb, 'ob, 'rb, 'sa, 'k, 'w) conn_env \<Rightarrow> bytes \<Rightarrow> ('cb, 'ob, 'rb, 'sa, 'k, 'w) conn \<Rightarrow>
    ((int \<times> nerror) \<times> ('cb, 'ob, 'rb, 'sa, 'k, 'w) conn) go" where
  "conn_Write E p c =
     (if IsUDP c
      then (case writeUdp E p c of (e, c') \<Rightarrow> Ret (if e = None then ((int (length p), None), c') else ((0, e), c')))
      else conn_write E p c)"

definition conn_Writev :: "('cb, 'ob, 'rb, 'sa, 'k, 'w) conn_env \<Rightarrow> bytes list \<Rightarrow> ('cb, 'ob, 'rb, 'sa, 'k, 'w) conn \<Rightarrow>
    ((int \<times> nerror) \<times> ('cb, 'ob, 'rb, 'sa, 'k, 'w) conn) go" where
  "conn_Writev E bs c = (if IsUDP c then Ret ((0, Some ErrUnsupportedOp), c) else conn_writev E bs c)"

definition run_hook :: "('cb, 'ob, 'rb, 'sa, 'k, 'w) conn_env \<Rightarrow> 'cb option \<Rightarrow> ('cb, 'ob, 'rb, 'sa, 'k, 'w) conn \<Rightarrow>
    nerror \<times> ('cb, 'ob, 'rb, 'sa, 'k, 'w) conn" where
  "run_hook E cb c = (case cb of None \<Rightarrow> (None, c) | Some f \<Rightarrow> hookGo E f c)"

text \<open>
  The two tasks. \<open>asyncWrite\<close> drops the callback's result and returns the write's; \<open>asyncWritev\<close>
  overwrites the write's error with the callback's result when there is a callback. On a closed
  connection neither calls the callback.
\<close>

definition asyncWrite :: "('cb, 'ob, 'rb, 'sa, 'k, 'w) conn_env \<Rightarrow> 'cb option \<Rightarrow> bytes \<Rightarrow>
    ('cb, 'ob, 'rb, 'sa, 'k, 'w) conn \<Rightarrow> (nerror \<times> ('cb, 'ob, 'rb, 'sa, 'k, 'w) conn) go" where
  "asyncWrite E cb data c =
     (if \<not> Opened c then Ret (None, c)
      else go_bind (conn_write E data c) (\<lambda>((n, err), c1). Ret (err, snd (run_hook E cb c1))))"

definition asyncWritev :: "('cb, 'ob, 'rb, 'sa, 'k, 'w) conn_env \<Rightarrow> 'cb option \<Rightarrow> bytes list \<Rightarrow>
    ('cb, 'ob, 'rb, 'sa, 'k, 'w) conn \<Rightarrow> (nerror \<times> ('cb, 'ob, 'rb, 'sa, 'k, 'w) conn) go" where
  "asyncWritev E cb data c =
     (if \<not> Opened c then Ret (None, c)
      else go_bind (conn_writev E data c) (\<lambda>((n, err), c1).
        if cb = None then Ret (err, c1) else Ret (run_hook E cb c1)))"

definition AsyncWrite :: "('cb, 'ob, 'rb, 'sa, 'k, 'w) conn_env \<Rightarrow> bytes \<Rightarrow> 'cb option \<Rightarrow>
    ('cb, 'ob, 'rb, 'sa, 'k, 'w) conn \<Rightarrow> nerror \<times> ('cb, 'ob, 'rb, 'sa, 'k, 'w) conn" where
  "AsyncWrite E data cb c =
     (if IsUDP c then (case writeUdp E data c of (e, c1) \<Rightarrow> (e, snd (run_hook E cb c1)))
      else pollerAddTask E (AsyncWriteHook cb data) c)"

definition AsyncWritev :: "('cb, 'ob, 'rb, 'sa, 'k, 'w) conn_env \<Rightarrow> bytes list \<Rightarrow> 'cb option \<Rightarrow>
    ('cb, 'ob, 'rb, 'sa, 'k, 'w) conn \<Rightarrow> nerror \<times> ('cb, 'ob, 'rb, 'sa, 'k, 'w) conn" where
  "AsyncWritev E bs cb c =
     (if IsUDP c then (Some ErrUnsupportedOp, c) else pollerAddTask E (AsyncWritevHook cb bs) c)"

fun run_write_task :: "('cb, 'ob, 'rb, 'sa, 'k, 'w) conn_env \<Rightarrow> 'cb write_task \<Rightarrow>
    ('cb, 'ob, 'rb, 'sa, 'k, 'w) conn \<Rightarrow> (nerror \<times> ('cb, 'ob, 'rb, 'sa, 'k, 'w) conn) go" where
  "run_write_task E (AsyncWriteHook cb d) c = asyncWrite E cb d c"
| "run_write_task E (AsyncWritevHook cb ds) c = asyncWritev E cb ds c"

section \<open>Reading\<close>

text \<open>\<open>conn_Read\<close> gives the bytes copied into \<open>p\<close>, whose length is \<open>m\<close>.\<close>

definition conn_Read :: "('cb, 'ob, 'rb, 'sa, 'k, 'w) conn_env \<Rightarrow> nat \<Rightarrow> ('cb, 'ob, 'rb, 'sa, 'k, 'w) conn \<Rightarrow>
    (bytes \<times> nerror) \<times> ('cb, 'ob, 'rb, 'sa, 'k, 'w) conn" where
  "conn_Read E m c =
     (if rb_IsEmpty (ring_of E) (InBuffer c)
      then (let d = take m (Buffer c) in
            ((d, if d = [] \<and> m > 0 then Some EOF else None), c\<lparr>Buffer := drop (length d) (Buffer c)\<rparr>))
      else (case rb_Read (ring_of E) m (InBuffer c) of
              (d, rb) \<Rightarrow>
                (let c1 = c\<lparr>InBuffer := rb\<rparr> in
                 if length d = m then ((d, None), c1)
                 else (let d2 = take (m - length d) (Buffer c1) in
                       ((d @ d2, None), c1\<lparr>Buffer := drop (length d2) (Buffer c1)\<rparr>)))))"

section \<open>The pool of read buffers\<close>

text \<open>
  One pool for the whole process. The first \<open>Get\<close> gives it a \<open>New\<close> function with the buffer size of its
  caller; \<open>None\<close> is the pool before that. A buffer is its length here: a reader overwrites it.
\<close>

record read_pool =
  rp_New :: "nat option"
  rp_items :: "nat list"

definition GetBufferFromPool :: "nat \<Rightarrow> read_pool \<Rightarrow> nat \<times> read_pool" where
  "GetBufferFromPool readBufferSize rp =
     (let rp1 = (if rp_New rp = None then rp\<lparr>rp_New := Some readBufferSize\<rparr> else rp) in
      case rp_items rp1 of
        [] \<Rightarrow> (the (rp_New rp1), rp1)
      | b # bs \<Rightarrow> (b, rp1\<lparr>rp_items := bs\<rparr>))"

definition PutBufferToPool :: "nat \<Rightarrow> read_pool \<Rightarrow> read_pool" where
  "PutBufferToPool b rp = rp\<lparr>rp_items := b # rp_items rp\<rparr>"

text \<open>
  The first connection decides for all: once the pool has a size, every buffer it holds and every
  buffer it gives has that size, whatever size the poller of the caller was configured with.
\<close>

definition pool_size :: "nat \<Rightarrow> read_pool \<Rightarrow> bool" where
  "pool_size n rp \<longleftrightarrow> rp_New rp = Some n \<and> (\<forall>b\<in>set (rp_items rp). b = n)"

lemma first_buffer_size_wins:
  assumes "pool_size n rp" "GetBufferFromPool m rp = (b, rp1)"
  shows "b = n" "pool_size n rp1" "pool_size n (PutBufferToPool b rp1)"
  using assms by (auto simp: pool_size_def GetBufferFromPool_def PutBufferToPool_def Let_def split: list.splits)

lemma first_get_fixes_size: "GetBufferFromPool m \<lparr>rp_New = None, rp_items = []\<rparr> = (b, rp) \<Longrightarrow> b = m \<and> pool_size m rp"
  by (auto simp: GetBufferFromPool_def pool_size_def)

section \<open>The event handlers\<close>

text \<open>The non-blocking send on \<open>ErrChan\<close>, whose capacity is 1; other errors are only logged.\<close>

definition sendErr :: "nerror \<Rightarrow> ('cb, 'ob, 'rb, 'sa, 'k, 'w) conn \<Rightarrow> ('cb, 'ob, 'rb, 'sa, 'k, 'w) conn" where
  "sendErr err c =
     (case err of
        None \<Rightarrow> c
      | Some e \<Rightarrow>
          if e = ErrEngineShutdown \<or> e = ErrAcceptSocket
          then (if length (ErrChan c) < 1 then c\<lparr>ErrChan := ErrChan c @ [e]\<rparr> else c)
          else c)"

definition conn_ReadFromFd :: "('cb, 'ob, 'rb, 'sa, 'k, 'w) conn_env \<Rightarrow> ('cb, 'ob, 'rb, 'sa, 'k, 'w) conn \<Rightarrow>
    (nerror \<times> ('cb, 'ob, 'rb, 'sa, 'k, 'w) conn) go" where
  "conn_ReadFromFd E c =
     (case Read (kernel_of E) (Fd c) (readBufSize E) (ckern c) of
        ((data, err), k) \<Rightarrow>
          (let c1 = c\<lparr>ckern := k\<rparr> in
           if err \<noteq> None \<or> data = []
           then (if err = Some EAGAIN then Ret (None, c1) else conn_Close E c1)
           else (case onTrack E (c1\<lparr>Buffer := data\<rparr>) of
                   (e, c2) \<Rightarrow> Ret (e, c2\<lparr>InBuffer := rb_Write (ring_of E) (Buffer c2) (InBuffer c2)\<rparr>))))"

text \<open>Indexing \<open>iov[0]\<close> panics when \<open>Peek\<close> shows no chunk at all.\<close>

definition send_iov :: "('cb, 'ob, 'rb, 'sa, 'k, 'w) conn_env \<Rightarrow> ('cb, 'ob, 'rb, 'sa, 'k, 'w) conn \<Rightarrow>
    ((int \<times> nerror) \<times> 'k) go" where
  "send_iov E c =
     (let iov = ob_Peek (out_of E) (-1) (OutBuffer c) in
      if length iov > 1 then Ret (Writev (kernel_of E) (Fd c) (take IovMax iov) (ckern c))
      else go_bind (index_expr iov 0) (\<lambda>d. Ret (Write (kernel_of E) (Fd c) d (ckern c))))"

definition conn_WriteToFd :: "('cb, 'ob, 'rb, 'sa, 'k, 'w) conn_env \<Rightarrow> ('cb, 'ob, 'rb, 'sa, 'k, 'w) conn \<Rightarrow>
    (nerror \<times> ('cb, 'ob, 'rb, 'sa, 'k, 'w) conn) go" where
  "conn_WriteToFd E c =
     go_bind (send_iov E c) (\<lambda>((n, err), k).
       let c1 = c\<lparr>ckern := k, OutBuffer := ob_Discard (out_of E) n (OutBuffer c)\<rparr> in
       case err of
         None \<Rightarrow> Ret (None, if ob_IsEmpty (out_of E) (OutBuffer c1)
                          then snd (on_poll (ModRead (kernel_of E)) c1) else c1)
       | Some e \<Rightarrow> if e = EAGAIN then Ret (None, c1) else conn_Close E c1)"

text \<open>
  The asynchronous variants submit the same bodies to the pool, under the connection's lock, and
  report the error of \<open>Close\<close> or of the handler through \<open>sendErr\<close>.
\<close>

definition conn_job :: "('s \<Rightarrow> (nerror \<times> ('cb, 'ob, 'rb, 'sa, 'k, 'w) conn) go) \<Rightarrow> 's \<Rightarrow>
    ('cb, 'ob, 'rb, 'sa, 'k, 'w) conn go" where
  "conn_job f c = go_bind (f c) (\<lambda>(err, c1). Ret (sendErr err c1))"

definition conn_ops :: "('cb, 'ob, 'rb, 'sa, 'k, 'w) conn_env \<Rightarrow> ('cb, 'ob, 'rb, 'sa, 'k, 'w) conn handler_ops" where
  "conn_ops E =
     \<lparr>WriteToFd = conn_WriteToFd E, ReadFromFd = conn_ReadFromFd E, Close = conn_Close E,
      AsyncWriteToFd = conn_job (conn_WriteToFd E), AsyncReadFromFd = conn_job (conn_ReadFromFd E),
      AsyncClose = conn_job (conn_Close E),
      AsyncWriteToFdAndWait = conn_job (conn_WriteToFd E),
      AsyncReadFromFdAndWait = conn_job (conn_ReadFromFd E)\<rparr>"

section \<open>Opening and contexts\<close>

definition conn_Open :: "('cb, 'ob, 'rb, 'sa, 'k, 'w) conn_env \<Rightarrow> ('cb, 'ob, 'rb, 'sa, 'k, 'w) conn \<Rightarrow>
    (nerror \<times> ('cb, 'ob, 'rb, 'sa, 'k, 'w) conn) go" where
  "conn_Open E c =
     (case onOpen E (c\<lparr>Opened := True\<rparr>) of
        ((data, e), c1) \<Rightarrow>
          go_bind (case data of None \<Rightarrow> Ret ((0, None), c1) | Some d \<Rightarrow> conn_write E d c1) (\<lambda>((n, err), c2).
            if err \<noteq> None then Ret (err, c2)
            else if \<not> ob_IsEmpty (out_of E) (OutBuffer c2) then Ret (on_poll (AddWrite (kernel_of E)) c2)
            else Ret (None, c2)))"

fun Adapt :: "adapter \<Rightarrow> 'cb option \<Rightarrow> 'cb adapted" where
  "Adapt ConnNoneAdapter cb = Plain"
| "Adapt ConnAsyncWriteAdapter cb = AsyncWriteConn cb"
| "Adapt ConnAsyncWritevAdapter cb = AsyncWritevConn cb"
| "Adapt ConnWritevAdapter cb = Plain"

text \<open>\<open>tls\<close> is whether a TLS configuration is given.\<close>

definition InitContext :: "('cb, 'ob, 'rb, 'sa, 'k, 'w) conn_env \<Rightarrow> bool \<Rightarrow> adapter \<Rightarrow> 'cb option \<Rightarrow>
    ('cb, 'ob, 'rb, 'sa, 'k, 'w) conn \<Rightarrow> (nerror \<times> ('cb, 'ob, 'rb, 'sa, 'k, 'w) conn) go" where
  "InitContext E tls a cb c =
     (if tls
      then (case handshake E c of
              (Some e, c1) \<Rightarrow> go_bind (conn_Close E c1) (\<lambda>(_, c2). Ret (Some e, c2))
            | (None, c1) \<Rightarrow> Ret (None, c1\<lparr>Ctx := Some \<lparr>ctx_conn = Adapt a cb, ctx_tls = True\<rparr>\<rparr>))
      else Ret (None, c\<lparr>Ctx := Some \<lparr>ctx_conn = Adapt a cb, ctx_tls = False\<rparr>\<rparr>))"

text \<open>
  \<open>Write\<close> of what a context writes to. \<open>data\<close> is a slice because \<open>SplitDataForWritev\<close> looks at its
  capacity. Below the chunk limit the third kind drops its callback.
\<close>

definition adapted_Write :: "('cb, 'ob, 'rb, 'sa, 'k, 'w) conn_env \<Rightarrow> 'cb adapted \<Rightarrow> char gslice \<Rightarrow>
    ('cb, 'ob, 'rb, 'sa, 'k, 'w) conn \<Rightarrow> ((int \<times> nerror) \<times> ('cb, 'ob, 'rb, 'sa, 'k, 'w) conn) go" where
  "adapted_Write E a data c =
     (let n = int (slen data) in
      case a of
        Plain \<Rightarrow> conn_Write E (contents data) c
      | WritevConn \<Rightarrow>
          if n \<le> DefaultWritevChunkSize then conn_Write E (contents data) c
          else (case SplitDataForWritev data (WritevChunkSize c) of
                  None \<Rightarrow> Blocked
                | Some chunks \<Rightarrow> go_bind chunks (\<lambda>ds. conn_Writev E (map contents ds) c))
      | AsyncWriteConn cb \<Rightarrow> (case AsyncWrite E (contents data) cb c of (e, c1) \<Rightarrow> Ret ((n, e), c1))
      | AsyncWritevConn cb \<Rightarrow>
          if n \<le> DefaultWritevChunkSize
          then (case AsyncWrite E (contents data) None c of (e, c1) \<Rightarrow> Ret ((n, e), c1))
          else (case SplitDataForWritev data (WritevChunkSize c) of
                  None \<Rightarrow> Blocked
                | Some chunks \<Rightarrow> go_bind chunks (\<lambda>ds.
                    case AsyncWritev E (map contents ds) cb c of (e, c1) \<Rightarrow> Ret ((n, e), c1))))"

section \<open>The outgoing stream\<close>

text \<open>
  What the peer has been sent or will be sent: the bytes the kernel has taken for the descriptor,
  followed by the output buffer.
\<close>

definition stream :: "('k \<Rightarrow> int \<Rightarrow> bytes) \<Rightarrow> ('ob \<Rightarrow> bytes) \<Rightarrow> ('cb, 'ob, 'rb, 'sa, 'k, 'w) conn \<Rightarrow> bytes" where
  "stream S cont c = S (ckern c) (Fd c) @ cont (OutBuffer c)"

definition extends :: "('k \<Rightarrow> int \<Rightarrow> bytes) \<Rightarrow> ('ob \<Rightarrow> bytes) \<Rightarrow> ('cb, 'ob, 'rb, 'sa, 'k, 'w) conn \<Rightarrow>
    ('cb, 'ob, 'rb, 'sa, 'k, 'w) conn \<Rightarrow> bool" where
  "extends S cont c c' \<longleftrightarrow>
     Fd c' = Fd c \<and> (Opened c' \<longrightarrow> Opened c \<and> prefix (stream S cont c) (stream S cont c'))"

lemma extends_refl [simp]: "extends S cont c c"
  by (simp add: extends_def)

lemma extends_trans [trans]: "extends S cont a b \<Longrightarrow> extends S cont b c \<Longrightarrow> extends S cont a c"
  by (auto simp: extends_def intro: prefix_order.trans)

lemma extends_same:
  "Fd c' = Fd c \<Longrightarrow> Opened c' = Opened c \<Longrightarrow> stream S cont c' = stream S cont c \<Longrightarrow> extends S cont c c'"
  by (simp add: extends_def)

text \<open>What the user's handler may do to a connection: write to it or close it.\<close>

definition handler_ok :: "('cb, 'ob, 'rb, 'sa, 'k, 'w) conn_env \<Rightarrow> ('k \<Rightarrow> int \<Rightarrow> bytes) \<Rightarrow> ('ob \<Rightarrow> bytes) \<Rightarrow> bool" where
  "handler_ok E S cont \<longleftrightarrow>
     (\<forall>c. extends S cont c (snd (onTrack E c))) \<and> (\<forall>c. extends S cont c (snd (onClose E c)))"

definition contract :: "('cb, 'ob, 'rb, 'sa, 'k, 'w) conn_env \<Rightarrow> ('k \<Rightarrow> int \<Rightarrow> bytes) \<Rightarrow> ('ob \<Rightarrow> bytes) \<Rightarrow> bool" where
  "contract E S cont \<longleftrightarrow> posix (kernel_of E) S \<and> elastic_ok (out_of E) cont \<and> handler_ok E S cont"

lemma posix_Write: "posix K S \<Longrightarrow> Write K fd d k = r \<Longrightarrow> posix_write S fd d k r"
  by (auto simp: posix_def Write_def)

lemma posix_Writev: "posix K S \<Longrightarrow> Writev K fd ds k = r \<Longrightarrow> posix_write S fd (concat ds) k r"
  by (auto simp: posix_def)

lemma posix_ctl: "posix K S \<Longrightarrow> epollFdHandler K pfd fd a ev k = (e, k') \<Longrightarrow> S k' = S k"
  by (auto simp: posix_def epollFdHandler_def split: prod.splits) (metis snd_conv)+

lemma posix_Read: "posix K S \<Longrightarrow> Read K fd n k = (r, k') \<Longrightarrow> S k' = S k"
  by (auto simp: posix_def Read_def split: if_splits) (metis snd_conv)

lemma posix_CloseFd: "posix K S \<Longrightarrow> CloseFd K fd k = (e, k') \<Longrightarrow> S k' = S k"
  by (auto simp: posix_def CloseFd_def split: prod.splits) (metis snd_conv)

lemma on_poll_frame:
  assumes "posix K S" and "on_poll (\<lambda>pfd fd. epollFdHandler K pfd fd a ev) c = (e, c')"
  shows "\<exists>k. c' = c\<lparr>ckern := k\<rparr> \<and> S k = S (ckern c)"
  using assms posix_ctl [OF assms(1)] by (auto simp: on_poll_def split: prod.splits)

lemma mod_frame:
  assumes "posix K S"
  shows "on_poll (ModReadWrite K) c = (e, c') \<Longrightarrow> \<exists>k. c' = c\<lparr>ckern := k\<rparr> \<and> S k = S (ckern c)"
    and "on_poll (ModRead K) c = (e, c') \<Longrightarrow> \<exists>k. c' = c\<lparr>ckern := k\<rparr> \<and> S k = S (ckern c)"
    and "on_poll (AddWrite K) c = (e, c') \<Longrightarrow> \<exists>k. c' = c\<lparr>ckern := k\<rparr> \<and> S k = S (ckern c)"
  using on_poll_frame [OF assms, of CTL_MOD ReadWriteEvents c e c'] on_poll_frame [OF assms, of CTL_MOD ReadEvents c e c']
    on_poll_frame [OF assms, of CTL_ADD WriteEvents c e c']
  by (simp_all add: ModReadWrite_def [abs_def] ModRead_def [abs_def] AddWrite_def [abs_def])

lemma close_flush_Fd:
  fixes c :: "('cb, 'ob, 'rb, 'sa, 'k, 'w) conn"
  shows "close_flush E c = Some c' \<Longrightarrow> Fd c' = Fd c"
proof (rule close_flush.raw_induct [where P = "\<lambda>E c c'. Fd c' = Fd c"])
  fix flush :: "('cb, 'ob, 'rb, 'sa, 'k, 'w) conn_env \<Rightarrow> ('cb, 'ob, 'rb, 'sa, 'k, 'w) conn \<Rightarrow>
      ('cb, 'ob, 'rb, 'sa, 'k, 'w) conn option" and E :: "('cb, 'ob, 'rb, 'sa, 'k, 'w) conn_env" and c c'
  assume "\<And>E c c'. flush E c = Some c' \<Longrightarrow> Fd c' = Fd c"
    and "(if ob_IsEmpty (out_of E) (OutBuffer c) then Some c
      else (case Writev (kernel_of E) (Fd c) (take IovMax (ob_Peek (out_of E) 0 (OutBuffer c))) (ckern c) of
              ((n, e), k) \<Rightarrow>
                if e \<noteq> None then Some (c\<lparr>ckern := k\<rparr>)
                else flush E (c\<lparr>ckern := k, OutBuffer := ob_Discard (out_of E) n (OutBuffer c)\<rparr>))) = Some c'"
  then show "Fd c' = Fd c" by (fastforce split: if_splits prod.splits)
qed

lemma conn_Close_extends:
  assumes "conn_Close E c = Ret (e, c')" and "handler_ok E S cont"
  shows "extends S cont c c'"
proof -
  have "extends S cont c (releaseUDP c)" by (simp add: extends_def releaseUDP_def stream_def)
  moreover have fd: "onClose E c2 = (e, c3) \<Longrightarrow> Fd c3 = Fd c2" for c2 e c3
    using assms(2) by (simp add: handler_ok_def extends_def) (metis snd_conv)
  ultimately show ?thesis
  proof (cases "close_flush E c")
    case (Some c1)
    then show ?thesis
      using assms(1) close_flush_Fd [OF Some] \<open>extends S cont c (releaseUDP c)\<close> fd
      by (auto simp: conn_Close_def releaseTCP_def extends_def Let_def split: if_splits option.splits prod.splits)
  qed (use assms(1) in \<open>auto simp: conn_Close_def split: if_splits\<close>)
qed

lemma unsent_rest:
  "0 \<le> n \<Longrightarrow> n < int (length (concat ds)) \<Longrightarrow>
   \<exists>r. unsent n ds = Some r \<and> concat r = drop (nat n) (concat ds)"
proof (induction ds arbitrary: n)
  case (Cons d ds)
  show ?case
  proof (cases "n < int (length d)")
    case False
    then obtain r where "unsent (n - int (length d)) ds = Some r"
        "concat r = drop (nat (n - int (length d))) (concat ds)"
      using Cons.IH [of "n - int (length d)"] Cons.prems by auto
    then show ?thesis using False by (auto simp: nat_diff_distrib)
  qed (use Cons.prems in auto)
qed simp

text \<open>The cases of a write that leave the connection open: everything is in the stream, in order.\<close>

lemma conn_write_cases:
  assumes "posix (kernel_of E) S" and "elastic_ok (out_of E) cont"
    and "conn_write E d c = Ret ((n, e), c')"
  shows "(n = int (length d) \<and> Fd c' = Fd c \<and> Opened c' = Opened c \<and> stream S cont c' = stream S cont c @ d) \<or>
    (n = -1 \<and> (\<exists>k. S k (Fd c) = S (ckern c) (Fd c) \<and> conn_Close E (c\<lparr>ckern := k\<rparr>) = Ret (e, c')))"
proof (cases "ob_IsEmpty (out_of E) (OutBuffer c)")
  case False
  then show ?thesis
    using assms(2,3) by (auto simp: conn_write_def buffer_out_def stream_def elastic_ok_def)
next
  case True
  then have empty: "cont (OutBuffer c) = []" using assms(2) by (simp add: elastic_ok_def)
  obtain sent err k where w: "Write (kernel_of E) (Fd c) d (ckern c) = ((sent, err), k)" by (metis prod.exhaust)
  then have p: "posix_write S (Fd c) d (ckern c) ((sent, err), k)" by (rule posix_Write [OF assms(1)])
  have app: "cont (snd (ob_Write (out_of E) x b)) = cont b @ x" for x b
    using assms(2) by (simp add: elastic_ok_def)
  have ctl: "on_poll (ModReadWrite (kernel_of E)) c1 = (r, c2) \<Longrightarrow>
      \<exists>k. c2 = c1\<lparr>ckern := k\<rparr> \<and> S k = S (ckern c1)" for c1 r c2
    by (rule mod_frame(1) [OF assms(1)])
  show ?thesis
    using assms(3) True w p empty
    by (cases err) (auto simp: conn_write_def Let_def posix_write_def stream_def buffer_out_def app go_bind_eq_Ret
        dest!: ctl split: if_splits prod.splits)
qed

lemma conn_writev_cases:
  assumes "posix (kernel_of E) S" and "elastic_ok (out_of E) cont"
    and "conn_writev E ds c = Ret ((n, e), c')"
  shows "(n = int (length (concat ds)) \<and> Fd c' = Fd c \<and> Opened c' = Opened c \<and>
      stream S cont c' = stream S cont c @ concat ds) \<or>
    (n = -1 \<and> (\<exists>k. S k (Fd c) = S (ckern c) (Fd c) \<and> conn_Close E (c\<lparr>ckern := k\<rparr>) = Ret (e, c')))"
proof (cases "ob_IsEmpty (out_of E) (OutBuffer c)")
  case False
  then show ?thesis
    using assms(2,3) by (auto simp: conn_writev_def buffer_outv_def stream_def elastic_ok_def)
next
  case True
  then have empty: "cont (OutBuffer c) = []" using assms(2) by (simp add: elastic_ok_def)
  obtain sent err k where w: "Writev (kernel_of E) (Fd c) ds (ckern c) = ((sent, err), k)" by (metis prod.exhaust)
  then have p: "posix_write S (Fd c) (concat ds) (ckern c) ((sent, err), k)" by (rule posix_Writev [OF assms(1)])
  have app: "cont (ob_Writev (out_of E) xs b) = cont b @ concat xs" for xs b
    using assms(2) by (simp add: elastic_ok_def)
  have ctl: "on_poll (ModReadWrite (kernel_of E)) c1 = (r, c2) \<Longrightarrow>
      \<exists>k. c2 = c1\<lparr>ckern := k\<rparr> \<and> S k = S (ckern c1)" for c1 r c2
    by (rule mod_frame(1) [OF assms(1)])
  show ?thesis
  proof (cases err)
    case None
    then have sent: "0 \<le> sent" "sent \<le> int (length (concat ds))"
        "S k (Fd c) = S (ckern c) (Fd c) @ take (nat sent) (concat ds)"
      using p by (auto simp: posix_write_def)
    show ?thesis
    proof (cases "sent < int (length (concat ds))")
      case True
      then obtain r where "unsent sent ds = Some r" "concat r = drop (nat sent) (concat ds)"
        using unsent_rest [of sent ds] sent(1) by auto
      then show ?thesis
        using assms(3) \<open>ob_IsEmpty _ _\<close> w None empty sent True
        by (auto simp: conn_writev_def Let_def stream_def buffer_outv_def app dest!: ctl split: prod.splits
            simp del: length_concat)
    next
      case False
      then show ?thesis
        using assms(3) \<open>ob_IsEmpty _ _\<close> w None empty sent
        by (auto simp: conn_writev_def Let_def stream_def simp del: length_concat)
    qed
  next
    case (Some x)
    then show ?thesis
      using assms(3) True w p empty
      by (auto simp: conn_writev_def Let_def posix_write_def stream_def buffer_outv_def app go_bind_eq_Ret
          dest!: ctl split: if_splits prod.splits simp del: length_concat)
  qed
qed

lemma conn_write_extends:
  assumes "contract E S cont" and "conn_write E d c = Ret ((n, e), c')"
  shows "extends S cont c c'"
proof -
  have k: "posix (kernel_of E) S" "elastic_ok (out_of E) cont" "handler_ok E S cont"
    using assms(1) by (simp_all add: contract_def)
  from conn_write_cases [OF k(1,2) assms(2)] show ?thesis
  proof
    assume "n = -1 \<and> (\<exists>k. S k (Fd c) = S (ckern c) (Fd c) \<and> conn_Close E (c\<lparr>ckern := k\<rparr>) = Ret (e, c'))"
    then obtain k1 where k1: "S k1 (Fd c) = S (ckern c) (Fd c)" "conn_Close E (c\<lparr>ckern := k1\<rparr>) = Ret (e, c')" by blast
    have "extends S cont c (c\<lparr>ckern := k1\<rparr>)" by (rule extends_same) (simp_all add: stream_def k1)
    then show ?thesis using conn_Close_extends [OF k1(2) k(3)] by (rule extends_trans)
  qed (auto simp: extends_def)
qed

text \<open>One \<open>writev\<close> or \<open>write\<close> of what \<open>Peek\<close> shows, and the \<open>Discard\<close> after it, keep the stream.\<close>

lemma concat_take_prefix: "n \<le> length (concat (take m xs)) \<Longrightarrow> take n (concat (take m xs)) = take n (concat xs)"
proof -
  assume n: "n \<le> length (concat (take m xs))"
  have "concat xs = concat (take m xs) @ concat (drop m xs)"
    by (metis append_take_drop_id concat_append)
  then show ?thesis using n by simp
qed

lemma send_iov_stream:
  assumes "posix (kernel_of E) S" and "elastic_ok (out_of E) cont" and "send_iov E c = Ret ((n, e), k)"
  shows "stream S cont (c\<lparr>ckern := k, OutBuffer := ob_Discard (out_of E) n (OutBuffer c)\<rparr>) = stream S cont c"
proof -
  let ?iov = "ob_Peek (out_of E) (-1) (OutBuffer c)"
  have peek: "concat ?iov = cont (OutBuffer c)" using assms(2) by (simp add: elastic_ok_def)
  have disc: "cont (ob_Discard (out_of E) n (OutBuffer c)) = drop (nat n) (cont (OutBuffer c))"
    using assms(2) by (simp add: elastic_ok_def)
  obtain m where m: "posix_write S (Fd c) (concat (take m ?iov)) (ckern c) ((n, e), k)"
  proof (cases "length ?iov > 1")
    case True
    then have "Writev (kernel_of E) (Fd c) (take IovMax ?iov) (ckern c) = ((n, e), k)"
      using assms(3) by (simp add: send_iov_def Let_def)
    then show ?thesis using posix_Writev [OF assms(1)] that by blast
  next
    case False
    then obtain d where d: "?iov = [d]" "Write (kernel_of E) (Fd c) d (ckern c) = ((n, e), k)"
      using assms(3) by (cases ?iov) (auto simp: send_iov_def Let_def go_bind_eq_Ret index_expr_def split: if_splits)
    show ?thesis using posix_Write [OF assms(1) d(2)] that [of 1] d(1) by simp
  qed
  show ?thesis
  proof (cases e)
    case None
    then have "0 \<le> n" "nat n \<le> length (concat (take m ?iov))"
        "S k (Fd c) = S (ckern c) (Fd c) @ take (nat n) (concat (take m ?iov))"
      using m by (auto simp: posix_write_def)
    then show ?thesis
      using concat_take_prefix [of "nat n" m ?iov] peek disc by (simp add: stream_def)
  qed (use m disc in \<open>auto simp: posix_write_def stream_def\<close>)
qed

lemma conn_WriteToFd_cases:
  assumes "posix (kernel_of E) S" and "elastic_ok (out_of E) cont" and "conn_WriteToFd E c = Ret (e, c')"
  shows "\<exists>c1. Fd c1 = Fd c \<and> Opened c1 = Opened c \<and> stream S cont c1 = stream S cont c \<and>
    (c' = c1 \<and> e = None \<or> conn_Close E c1 = Ret (e, c'))"
proof -
  obtain n err k where si: "send_iov E c = Ret ((n, err), k)"
    using assms(3) by (auto simp: conn_WriteToFd_def go_bind_eq_Ret)
  let ?c1 = "c\<lparr>ckern := k, OutBuffer := ob_Discard (out_of E) n (OutBuffer c)\<rparr>"
  have st: "stream S cont ?c1 = stream S cont c" by (rule send_iov_stream [OF assms(1,2) si])
  obtain r c2 where m: "on_poll (ModRead (kernel_of E)) ?c1 = (r, c2)" by fastforce
  obtain k2 where c2: "c2 = ?c1\<lparr>ckern := k2\<rparr>" "S k2 = S (ckern ?c1)"
    using mod_frame(2) [OF assms(1) m] by blast
  have st2: "stream S cont c2 = stream S cont c" using st c2 by (simp add: stream_def)
  have "c' = c2 \<and> e = None \<or> c' = ?c1 \<and> e = None \<or> conn_Close E ?c1 = Ret (e, c')"
    using assms(3) si m by (cases err) (auto simp: conn_WriteToFd_def Let_def split: if_splits)
  then show ?thesis
  proof (elim disjE)
    assume "c' = c2 \<and> e = None"
    then show ?thesis by (intro exI [of _ c2]) (simp add: st2, simp add: c2(1))
  next
    assume "c' = ?c1 \<and> e = None"
    then show ?thesis by (intro exI [of _ ?c1]) (simp add: st)
  next
    assume "conn_Close E ?c1 = Ret (e, c')"
    then show ?thesis by (intro exI [of _ ?c1]) (simp add: st)
  qed
qed

lemma conn_WriteToFd_extends:
  assumes "contract E S cont" and "conn_WriteToFd E c = Ret (e, c')"
  shows "extends S cont c c'"
proof -
  have k: "posix (kernel_of E) S" "elastic_ok (out_of E) cont" "handler_ok E S cont"
    using assms(1) by (simp_all add: contract_def)
  obtain c1 where c1: "Fd c1 = Fd c" "Opened c1 = Opened c" "stream S cont c1 = stream S cont c"
      "c' = c1 \<and> e = None \<or> conn_Close E c1 = Ret (e, c')"
    using conn_WriteToFd_cases [OF k(1,2) assms(2)] by blast
  have "extends S cont c c1" by (rule extends_same [OF c1(1-3)])
  then show ?thesis using c1(4) conn_Close_extends [OF _ k(3)] extends_trans by blast
qed

lemma conn_ReadFromFd_extends:
  assumes "contract E S cont" and "conn_ReadFromFd E c = Ret (e, c')"
  shows "extends S cont c c'"
proof -
  obtain data err k where r: "Read (kernel_of E) (Fd c) (readBufSize E) (ckern c) = ((data, err), k)"
    by (metis prod.exhaust)
  have k: "S k = S (ckern c)" using posix_Read [OF _ r] assms(1) by (simp add: contract_def)
  have c1: "extends S cont c (c\<lparr>ckern := k\<rparr>)" by (simp add: extends_def stream_def k)
  have track: "extends S cont c (c2\<lparr>InBuffer := rb\<rparr>)"
    if "onTrack E (c\<lparr>ckern := k, Buffer := data\<rparr>) = (e', c2)" for e' c2 rb
  proof -
    have "extends S cont (c\<lparr>ckern := k, Buffer := data\<rparr>) c2"
      using assms(1) that by (simp add: contract_def handler_ok_def) (metis snd_conv)
    then show ?thesis by (auto simp: extends_def stream_def k)
  qed
  show ?thesis
    using assms r c1 track conn_Close_extends [of E "c\<lparr>ckern := k\<rparr>" e c' S cont]
    by (auto simp: conn_ReadFromFd_def Let_def contract_def split: if_splits prod.splits
        intro: extends_trans [OF c1])
qed

lemma sendErr_extends: "extends S cont c c1 \<Longrightarrow> extends S cont c (sendErr e c1)"
  by (auto simp: sendErr_def extends_def stream_def split: option.split)

definition conn_inv :: "('cb, 'ob, 'rb, 'sa, 'k, 'w) conn_env \<Rightarrow> ('k \<Rightarrow> int \<Rightarrow> bytes) \<Rightarrow> ('ob \<Rightarrow> bytes) \<Rightarrow>
    ('cb, 'ob, 'rb, 'sa, 'k, 'w) conn \<Rightarrow> ('cb, 'ob, 'rb, 'sa, 'k, 'w) conn \<Rightarrow> bool" where
  "conn_inv E S cont c0 c \<longleftrightarrow> contract E S cont \<and> extends S cont c0 c"

lemma conn_inv_step:
  "conn_inv E S cont c0 c \<Longrightarrow> (contract E S cont \<Longrightarrow> extends S cont c c') \<Longrightarrow> conn_inv E S cont c0 c'"
  unfolding conn_inv_def using extends_trans by blast

lemma conn_job_extends:
  "conn_job f c = Ret c' \<Longrightarrow> (\<And>e c1. f c = Ret (e, c1) \<Longrightarrow> extends S cont c c1) \<Longrightarrow> extends S cont c c'"
  by (auto simp: conn_job_def go_bind_eq_Ret intro: sendErr_extends)

lemma conn_Close_contract: "contract E S cont \<Longrightarrow> conn_Close E c = Ret (e, c') \<Longrightarrow> extends S cont c c'"
  by (simp add: contract_def conn_Close_extends)

lemmas handler_extends = conn_WriteToFd_extends conn_ReadFromFd_extends conn_Close_contract

interpretation cn: event_handler "conn_ops E" "conn_inv E S cont c0" for E S cont c0
proof
qed (auto simp: conn_ops_def elim!: conn_inv_step intro: handler_extends conn_job_extends)

section \<open>A concrete environment\<close>

text \<open>
  The kernel of the examples keeps, for each descriptor, the bytes it has taken; it takes at most
  4 bytes per call until it holds 8, then answers \<open>EAGAIN\<close>. The output buffer is a list of chunks.
\<close>

type_synonym demo_k = "int \<Rightarrow> bytes"

definition demo_take :: "int \<Rightarrow> bytes \<Rightarrow> demo_k \<Rightarrow> (int \<times> nerror) \<times> demo_k" where
  "demo_take fd d k =
     (if length (k fd) \<ge> 8 then ((-1, Some EAGAIN), k)
      else ((int (min 4 (length d)), None), k(fd := k fd @ take 4 d)))"

definition demo_kernel :: "(demo_k, unit) kernel" where
  "demo_kernel = \<lparr>k_epoll_ctl = (\<lambda>_ a _ _ k. (if a = CTL_ADD then Some (Errno 17) else None, k)),
     k_write = demo_take, k_writev = (\<lambda>fd ds k. case demo_take fd (concat (map Base ds)) k of ((n, e), k') \<Rightarrow> ((n, if e = None then 0 else 11), k')),
     k_readv = (\<lambda>_ _ k. ((0, [], 0), k)),
     k_read = (\<lambda>_ _ k. ((''hi'', None), k)), k_sendto = (\<lambda>_ _ _ k. (None, k)), k_close = (\<lambda>_ k. (None, k)),
     k_setsockopt = (\<lambda>_ _ _ k. (None, k)), k_accept4 = (\<lambda>_ k. ((9, None, None), k)),
     k_accept = (\<lambda>_ k. ((9, None, None), k)), k_set_nonblock = (\<lambda>_ k. (None, k)),
     k_epoll_create = (\<lambda>k. ((4, None), k)), k_eventfd = (\<lambda>k. ((3, None), k))\<rparr>"

definition demo_sent :: "demo_k \<Rightarrow> int \<Rightarrow> bytes" where
  "demo_sent k = k"

lemma take_min_length: "take (min n (length d)) d = take n d"
  by (simp add: min_def)

lemma demo_posix: "posix demo_kernel demo_sent"
  by (auto simp: posix_def posix_write_def demo_kernel_def demo_take_def demo_sent_def take_min_length Writev_def)

definition chunk_ops :: "bytes list out_ops" where
  "chunk_ops = \<lparr>ob_IsEmpty = (\<lambda>b. concat b = []), ob_Peek = (\<lambda>_ b. filter (\<lambda>d. d \<noteq> []) b),
     ob_Discard = (\<lambda>n b. if drop (nat n) (concat b) = [] then [] else [drop (nat n) (concat b)]),
     ob_Write = (\<lambda>d b. ((int (length d), None), if d = [] then b else b @ [d])),
     ob_Writev = (\<lambda>ds b. b @ filter (\<lambda>d. d \<noteq> []) ds), ob_Release = (\<lambda>_. []), ob_New = (\<lambda>_. [])\<rparr>"

definition string_ring :: "bytes ring_ops" where
  "string_ring = \<lparr>rb_IsEmpty = (\<lambda>b. b = []), rb_Read = (\<lambda>n b. (take n b, drop n b)),
     rb_Write = (\<lambda>d b. b @ d), rb_Done = (\<lambda>_. []), rb_Zero = []\<rparr>"

type_synonym demo_conn = "(unit, bytes list, bytes, unit, demo_k, unit) conn"

definition demo_env :: "(unit, bytes list, bytes, unit, demo_k, unit) conn_env" where
  "demo_env = \<lparr>kernel_of = demo_kernel, out_of = chunk_ops, ring_of = string_ring, readBufSize = 64,
     onOpen = (\<lambda>c. ((None, None), c)), onTrack = (\<lambda>c. (None, c)), onClose = (\<lambda>c. (None, c)),
     handshake = (\<lambda>c. (Some EOF, c)), hookGo = (\<lambda>_ c. (None, c)), removeConn = (\<lambda>_ w. w),
     pollerAddTask = (\<lambda>_ c. (None, c))\<rparr>"

definition demo_conn :: demo_conn where
  "demo_conn = (NewTCPConn demo_env 9 [] (\<lambda>_. []) ())\<lparr>Opened := True\<rparr>"

lemma concat_filter_nonempty: "concat (filter (\<lambda>d. d \<noteq> []) ds) = concat ds"
  by (induction ds) auto

lemma demo_elastic: "elastic_ok chunk_ops concat"
  by (auto simp: elastic_ok_def chunk_ops_def concat_filter_nonempty)

lemma demo_ring: "ring_ok string_ring id"
  by (simp add: ring_ok_def string_ring_def)

lemmas demo_eval = demo_env_def demo_kernel_def demo_take_def chunk_ops_def string_ring_def demo_conn_def
  NewTCPConn_def conn_write_def conn_writev_def conn_WriteToFd_def send_iov_def Write_def Writev_def
  on_poll_def buffer_out_def buffer_outv_def ModReadWrite_def ModRead_def AddWrite_def epollFdHandler_def
  SysError_def Let_def index_expr_def

lemma demo_contract: "contract demo_env demo_sent concat"
  using demo_posix demo_elastic by (simp add: contract_def demo_env_def handler_ok_def)

section \<open>Properties\<close>

lemma conn_Close_still_open:
  "conn_Close E c = Ret (e, c') \<Longrightarrow> Opened c' \<Longrightarrow> stream S cont c' = stream S cont c \<and> Fd c' = Fd c"
  by (auto simp: conn_Close_def releaseTCP_def releaseUDP_def stream_def Let_def
      split: if_splits option.splits prod.splits)

text \<open>
  A history of a connection: writes and vectored writes that have not closed it, with the bytes
  they were given, and write events that leave it open.
\<close>

inductive out_run :: "('cb, 'ob, 'rb, 'sa, 'k, 'w) conn_env \<Rightarrow> ('cb, 'ob, 'rb, 'sa, 'k, 'w) conn \<Rightarrow> bytes \<Rightarrow>
    ('cb, 'ob, 'rb, 'sa, 'k, 'w) conn \<Rightarrow> bool" for E c where
  start: "out_run E c [] c"
| wrote: "out_run E c ws c1 \<Longrightarrow> conn_write E d c1 = Ret ((n, e), c2) \<Longrightarrow> n \<noteq> -1 \<Longrightarrow> out_run E c (ws @ d) c2"
| wrotev: "out_run E c ws c1 \<Longrightarrow> conn_writev E ds c1 = Ret ((n, e), c2) \<Longrightarrow> n \<noteq> -1 \<Longrightarrow>
    out_run E c (ws @ concat ds) c2"
| event: "out_run E c ws c1 \<Longrightarrow> conn_WriteToFd E c1 = Ret (e, c2) \<Longrightarrow> Opened c2 \<Longrightarrow> out_run E c ws c2"

text \<open>
  C15. Nothing written to a connection is lost, duplicated or reordered while it stays open, whatever
  the kernel accepts of each call: after any history of \<open>Write\<close>, \<open>Writev\<close> and write events, the
  bytes the kernel has taken followed by the output buffer are those of the start followed by all
  the bytes written since, in order.
\<close>

theorem bytes_written_in_order:
  assumes "posix (kernel_of E) S" and "elastic_ok (out_of E) cont" and "out_run E c ws c'"
  shows "S (ckern c') (Fd c) @ cont (OutBuffer c') = S (ckern c) (Fd c) @ cont (OutBuffer c) @ ws"
proof -
  have "stream S cont c' = stream S cont c @ ws \<and> Fd c' = Fd c"
    using assms(3)
  proof induction
    case (wrote ws c1 d n e c2)
    then show ?case using conn_write_cases [OF assms(1,2) wrote.hyps(2)] by auto
  next
    case (wrotev ws c1 ds n e c2)
    then show ?case using conn_writev_cases [OF assms(1,2) wrotev.hyps(2)] by auto
  next
    case (event ws c1 e c2)
    then show ?case
      using conn_WriteToFd_cases [OF assms(1,2) event.hyps(2)] conn_Close_still_open [of E _ e c2 S cont] by metis
  qed simp
  then show ?thesis by (auto simp: stream_def)
qed

theorem bytes_written_in_order_witness:
  "\<exists>c. out_run demo_env demo_conn ''abcdefgh'' c \<and> ckern c 9 @ concat (OutBuffer c) = ''abcdefgh'' \<and>
     OutBuffer c = [] \<and> ckern c 9 = ''abcdefgh''"
proof -
  let ?c1 = "demo_conn\<lparr>ckern := (\<lambda>_. [])(9 := ''abcd''), OutBuffer := [''ef'']\<rparr>"
  let ?c2 = "?c1\<lparr>OutBuffer := [''ef'', ''gh'']\<rparr>"
  let ?c3 = "demo_conn\<lparr>ckern := (\<lambda>_. [])(9 := ''abcdefgh''), OutBuffer := []\<rparr>"
  have 0: "out_run demo_env demo_conn [] demo_conn" by (rule out_run.start)
  have "conn_write demo_env ''abcdef'' demo_conn = Ret ((6, None), ?c1)" by (simp add: demo_eval)
  from out_run.wrote [OF 0 this] have 1: "out_run demo_env demo_conn ''abcdef'' ?c1" by simp
  have "conn_write demo_env ''gh'' ?c1 = Ret ((2, None), ?c2)" by (simp add: demo_eval)
  from out_run.wrote [OF 1 this] have 2: "out_run demo_env demo_conn ''abcdefgh'' ?c2" by simp
  have "conn_WriteToFd demo_env ?c2 = Ret (None, ?c3)" by (simp add: demo_eval IovMax_def)
  from out_run.event [OF 2 this] have 3: "out_run demo_env demo_conn ''abcdefgh'' ?c3"
    by (simp add: demo_conn_def)
  have "demo_sent (ckern ?c3) (Fd demo_conn) @ concat (OutBuffer ?c3) =
      demo_sent (ckern demo_conn) (Fd demo_conn) @ concat (OutBuffer demo_conn) @ ''abcdefgh''"
    by (rule bytes_written_in_order [OF _ _ 3]) (simp_all add: demo_env_def demo_posix demo_elastic)
  then show ?thesis using 3 by (intro exI [of _ ?c3]) (simp add: demo_conn_def NewTCPConn_def demo_sent_def)
qed



text \<open>
  Reading is first in, first out: a \<open>Read\<close> into \<open>m\<close> bytes gives the first \<open>m\<close> bytes of what an
  earlier event left in the input buffer followed by the bytes of this event, leaves the rest,
  and reports \<open>EOF\<close> exactly when there was nothing to give and \<open>m\<close> is positive.
\<close>

lemma read_takes_front:
  assumes "ring_ok (ring_of E) cont"
  shows "case conn_Read E m c of ((d, e), c') \<Rightarrow>
     d = take m (cont (InBuffer c) @ Buffer c) \<and>
     cont (InBuffer c') @ Buffer c' = drop m (cont (InBuffer c) @ Buffer c) \<and>
     (e = Some EOF) = (cont (InBuffer c) @ Buffer c = [] \<and> m > 0) \<and> (e = None \<or> e = Some EOF)"
proof (cases "rb_IsEmpty (ring_of E) (InBuffer c)")
  case True
  then have "cont (InBuffer c) = []" using assms by (simp add: ring_ok_def)
  then show ?thesis using True by (auto simp: conn_Read_def Let_def min_def)
next
  case False
  obtain d rb where r: "rb_Read (ring_of E) m (InBuffer c) = (d, rb)" by fastforce
  then have d: "d = take m (cont (InBuffer c))" "cont rb = drop m (cont (InBuffer c))"
      "cont (InBuffer c) \<noteq> []"
    using assms False by (auto simp: ring_ok_def) (metis fst_conv, metis snd_conv)
  show ?thesis
  proof (cases "length d = m")
    case True
    then have "m \<le> length (cont (InBuffer c))" using d(1) by simp
    then show ?thesis using False r d by (simp add: conn_Read_def Let_def)
  next
    case short: False
    then have "length (cont (InBuffer c)) < m" using d(1) by auto
    then show ?thesis using False r d by (simp add: conn_Read_def Let_def min_def)
  qed
qed

text \<open>
  The read events of a connection: in each the kernel gives some bytes, and the handler may read. Reads
  of any sizes are one kind of handler; \<open>reads\<close> collects what they get.
\<close>

inductive in_run :: "('cb, 'ob, 'rb, 'sa, 'k, 'w) conn_env \<Rightarrow> ('cb, 'ob, 'rb, 'sa, 'k, 'w) conn \<Rightarrow> bytes \<Rightarrow>
    ('cb, 'ob, 'rb, 'sa, 'k, 'w) conn \<Rightarrow> bool" for E c where
  in_start: "in_run E c [] c"
| in_event: "in_run E c rs c1 \<Longrightarrow> Read (kernel_of E) (Fd c1) (readBufSize E) (ckern c1) = ((data, None), k) \<Longrightarrow>
    data \<noteq> [] \<Longrightarrow> conn_ReadFromFd E c1 = Ret (e, c2) \<Longrightarrow> in_run E c (rs @ data) c2"

fun reads :: "('cb, 'ob, 'rb, 'sa, 'k, 'w) conn_env \<Rightarrow> nat list \<Rightarrow> ('cb, 'ob, 'rb, 'sa, 'k, 'w) conn \<Rightarrow>
    bytes \<times> ('cb, 'ob, 'rb, 'sa, 'k, 'w) conn" where
  "reads E [] c = ([], c)"
| "reads E (m # ms) c = (case conn_Read E m c of ((d, _), c1) \<Rightarrow> (case reads E ms c1 of (ds, c2) \<Rightarrow> (d @ ds, c2)))"

lemma reads_consume:
  assumes "ring_ok (ring_of E) cont"
  shows "reads E ms c = (d, c') \<Longrightarrow> d @ cont (InBuffer c') @ Buffer c' = cont (InBuffer c) @ Buffer c \<and> cworld c' = cworld c"
proof (induction ms arbitrary: c d)
  case (Cons m ms)
  obtain d1 e c1 where r: "conn_Read E m c = ((d1, e), c1)" by (metis prod.exhaust)
  obtain d2 where d: "reads E ms c1 = (d2, c')" "d = d1 @ d2"
    using Cons.prems r by (auto split: prod.splits)
  define X where "X = cont (InBuffer c) @ Buffer c"
  have "d1 = take m X \<and> cont (InBuffer c1) @ Buffer c1 = drop m X"
    using read_takes_front [OF assms, of m c] unfolding r X_def prod.case by blast
  then have "d1 @ cont (InBuffer c1) @ Buffer c1 = cont (InBuffer c) @ Buffer c"
    unfolding X_def [symmetric] by simp
  moreover have "cworld c1 = cworld c"
    using r by (auto simp: conn_Read_def Let_def split: prod.splits if_splits)
  ultimately show ?case using Cons.IH [OF d(1)] d(2) by simp
qed simp

text \<open>
  C18. Input reaches the application in order, once: \<open>log\<close> is what the application has got so far, and
  its handler in \<open>OnTrack\<close> moves bytes from the front of the unread input to the end of the log, as
  calls of \<open>Read\<close> do. Over any sequence of read events, however the kernel cuts the input and however
  much each call of the handler takes, the log and then the input buffer hold exactly what they held
  before and then all that has been received, in order.
\<close>

theorem input_in_order:
  assumes "ring_ok (ring_of E) cont"
    and "\<And>c e c'. onTrack E c = (e, c') \<Longrightarrow>
      log (cworld c') @ cont (InBuffer c') @ Buffer c' = log (cworld c) @ cont (InBuffer c) @ Buffer c"
    and "in_run E c rs c'"
  shows "log (cworld c') @ cont (InBuffer c') = log (cworld c) @ cont (InBuffer c) @ rs"
  using assms(3)
proof induction
  case (in_event rs c1 data k e c2)
  obtain x c3 where t: "onTrack E (c1\<lparr>ckern := k, Buffer := data\<rparr>) = (x, c3)" by fastforce
  have "c2 = c3\<lparr>InBuffer := rb_Write (ring_of E) (Buffer c3) (InBuffer c3)\<rparr>"
    using in_event.hyps(2-4) t by (simp add: conn_ReadFromFd_def Let_def)
  then have "log (cworld c2) @ cont (InBuffer c2) = log (cworld c3) @ cont (InBuffer c3) @ Buffer c3"
    using assms(1) by (simp add: ring_ok_def)
  then show ?case using assms(2) [OF t] in_event.IH by simp
qed simp

text \<open>An application that reads one byte of every event and logs it.\<close>

definition log_env :: "(unit, bytes list, bytes, unit, demo_k, bytes) conn_env" where
  "log_env = \<lparr>kernel_of = demo_kernel, out_of = chunk_ops, ring_of = string_ring, readBufSize = 64,
     onOpen = (\<lambda>c. ((None, None), c)),
     onTrack = (\<lambda>c. (None, let d = take 1 (InBuffer c @ Buffer c) in
        c\<lparr>InBuffer := drop 1 (InBuffer c), Buffer := (if InBuffer c = [] then drop 1 (Buffer c) else Buffer c),
          cworld := cworld c @ d\<rparr>)),
     onClose = (\<lambda>c. (None, c)), handshake = (\<lambda>c. (None, c)), hookGo = (\<lambda>_ c. (None, c)), removeConn = (\<lambda>_ w. w),
     pollerAddTask = (\<lambda>_ c. (None, c))\<rparr>"

theorem input_in_order_witness:
  "\<exists>c'. in_run log_env (NewTCPConn log_env 9 [] (\<lambda>_. []) []) ''hihi'' c' \<and> cworld c' @ InBuffer c' = ''hihi'' \<and>
     cworld c' = ''hi'' \<and> InBuffer c' = ''hi''"
proof -
  let ?c0 = "NewTCPConn log_env 9 [] (\<lambda>_. []) [] :: (unit, bytes list, bytes, unit, demo_k, bytes) conn"
  let ?c1 = "?c0\<lparr>InBuffer := ''i'', Buffer := ''i'', cworld := ''h''\<rparr>"
  let ?c2 = "?c0\<lparr>InBuffer := ''hi'', Buffer := ''hi'', cworld := ''hi''\<rparr>"
  have r: "Read (kernel_of log_env) (Fd c) (readBufSize log_env) (ckern c) = ((''hi'', None), ckern c)"
    if "Fd c = 9" for c :: "(unit, bytes list, bytes, unit, demo_k, bytes) conn"
    using that by (simp add: Read_def log_env_def demo_kernel_def)
  have e: "conn_ReadFromFd log_env ?c0 = Ret (None, ?c1)" "conn_ReadFromFd log_env ?c1 = Ret (None, ?c2)"
    by (simp_all add: conn_ReadFromFd_def Read_def log_env_def demo_kernel_def NewTCPConn_def string_ring_def)
  have f: "Fd ?c0 = 9" "Fd ?c1 = 9" by (simp_all add: NewTCPConn_def)
  have "in_run log_env ?c0 ([] @ ''hi'') ?c1"
    by (rule in_run.in_event [OF in_run.in_start r [OF f(1)] _ e(1)]) simp
  from in_run.in_event [OF this r [OF f(2)] _ e(2)] have run: "in_run log_env ?c0 ''hihi'' ?c2" by simp
  have ring: "ring_ok (ring_of log_env) id" using demo_ring by (simp add: log_env_def)
  have "id (cworld ?c2) @ id (InBuffer ?c2) = id (cworld ?c0) @ id (InBuffer ?c0) @ ''hihi''"
  proof (rule input_in_order [OF ring _ run])
    fix c c' :: "(unit, bytes list, bytes, unit, demo_k, bytes) conn" and e
    assume "onTrack log_env c = (e, c')"
    then show "id (cworld c') @ id (InBuffer c') @ Buffer c' = id (cworld c) @ id (InBuffer c) @ Buffer c"
      by (cases "InBuffer c"; cases "Buffer c") (auto simp: log_env_def)
  qed
  with run show ?thesis by (intro exI [of _ ?c2]) (simp add: NewTCPConn_def log_env_def string_ring_def)
qed

text \<open>
  What a handler leaves unread is there twice afterwards: \<open>ReadFromFd\<close> copies the rest of the
  event's bytes to the input buffer but keeps them in \<open>Buffer\<close> too. So a \<open>Read\<close> between two events
  sees that rest two times (the next event overwrites \<open>Buffer\<close>).
\<close>

lemma unread_input_is_doubled:
  assumes "ring_ok (ring_of E) cont"
    and "Read (kernel_of E) (Fd c) (readBufSize E) (ckern c) = ((data, None), k)" and "data \<noteq> []"
    and "onTrack E (c\<lparr>ckern := k, Buffer := data\<rparr>) = (e, c2)"
  shows "\<exists>c'. conn_ReadFromFd E c = Ret (e, c') \<and>
     cont (InBuffer c') @ Buffer c' = (cont (InBuffer c2) @ Buffer c2) @ Buffer c2"
  using assms by (simp add: conn_ReadFromFd_def Let_def ring_ok_def)

theorem unread_input_is_doubled_witness:
  "\<exists>c'. conn_ReadFromFd demo_env demo_conn = Ret (None, c') \<and> InBuffer c' @ Buffer c' = ''hihi''"
proof -
  have r: "ring_ok (ring_of demo_env) id" using demo_ring by (simp add: demo_env_def)
  have "Read (kernel_of demo_env) (Fd demo_conn) (readBufSize demo_env) (ckern demo_conn) =
      ((''hi'', None), ckern demo_conn)" by (simp add: Read_def demo_env_def demo_kernel_def demo_conn_def NewTCPConn_def)
  moreover have "onTrack demo_env (demo_conn\<lparr>ckern := ckern demo_conn, Buffer := ''hi''\<rparr>) =
      (None, demo_conn\<lparr>Buffer := ''hi''\<rparr>)" by (simp add: demo_env_def)
  ultimately show ?thesis
    using unread_input_is_doubled [OF r, of demo_conn "''hi''"]
    by (auto simp: demo_conn_def NewTCPConn_def demo_env_def string_ring_def)
qed

text \<open>
  A hang-up of an idle connection is not noticed on Linux: an event with \<open>EPOLLERR\<close>, \<open>EPOLLHUP\<close>
  or \<open>EPOLLRDHUP\<close> goes to the write method, which indexes an empty \<open>Peek\<close>. It panics before it
  has touched the connection, so the descriptor is neither read nor closed, whatever other bits
  the event carries.
\<close>

lemma hang_up_on_idle_connection_panics:
  assumes "ob_Peek (out_of E) (-1) (OutBuffer c) = []"
    and "events AND (0x8 OR 0x10 OR 0x2000) \<noteq> 0"
  shows "AsyncHandleEventsAndWait linux_masks events (conn_ops E) c = Panic"
proof -
  have "events AND OutEvents linux_masks \<noteq> 0"
    using assms(2) and_or_word [of events "0x8 OR 0x10 OR 0x2000" "0x4"]
    by (simp add: linux_masks_def ErrEvents_def)
  then show ?thesis
    using assms(1)
    by (simp add: AsyncHandleEventsAndWait_def linux_masks_def conn_ops_def conn_job_def
        conn_WriteToFd_def send_iov_def index_expr_def)
qed

text \<open>One round of the flush that succeeds keeps the stream and leaves less to send.\<close>

lemma flush_round:
  assumes "posix (kernel_of E) S" "elastic_ok (out_of E) cont"
    and "\<And>fd iov k n k'. Writev (kernel_of E) fd iov k = ((n, None), k') \<Longrightarrow> concat iov \<noteq> [] \<Longrightarrow> n > 0"
    and "\<And>n b. [] \<notin> set (ob_Peek (out_of E) n b)"
    and "cont (OutBuffer c) \<noteq> []"
    and w: "Writev (kernel_of E) (Fd c) (take IovMax (ob_Peek (out_of E) 0 (OutBuffer c))) (ckern c) = ((n, None), k)"
  defines "c1 \<equiv> c\<lparr>ckern := k, OutBuffer := ob_Discard (out_of E) n (OutBuffer c)\<rparr>"
  shows "stream S cont c1 = stream S cont c \<and> length (cont (OutBuffer c1)) < length (cont (OutBuffer c))"
proof -
  let ?iov = "take IovMax (ob_Peek (out_of E) 0 (OutBuffer c))"
  have peek: "concat (ob_Peek (out_of E) 0 (OutBuffer c)) = cont (OutBuffer c)"
    using assms(2) by (simp add: elastic_ok_def)
  have pw: "posix_write S (Fd c) (concat ?iov) (ckern c) ((n, None), k)"
    by (rule posix_Writev [OF assms(1) w])
  obtain d ds where p: "ob_Peek (out_of E) 0 (OutBuffer c) = d # ds"
    using peek assms(5) by (cases "ob_Peek (out_of E) 0 (OutBuffer c)") auto
  then have "d \<noteq> []" using assms(4) [of 0 "OutBuffer c"] by auto
  then have "concat ?iov \<noteq> []" using p by (simp add: IovMax_def numeral_eq_Suc)
  then have n: "n > 0" using assms(3) w by blast
  have nn: "nat n \<le> length (concat ?iov)"
      "S k (Fd c) = S (ckern c) (Fd c) @ take (nat n) (concat ?iov)"
    using pw by (auto simp: posix_write_def)
  have disc: "cont (OutBuffer c1) = drop (nat n) (cont (OutBuffer c))"
    using assms(2) by (simp add: elastic_ok_def c1_def)
  then have "stream S cont c1 = stream S cont c"
    using nn concat_take_prefix [OF nn(1)] peek by (simp add: stream_def c1_def)
  then show ?thesis using disc assms(5) n by simp
qed

text \<open>
  C20. The flush of \<open>Close\<close> ends, and what it does: with a kernel whose successful \<open>writev\<close> of some
  bytes takes at least one, and a buffer that shows no empty chunk, the loop returns, the stream is
  unchanged, and either the whole output buffer has been sent or a \<open>writev\<close> has failed
  (\<open>EAGAIN\<close> included), and then \<open>Close\<close> goes on to drop what is left.
\<close>

theorem close_flush_ends:
  assumes "posix (kernel_of E) S" and "elastic_ok (out_of E) cont"
    and "\<And>fd iov k n k'. Writev (kernel_of E) fd iov k = ((n, None), k') \<Longrightarrow> concat iov \<noteq> [] \<Longrightarrow> n > 0"
    and "\<And>n b. [] \<notin> set (ob_Peek (out_of E) n b)"
  shows "\<exists>c'. close_flush E c = Some c' \<and> stream S cont c' = stream S cont c \<and>
     (cont (OutBuffer c') = [] \<or> (\<exists>iov k n e. Writev (kernel_of E) (Fd c) iov k = ((n, Some e), ckern c')))"
proof (induction "length (cont (OutBuffer c))" arbitrary: c rule: less_induct)
  case less
  let ?iov = "take IovMax (ob_Peek (out_of E) 0 (OutBuffer c))"
  show ?case
  proof (cases "ob_IsEmpty (out_of E) (OutBuffer c)")
    case True
    then have "cont (OutBuffer c) = []" using assms(2) by (simp add: elastic_ok_def)
    then show ?thesis using True by (subst close_flush.simps) simp
  next
    case False
    then have ne: "cont (OutBuffer c) \<noteq> []" using assms(2) by (simp add: elastic_ok_def)
    obtain n e k where w: "Writev (kernel_of E) (Fd c) ?iov (ckern c) = ((n, e), k)" by (metis prod.exhaust)
    then have pw: "posix_write S (Fd c) (concat ?iov) (ckern c) ((n, e), k)"
      by (rule posix_Writev [OF assms(1)])
    show ?thesis
    proof (cases e)
      case (Some x)
      then show ?thesis
        using False w pw by (subst close_flush.simps) (auto simp: posix_write_def stream_def)
    next
      case None
      let ?c1 = "c\<lparr>ckern := k, OutBuffer := ob_Discard (out_of E) n (OutBuffer c)\<rparr>"
      have st: "stream S cont ?c1 = stream S cont c" "length (cont (OutBuffer ?c1)) < length (cont (OutBuffer c))"
        using flush_round [OF assms ne] w None by simp_all
      from less [OF st(2)] obtain c' where "close_flush E ?c1 = Some c'" "stream S cont c' = stream S cont ?c1"
          "cont (OutBuffer c') = [] \<or> (\<exists>iov k n e. Writev (kernel_of E) (Fd ?c1) iov k = ((n, Some e), ckern c'))"
        by blast
      then show ?thesis
        using False w None st(1) by (subst close_flush.simps) simp
    qed
  qed
qed

theorem close_flush_ends_witness:
  "\<exists>c'. close_flush demo_env (demo_conn\<lparr>OutBuffer := [''abcdef'', ''gh'', ''xyz'']\<rparr>) = Some c' \<and>
     stream demo_sent concat c' = ''abcdefghxyz''"
proof -
  have "n > 0" if "Writev demo_kernel fd iov k = ((n, None), k')" "concat iov \<noteq> []" for fd iov k n k'
    using that by (auto simp: demo_kernel_def demo_take_def Writev_def min_def simp del: concat_eq_Nil_conv split: if_splits)
  moreover have "[] \<notin> set (ob_Peek chunk_ops n b)" for n b by (simp add: chunk_ops_def)
  ultimately obtain c' where "close_flush demo_env (demo_conn\<lparr>OutBuffer := [''abcdef'', ''gh'', ''xyz'']\<rparr>) = Some c'"
      "stream demo_sent concat c' = stream demo_sent concat (demo_conn\<lparr>OutBuffer := [''abcdef'', ''gh'', ''xyz'']\<rparr>)"
    using close_flush_ends [of demo_env demo_sent concat "demo_conn\<lparr>OutBuffer := [''abcdef'', ''gh'', ''xyz'']\<rparr>"]
      demo_posix demo_elastic by (auto simp: demo_env_def)
  then show ?thesis by (simp add: stream_def demo_sent_def demo_conn_def NewTCPConn_def)
qed

text \<open>
  Output that a write leaves behind is armed: when a write to a connection with an empty output
  buffer reports no error and has buffered something, the connection is registered for write
  events.
\<close>

lemma backlog_is_armed:
  assumes "elastic_ok (out_of E) cont"
    and "\<And>pfd fd ev k k'. k_epoll_ctl (kernel_of E) pfd CTL_MOD fd ev k = (None, k') \<Longrightarrow> interest k' pfd fd = ev"
    and "ob_IsEmpty (out_of E) (OutBuffer c)" and "conn_write E d c = Ret ((n, None), c')" and "n \<noteq> -1"
    and "\<not> ob_IsEmpty (out_of E) (OutBuffer c')"
  shows "interest (ckern c') (PollFd c') (Fd c') = ReadWriteEvents \<and> ReadWriteEvents AND WriteEvents \<noteq> 0"
proof -
  have arm: "on_poll (ModReadWrite (kernel_of E)) c1 = (None, c2) \<Longrightarrow>
      interest (ckern c2) (PollFd c2) (Fd c2) = ReadWriteEvents" for c1 c2
    using assms(2) by (auto simp: on_poll_def ModReadWrite_def epollFdHandler_def split: prod.splits)
  have "interest (ckern c') (PollFd c') (Fd c') = ReadWriteEvents"
    using assms(3-)
    by (auto simp: conn_write_def Let_def go_bind_eq_Ret dest: arm split: prod.splits option.splits if_splits)
  then show ?thesis by (simp add: ReadWriteEvents_def ReadEvents_def WriteEvents_def)
qed

text \<open>A kernel that remembers the last interest mask: the second part of its state.\<close>

definition ctl_kernel :: "(demo_k \<times> 32 word, unit) kernel" where
  "ctl_kernel = \<lparr>k_epoll_ctl = (\<lambda>_ _ _ ev (k, _). (None, (k, ev))),
     k_write = (\<lambda>fd d (k, m). case demo_take fd d k of (r, k') \<Rightarrow> (r, (k', m))),
     k_writev = (\<lambda>fd ds (k, m). case demo_take fd (concat (map Base ds)) k of ((n, e), k') \<Rightarrow> ((n, if e = None then 0 else 11), (k', m))),
     k_readv = (\<lambda>_ _ k. ((0, [], 0), k)),
     k_read = (\<lambda>_ _ k. ((''hi'', None), k)), k_sendto = (\<lambda>_ _ _ k. (None, k)), k_close = (\<lambda>_ k. (None, k)),
     k_setsockopt = (\<lambda>_ _ _ k. (None, k)), k_accept4 = (\<lambda>_ k. ((9, None, None), k)),
     k_accept = (\<lambda>_ k. ((9, None, None), k)), k_set_nonblock = (\<lambda>_ k. (None, k)),
     k_epoll_create = (\<lambda>k. ((4, None), k)), k_eventfd = (\<lambda>k. ((3, None), k))\<rparr>"

definition ctl_env :: "(unit, bytes list, bytes, unit, demo_k \<times> 32 word, unit) conn_env" where
  "ctl_env = \<lparr>kernel_of = ctl_kernel, out_of = chunk_ops, ring_of = string_ring, readBufSize = 64,
     onOpen = (\<lambda>c. ((Some ''greeting'', None), c)), onTrack = (\<lambda>c. (None, c)), onClose = (\<lambda>c. (None, c)),
     handshake = (\<lambda>c. (None, c)), hookGo = (\<lambda>_ c. (None, c)), removeConn = (\<lambda>_ w. w),
     pollerAddTask = (\<lambda>_ c. (None, c))\<rparr>"

theorem backlog_is_armed_witness:
  "\<exists>c'. conn_write ctl_env ''abcdef'' (NewTCPConn ctl_env 9 [] (\<lambda>_. [], 0) ()) = Ret ((6, None), c') \<and>
     OutBuffer c' = [''ef''] \<and> snd (ckern c') = ReadWriteEvents"
proof -
  let ?c = "NewTCPConn ctl_env 9 [] (\<lambda>_. [], 0) ()"
  let ?c' = "?c\<lparr>OutBuffer := [''ef''], ckern := ((\<lambda>_. [])(9 := ''abcd''), ReadWriteEvents)\<rparr>"
  have w: "conn_write ctl_env ''abcdef'' ?c = Ret ((6, None), ?c')"
    by (simp add: ctl_env_def ctl_kernel_def demo_eval)
  have "k_epoll_ctl (kernel_of ctl_env) pfd CTL_MOD fd ev k = (None, k') \<Longrightarrow> snd k' = ev" for pfd fd ev k k'
    by (auto simp: ctl_env_def ctl_kernel_def split: prod.splits)
  then have "snd (ckern ?c') = ReadWriteEvents"
    using backlog_is_armed [of ctl_env concat "\<lambda>k _ _. snd k", OF _ _ _ w] demo_elastic
    by (simp add: ctl_env_def chunk_ops_def NewTCPConn_def)
  then show ?thesis using w by (intro exI [of _ ?c']) simp
qed

text \<open>
  A greeting that does not fit: when the data of \<open>OnOpen\<close> leaves something in the output buffer,
  \<open>Open\<close> adds the descriptor to the poller a second time. A kernel that answers \<open>EEXIST\<close> to that
  (epoll does) makes \<open>Open\<close> fail on a connection that stays open.
\<close>

lemma open_with_backlog_fails:
  assumes "onOpen E (c\<lparr>Opened := True\<rparr>) = ((Some d, e), c1)"
    and "conn_write E d c1 = Ret ((n, None), c2)" and "\<not> ob_IsEmpty (out_of E) (OutBuffer c2)"
    and "\<And>k. k_epoll_ctl (kernel_of E) (PollFd c2) CTL_ADD (Fd c2) WriteEvents k = (Some (Errno 17), k)"
  shows "conn_Open E c = Ret (Some (SyscallError ''epoll_ctl_add'' (Errno 17)), c2)"
  using assms by (simp add: conn_Open_def on_poll_def AddWrite_def epollFdHandler_def SysError_def)

text \<open>
  A failed TLS handshake leaves the connection as it is: \<open>InitContext\<close> runs before \<open>Open\<close>, so its
  call of \<open>Close\<close> finds \<open>Opened\<close> false and returns without closing the descriptor, and the context
  stays nil. And the handshake of a new connection has nothing to read: its first \<open>Read\<close> reports
  \<open>EOF\<close>.
\<close>

lemma failed_handshake_closes_nothing:
  assumes "handshake E c = (Some e, c1)" and "\<not> Opened c1" and "AddrLocal c1 = Some (TCPAddr ip port zone)"
    and "ring_ok (ring_of E) cont" and "m > 0"
  shows "InitContext E True a cb c = Ret (Some e, c1) \<and>
    fst (conn_Read E m (NewTCPConn E fd ob k w)) = ([], Some EOF)"
  using assms by (simp add: InitContext_def conn_Close_def conn_Read_def NewTCPConn_def ring_ok_def)

theorem failed_handshake_closes_nothing_witness:
  "InitContext demo_env True ConnNoneAdapter None
     ((NewTCPConn demo_env 9 [] (\<lambda>_. []) ())\<lparr>AddrLocal := Some (TCPAddr ''x'' 80 [])\<rparr>) =
   Ret (Some EOF, (NewTCPConn demo_env 9 [] (\<lambda>_. []) ())\<lparr>AddrLocal := Some (TCPAddr ''x'' 80 [])\<rparr>)"
proof -
  let ?c = "(NewTCPConn demo_env 9 [] (\<lambda>_. []) ())\<lparr>AddrLocal := Some (TCPAddr ''x'' 80 [])\<rparr>"
  have h: "handshake demo_env ?c = (Some EOF, ?c)" by (simp add: demo_env_def)
  have nop: "\<not> Opened ?c" and a: "AddrLocal ?c = Some (TCPAddr ''x'' 80 [])" by (simp_all add: NewTCPConn_def)
  have r: "ring_ok (ring_of demo_env) id" using demo_ring by (simp add: demo_env_def)
  show ?thesis by (rule conjunct1 [OF failed_handshake_closes_nothing [OF h nop a r zero_less_one]])
qed

theorem open_with_backlog_fails_witness:
  "\<exists>c2. conn_Open (demo_env\<lparr>onOpen := \<lambda>c. ((Some ''greeting'', None), c)\<rparr>) demo_conn =
     Ret (Some (SyscallError ''epoll_ctl_add'' (Errno 17)), c2) \<and> Opened c2"
proof -
  let ?E = "demo_env\<lparr>onOpen := \<lambda>c. ((Some ''greeting'', None), c)\<rparr>"
  let ?c2 = "demo_conn\<lparr>OutBuffer := [''ting''], ckern := (\<lambda>_. [])(9 := ''gree'')\<rparr>"
  have "onOpen ?E (demo_conn\<lparr>Opened := True\<rparr>) = ((Some ''greeting'', None), demo_conn)"
    by (simp add: demo_conn_def)
  moreover have "conn_write ?E ''greeting'' demo_conn = Ret ((8, None), ?c2)" by (simp add: demo_eval)
  moreover have "\<not> ob_IsEmpty (out_of ?E) (OutBuffer ?c2)" by (simp add: demo_env_def chunk_ops_def)
  moreover have "k_epoll_ctl (kernel_of ?E) (PollFd ?c2) CTL_ADD (Fd ?c2) WriteEvents k = (Some (Errno 17), k)" for k
    by (simp add: demo_env_def demo_kernel_def)
  ultimately show ?thesis
    using open_with_backlog_fails [of ?E demo_conn "''greeting''" None demo_conn 8 ?c2]
    by (auto simp: demo_conn_def)
qed

end
