(* ===== verification/Kqueue.thy ===== *)
theory Kqueue
  imports WaitPoll
begin

text \<open>
  The Darwin build of the poller: \<open>sys/sys_poll_darwin.go\<close>. The map \<open>kFilters\<close> remembers the events
  a descriptor was added with; \<open>getKevents\<close> turns an old and a new event mask into a change list;
  the poll loop is that of \<open>WaitPoll\<close> over kernel events translated to event masks, with
  descriptor 0 as the wake-up. The system call \<open>kevent\<close> is a parameter.
\<close>

unbundle bit_operations_syntax

section \<open>Change lists\<close>

datatype filt = EVFILT_READ | EVFILT_WRITE | EVFILT_USER

record kevent =
  Ident :: int
  Filter :: filt
  Flags :: "16 word"

definition EV_ADD :: "16 word" where "EV_ADD = 0x1"
definition EV_DELETE :: "16 word" where "EV_DELETE = 0x2"
definition EV_ENABLE :: "16 word" where "EV_ENABLE = 0x4"
definition EV_ONESHOT :: "16 word" where "EV_ONESHOT = 0x10"
definition EV_CLEAR :: "16 word" where "EV_CLEAR = 0x20"
definition EV_ERROR :: "16 word" where "EV_ERROR = 0x4000"
definition EV_EOF :: "16 word" where "EV_EOF = 0x8000"

lemmas ev_flags = EV_ADD_def EV_DELETE_def EV_ENABLE_def EV_ONESHOT_def EV_CLEAR_def EV_ERROR_def EV_EOF_def

definition kIn :: "32 word" where "kIn = InEvents darwin_masks"
definition kOut :: "32 word" where "kOut = OutEvents darwin_masks"
definition kClosed :: "32 word" where "kClosed = ClosedFdEvents darwin_masks"
definition InAndOutEvents :: "32 word" where "InAndOutEvents = kIn OR kOut"
definition NoneEvents :: "32 word" where "NoneEvents = 0"

lemmas k_masks = kIn_def kOut_def kClosed_def InAndOutEvents_def NoneEvents_def darwin_masks_def

definition kadd :: "int \<Rightarrow> filt \<Rightarrow> kevent" where
  "kadd fd f = \<lparr>Ident = fd, Filter = f, Flags = EV_ADD OR EV_ENABLE\<rparr>"

definition kdel :: "int \<Rightarrow> filt \<Rightarrow> kevent" where
  "kdel fd f = \<lparr>Ident = fd, Filter = f, Flags = EV_DELETE OR EV_ONESHOT\<rparr>"

definition getKevents :: "32 word \<Rightarrow> 32 word \<Rightarrow> int \<Rightarrow> kevent list" where
  "getKevents old new fd =
     (if new AND kIn \<noteq> 0 \<and> old AND kIn = 0 then [kadd fd EVFILT_READ] else []) @
     (if new AND kIn = 0 \<and> old AND kIn \<noteq> 0 then [kdel fd EVFILT_READ] else []) @
     (if new AND kOut \<noteq> 0 \<and> old AND kOut = 0 then [kadd fd EVFILT_WRITE] else []) @
     (if new AND kOut = 0 \<and> old AND kOut \<noteq> 0 then [kdel fd EVFILT_WRITE] else [])"

section \<open>Registration\<close>

record 'k kq =
  kFilters :: "int \<rightharpoonup> 32 word"
  kq_kern :: 'k

type_synonym 'k kevent_call = "int \<Rightarrow> kevent list \<Rightarrow> 'k \<Rightarrow> nerror \<times> 'k"

definition kq_add :: "32 word \<Rightarrow> 'k kevent_call \<Rightarrow> int \<Rightarrow> int \<Rightarrow> 'k kq \<Rightarrow> nerror \<times> 'k kq" where
  "kq_add evs kev pollFd fd s =
     (let s1 = s\<lparr>kFilters := (kFilters s)(fd \<mapsto> evs)\<rparr> in
      case kev pollFd (getKevents NoneEvents evs fd) (kq_kern s1) of
        (e, k) \<Rightarrow> (SysError ''kevent_add'' e, s1\<lparr>kq_kern := k\<rparr>))"

definition kq_mod :: "32 word \<Rightarrow> 'k kevent_call \<Rightarrow> int \<Rightarrow> int \<Rightarrow> 'k kq \<Rightarrow> nerror \<times> 'k kq" where
  "kq_mod evs kev pollFd fd s =
     (case kFilters s fd of
        None \<Rightarrow> (SysError ''kevent_del'' (Some (NewError ''fd not added!'')), s)
      | Some old \<Rightarrow> (case kev pollFd (getKevents old evs fd) (kq_kern s) of
          (e, k) \<Rightarrow> (SysError ''kevent_del'' e, s\<lparr>kq_kern := k\<rparr>)))"

definition kq_AddReadWrite :: "'k kevent_call \<Rightarrow> int \<Rightarrow> int \<Rightarrow> 'k kq \<Rightarrow> nerror \<times> 'k kq" where
  "kq_AddReadWrite = kq_add InAndOutEvents"
definition kq_AddRead :: "'k kevent_call \<Rightarrow> int \<Rightarrow> int \<Rightarrow> 'k kq \<Rightarrow> nerror \<times> 'k kq" where
  "kq_AddRead = kq_add kIn"
definition kq_AddWrite :: "'k kevent_call \<Rightarrow> int \<Rightarrow> int \<Rightarrow> 'k kq \<Rightarrow> nerror \<times> 'k kq" where
  "kq_AddWrite = kq_add kOut"
definition kq_ModRead :: "'k kevent_call \<Rightarrow> int \<Rightarrow> int \<Rightarrow> 'k kq \<Rightarrow> nerror \<times> 'k kq" where
  "kq_ModRead = kq_mod kIn"
definition kq_ModWrite :: "'k kevent_call \<Rightarrow> int \<Rightarrow> int \<Rightarrow> 'k kq \<Rightarrow> nerror \<times> 'k kq" where
  "kq_ModWrite = kq_mod kOut"
definition kq_ModReadWrite :: "'k kevent_call \<Rightarrow> int \<Rightarrow> int \<Rightarrow> 'k kq \<Rightarrow> nerror \<times> 'k kq" where
  "kq_ModReadWrite = kq_mod InAndOutEvents"

definition kq_UnRegister :: "'k kevent_call \<Rightarrow> int \<Rightarrow> int \<Rightarrow> 'k kq \<Rightarrow> nerror \<times> 'k kq" where
  "kq_UnRegister kev pollFd fd s =
     (case kFilters s fd of
        None \<Rightarrow> (SysError ''kevent_del'' (Some (NewError ''fd not added!'')), s)
      | Some old \<Rightarrow> (case kev pollFd (getKevents old NoneEvents fd) (kq_kern s) of
          (e, k) \<Rightarrow> (SysError ''kevent_del'' e,
             s\<lparr>kq_kern := k, kFilters := (if e = None then (kFilters s)(fd := None) else kFilters s)\<rparr>)))"

section \<open>The poll loop\<close>

definition kevent_mask :: "kevent \<Rightarrow> 32 word" where
  "kevent_mask ev =
     (if Flags ev AND EV_EOF \<noteq> 0 \<or> Flags ev AND EV_ERROR \<noteq> 0 then kClosed else 0) OR
     (if Filter ev = EVFILT_WRITE \<and> Flags ev AND EV_ENABLE \<noteq> 0 then kOut else 0) OR
     (if Filter ev = EVFILT_READ \<and> Flags ev AND EV_ENABLE \<noteq> 0 then kIn else 0)"

text \<open>A timeout of \<open>-1\<close> is the nil timespec, 0 the zero timespec; nothing has to be read to drain.\<close>

definition kq_WaitPoll ::
  "(nat \<Rightarrow> int \<Rightarrow> 's \<Rightarrow> (error + kevent list) \<times> 's) \<Rightarrow> 's wait_callback \<Rightarrow> (nerror \<Rightarrow> nerror) \<Rightarrow> nat \<Rightarrow> 's \<Rightarrow> 's poll_run go" where
  "kq_WaitPoll wait w doCallbackErr n s =
     WaitPoll \<lparr>ep_wait = (\<lambda>sz timeout s. case wait sz timeout s of
                  (Inl e, s1) \<Rightarrow> (Inl e, s1)
                | (Inr evs, s1) \<Rightarrow> (Inr (map (\<lambda>ev. (Ident ev, kevent_mask ev)) evs), s1)),
               wakeFd = 0, readWake = id, wcb = w, doErr = doCallbackErr\<rparr> n s"

definition kq_CreatePoll :: "('k \<Rightarrow> (int \<times> nerror) \<times> 'k) \<Rightarrow> 'k kevent_call \<Rightarrow> (int \<Rightarrow> 'k \<Rightarrow> 'k) \<Rightarrow> 'k \<Rightarrow>
    (int \<times> int \<times> nerror) \<times> 'k" where
  "kq_CreatePoll kqueue kev close k =
     (case kqueue k of
        ((pfd, Some e), k1) \<Rightarrow> ((pfd, 0, SysError ''kqueue'' (Some e)), k1)
      | ((pfd, None), k1) \<Rightarrow>
          (case kev pfd [\<lparr>Ident = 0, Filter = EVFILT_USER, Flags = EV_ADD OR EV_CLEAR\<rparr>] k1 of
             (Some e, k2) \<Rightarrow> ((pfd, 0, SysError ''kqueue_eventfd'' (Some e)), close pfd k2)
           | (None, k2) \<Rightarrow> ((pfd, pfd, None), k2)))"

definition kq_Trigger :: "'k kevent_call \<Rightarrow> kevent list \<Rightarrow> int \<Rightarrow> 'k \<Rightarrow> nerror \<times> 'k" where
  "kq_Trigger kev noteTrigger pollFd k =
     (case kev pollFd noteTrigger k of
        (e, k') \<Rightarrow> (SysError ''kevent_trigger'' (if e = Some EAGAIN then None else e), k'))"

definition kq_Accept :: "('k, 'sa) kernel \<Rightarrow> int \<Rightarrow> int option \<Rightarrow> 'k \<Rightarrow> (int \<times> 'sa option \<times> nerror) \<times> 'k" where
  "kq_Accept K lfd timeout k =
     (case k_accept K lfd k of
        ((nfd, sa, Some e), k1) \<Rightarrow> ((-1, None, Some e), k1)
      | ((nfd, sa, None), k1) \<Rightarrow>
          (case k_set_nonblock K nfd k1 of
             (Some e, k2) \<Rightarrow> ((-1, None, Some e), snd (k_close K nfd k2))
           | (None, k2) \<Rightarrow> ((nfd, sa, None), snd (SetKeepAlive K nfd timeout k2))))"

section \<open>What the kernel has registered\<close>

text \<open>A change list as the kernel applies it to its set of filters.\<close>

fun apply_change :: "kevent \<Rightarrow> (int \<times> filt) set \<Rightarrow> (int \<times> filt) set" where
  "apply_change ev R =
     (if Flags ev AND EV_ADD \<noteq> 0 then insert (Ident ev, Filter ev) R
      else if Flags ev AND EV_DELETE \<noteq> 0 then R - {(Ident ev, Filter ev)} else R)"

definition filters_of :: "32 word \<Rightarrow> int \<Rightarrow> (int \<times> filt) set" where
  "filters_of evs fd =
     (if evs AND kIn \<noteq> 0 then {(fd, EVFILT_READ)} else {}) \<union> (if evs AND kOut \<noteq> 0 then {(fd, EVFILT_WRITE)} else {})"

lemma apply_kadd [simp]: "apply_change (kadd fd f) R = insert (fd, f) R"
  by (simp add: kadd_def ev_flags)

lemma apply_kdel [simp]: "apply_change (kdel fd f) R = R - {(fd, f)}"
  by (simp add: kdel_def ev_flags)

declare apply_change.simps [simp del]

text \<open>
  C21. \<open>getKevents\<close> computes the difference: applied by the kernel to the filters of the old mask
  (and any filters of other descriptors) its change list gives the filters of the new mask.
\<close>

theorem getKevents_moves_old_to_new:
  assumes "\<And>f. (fd, f) \<notin> R"
  shows "fold apply_change (getKevents old new fd) (filters_of old fd \<union> R) = filters_of new fd \<union> R"
  using assms by (auto simp: getKevents_def filters_of_def)

theorem getKevents_moves_old_to_new_witness:
  "fold apply_change (getKevents kIn InAndOutEvents 7) (filters_of kIn 7 \<union> {(8, EVFILT_READ)}) =
     filters_of InAndOutEvents 7 \<union> {(8, EVFILT_READ)} \<and> getKevents kIn InAndOutEvents 7 = [kadd 7 EVFILT_WRITE]"
proof -
  have "fold apply_change (getKevents kIn InAndOutEvents 7) (filters_of kIn 7 \<union> {(8, EVFILT_READ)}) =
      filters_of InAndOutEvents 7 \<union> {(8, EVFILT_READ)}"
    by (rule getKevents_moves_old_to_new) simp
  then show ?thesis by (simp add: getKevents_def k_masks)
qed

section \<open>The remembered mask\<close>

text \<open>The calls that change the interest of a registered descriptor.\<close>

datatype kmod = ModR | ModW | ModRW

fun kmod_mask :: "kmod \<Rightarrow> 32 word" where
  "kmod_mask ModR = kIn"
| "kmod_mask ModW = kOut"
| "kmod_mask ModRW = InAndOutEvents"

definition kq_mods :: "'k kevent_call \<Rightarrow> int \<Rightarrow> int \<Rightarrow> kmod list \<Rightarrow> 'k kq \<Rightarrow> 'k kq" where
  "kq_mods kev pfd fd ms s = fold (\<lambda>m s. snd (kq_mod (kmod_mask m) kev pfd fd s)) ms s"

lemma kq_mod_filters: "kFilters (snd (kq_mod evs kev pfd fd s)) = kFilters s"
  by (auto simp: kq_mod_def split: option.split prod.split)

lemma kq_mods_filters: "kFilters (kq_mods kev pfd fd ms s) = kFilters s"
  by (induction ms arbitrary: s) (simp_all add: kq_mods_def kq_mod_filters)

lemma write_filter_stays:
  "(fd, EVFILT_WRITE) \<in> R \<Longrightarrow> (fd, EVFILT_WRITE) \<in> fold apply_change (getKevents kIn evs fd) R"
  by (auto simp: getKevents_def k_masks)

text \<open>
  On Darwin the interest in writing is never dropped again: no \<open>Mod\<close> call updates \<open>kFilters\<close>, so
  for a descriptor that was added with \<open>AddRead\<close>, as every connection is, each change list is
  computed against the read mask. Once a \<open>ModReadWrite\<close> or \<open>ModWrite\<close> has registered the write
  filter, no sequence of \<open>ModRead\<close>, \<open>ModWrite\<close> and \<open>ModReadWrite\<close>, and not even \<open>UnRegister\<close>,
  removes it.
\<close>

lemma write_filter_never_removed:
  assumes "\<And>chs k. reg (snd (kev pfd chs k)) = fold apply_change chs (reg k)"
    and "kFilters s fd = Some kIn" and "(fd, EVFILT_WRITE) \<in> reg (kq_kern s)"
  shows "(fd, EVFILT_WRITE) \<in> reg (kq_kern (kq_mods kev pfd fd ms s)) \<and>
    (fd, EVFILT_WRITE) \<in> reg (kq_kern (snd (kq_UnRegister kev pfd fd (kq_mods kev pfd fd ms s))))"
proof -
  have kev: "kev pfd chs k = (e, k') \<Longrightarrow> reg k' = fold apply_change chs (reg k)" for chs k e k'
    using assms(1) [of chs k] by simp
  have "(fd, EVFILT_WRITE) \<in> reg (kq_kern (kq_mods kev pfd fd ms s))"
    using assms(2,3)
  proof (induction ms arbitrary: s)
    case (Cons m ms)
    let ?s1 = "snd (kq_mod (kmod_mask m) kev pfd fd s)"
    have "(fd, EVFILT_WRITE) \<in> reg (kq_kern ?s1)"
      using Cons.prems write_filter_stays by (auto simp: kq_mod_def kev split: prod.split)
    then show ?case
      using Cons.IH [of ?s1] Cons.prems(1) by (simp add: kq_mods_def kq_mod_filters)
  qed (simp add: kq_mods_def)
  then show ?thesis
    using assms(2) write_filter_stays kq_mods_filters [of kev pfd fd ms s]
    by (auto simp: kq_UnRegister_def kev split: prod.split)
qed

text \<open>A kernel that is the set of its filters.\<close>

definition set_kevent :: "(int \<times> filt) set kevent_call" where
  "set_kevent pfd chs k = (None, fold apply_change chs k)"

theorem write_filter_never_removed_witness:
  "(7, EVFILT_WRITE) \<in> kq_kern (kq_mods set_kevent 4 7 [ModR, ModRW, ModR]
     (snd (kq_ModReadWrite set_kevent 4 7 (snd (kq_AddRead set_kevent 4 7 \<lparr>kFilters = Map.empty, kq_kern = {}\<rparr>)))))"
proof -
  let ?s = "snd (kq_ModReadWrite set_kevent 4 7 (snd (kq_AddRead set_kevent 4 7 \<lparr>kFilters = Map.empty, kq_kern = {}\<rparr>)))"
  have "kFilters ?s 7 = Some kIn" "(7, EVFILT_WRITE) \<in> id (kq_kern ?s)"
    by (simp_all add: kq_ModReadWrite_def kq_AddRead_def kq_mod_def kq_add_def set_kevent_def getKevents_def k_masks)
  from write_filter_never_removed [of id set_kevent 4, OF _ this, of "[ModR, ModRW, ModR]"]
  show ?thesis by (simp add: set_kevent_def)
qed

end
