(* ===== verification/Eloop.thy ===== *)
theory Eloop
  imports Conn Poller Balancer
begin

text \<open>
  Package eloop: the event loop of \<open>eventloop.go\<close>, which accepts connections, registers them and
  counts them, and the two poll callbacks of \<open>event.go\<close>. A connection object lives in a heap
  (\<open>objs\<close>); \<open>ConnList\<close> maps a descriptor to its address there. The poller state of \<open>Poller\<close> has the
  loop in its \<open>world\<close>.
\<close>

section \<open>State\<close>

record 'x eloop =
  ConnList :: "int \<rightharpoonup> nat"
  ConnCount :: "32 word"
  Index :: int
  eworld :: 'x

definition AddConnCount :: "32 word \<Rightarrow> 'x eloop \<Rightarrow> 32 word \<times> 'x eloop" where
  "AddConnCount i el = (ConnCount el + i, el\<lparr>ConnCount := ConnCount el + i\<rparr>)"

definition GetConnCount :: "'x eloop \<Rightarrow> 32 word" where
  "GetConnCount el = ConnCount el"

text \<open>\<open>that.ConnCount = that.AddConnCount(i)\<close>, with nothing in between.\<close>

definition count_conn :: "32 word \<Rightarrow> 'x eloop \<Rightarrow> 'x eloop" where
  "count_conn i el = (case AddConnCount i el of (n, el1) \<Rightarrow> el1\<lparr>ConnCount := n\<rparr>)"

definition RemoveConn :: "int \<Rightarrow> 'x eloop \<Rightarrow> 'x eloop" where
  "RemoveConn fd el = count_conn (-1) (el\<lparr>ConnList := (ConnList el)(fd := None)\<rparr>)"

section \<open>Registering a connection\<close>

text \<open>
  \<open>RegisterConn\<close> of the object at address \<open>h\<close>. The error of \<open>InitContext\<close> is overwritten by that of
  \<open>Open\<close>.
\<close>

definition RegisterConn :: "('cb, 'ob, 'rb, 'sa, 'k, 'x eloop) conn_env \<Rightarrow> bool \<Rightarrow> adapter \<Rightarrow> 'cb option \<Rightarrow> nat \<Rightarrow>
    ('cb, 'ob, 'rb, 'sa, 'k, 'x eloop) conn \<Rightarrow> (nerror \<times> ('cb, 'ob, 'rb, 'sa, 'k, 'x eloop) conn) go" where
  "RegisterConn E tls a cb h c =
     (case on_poll (AddRead (kernel_of E)) c of
        (Some e, c1) \<Rightarrow> Ret (Some e, c1\<lparr>ckern := snd (k_close (kernel_of E) (Fd c1) (ckern c1))\<rparr>)
      | (None, c1) \<Rightarrow>
          go_bind (InitContext E tls a cb c1) (\<lambda>(_, c2).
            let c3 = c2\<lparr>cworld := (cworld c2)\<lparr>ConnList := (ConnList (cworld c2))(Fd c2 \<mapsto> h)\<rparr>\<rparr> in
            go_bind (conn_Open E c3) (\<lambda>(err, c4).
              Ret (err, if err = None then c4\<lparr>cworld := count_conn 1 (cworld c4)\<rparr> else c4))))"

text \<open>
  A failed TLS handshake is reported to nobody: when the handshake fails on a new connection,
  \<open>RegisterConn\<close> still enters it in \<open>ConnList\<close>, opens it (with the context the handshake left, nil
  for a new connection), counts it and returns nil. \<open>OnOpen\<close> here sends no greeting.
\<close>

lemma failed_handshake_is_registered:
  assumes "on_poll (AddRead (kernel_of E)) c = (None, c1)"
    and "handshake E c1 = (Some e, c2)" and "\<not> Opened c2" and "AddrLocal c2 = Some (TCPAddr ip port zone)"
    and "\<And>q. onOpen E q = ((None, None), q)" and "ob_IsEmpty (out_of E) (OutBuffer c2)"
  shows "\<exists>c'. RegisterConn E True a cb h c = Ret (None, c') \<and> Opened c' \<and> Ctx c' = Ctx c2 \<and>
     ConnList (cworld c') (Fd c2) = Some h \<and> ConnCount (cworld c') = ConnCount (cworld c2) + 1"
  using assms by (simp add: RegisterConn_def InitContext_def conn_Close_def conn_Open_def Let_def
      count_conn_def AddConnCount_def)

text \<open>The demo environment of \<open>Conn\<close> over an event loop; the kernel lets everything be added.\<close>

definition loop_env :: "(unit, bytes list, bytes, unit, demo_k, unit eloop) conn_env" where
  "loop_env = \<lparr>kernel_of = demo_kernel\<lparr>k_epoll_ctl := \<lambda>_ _ _ _ k. (None, k)\<rparr>, out_of = chunk_ops,
     ring_of = string_ring, readBufSize = 64, onOpen = (\<lambda>c. ((None, None), c)), onTrack = (\<lambda>c. (None, c)),
     onClose = (\<lambda>c. (None, c)), handshake = (\<lambda>c. (Some EOF, c)), hookGo = (\<lambda>_ c. (None, c)),
     removeConn = RemoveConn, pollerAddTask = (\<lambda>_ c. (None, c))\<rparr>"

definition new_eloop :: "unit eloop" where
  "new_eloop = \<lparr>ConnList = Map.empty, ConnCount = 0, Index = 0, eworld = ()\<rparr>"

definition new_conn :: "(unit, bytes list, bytes, unit, demo_k, unit eloop) conn" where
  "new_conn = (NewTCPConn loop_env 9 [] (\<lambda>_. []) new_eloop)\<lparr>AddrLocal := Some (TCPAddr ''x'' 80 [])\<rparr>"

lemmas loop_eval = loop_env_def new_conn_def NewTCPConn_def new_eloop_def

theorem failed_handshake_is_registered_witness:
  "\<exists>c'. RegisterConn loop_env True ConnNoneAdapter None 0 new_conn = Ret (None, c') \<and> Opened c' \<and> Ctx c' = None \<and>
     ConnList (cworld c') 9 = Some 0 \<and> ConnCount (cworld c') = 1"
proof -
  have 1: "on_poll (AddRead (kernel_of loop_env)) new_conn = (None, new_conn)"
    by (simp add: loop_eval on_poll_def AddRead_def epollFdHandler_def SysError_def)
  have 2: "handshake loop_env new_conn = (Some EOF, new_conn)" by (simp add: loop_env_def)
  have 3: "\<not> Opened new_conn" and 4: "AddrLocal new_conn = Some (TCPAddr ''x'' 80 [])"
    by (simp_all add: loop_eval)
  have 5: "\<And>q. onOpen loop_env q = ((None, None), q)" by (simp add: loop_env_def)
  have 6: "ob_IsEmpty (out_of loop_env) (OutBuffer new_conn)" by (simp add: loop_eval chunk_ops_def)
  have "Ctx new_conn = None" "Fd new_conn = 9" "ConnCount (cworld new_conn) = 0" by (simp_all add: loop_eval)
  then show ?thesis
    using failed_handshake_is_registered [OF 1 2 3 4 5 6, of ConnNoneAdapter None 0] by simp
qed

section \<open>The connection counter under concurrency\<close>

text \<open>
  Registration and removal run in goroutines of the pool. The update of the counter is two
  accesses: the atomic addition, whose result the goroutine keeps, and a plain store of that
  result. A goroutine is before the addition with its increment, holds the result, or is done.
\<close>

datatype counting = Before "32 word" | Holds "32 word" | Done

record count_sys =
  shared_count :: "32 word"
  counters :: "counting list"

inductive count_step :: "count_sys \<Rightarrow> count_sys \<Rightarrow> bool" where
  add: "i < length (counters s) \<Longrightarrow> counters s ! i = Before d \<Longrightarrow>
    count_step s (s\<lparr>shared_count := shared_count s + d, counters := (counters s)[i := Holds (shared_count s + d)]\<rparr>)"
| store: "i < length (counters s) \<Longrightarrow> counters s ! i = Holds v \<Longrightarrow>
    count_step s (s\<lparr>shared_count := v, counters := (counters s)[i := Done]\<rparr>)"

text \<open>
  The connection counter loses updates: two registrations that run at the same time on a loop
  without connections can both finish and leave it at 1, so \<open>LeastConn\<close> then compares wrong
  counts. Without interleaving the same two registrations leave it at 2.
\<close>

lemma conn_count_lost_update:
  "count_step\<^sup>*\<^sup>* \<lparr>shared_count = 0, counters = [Before 1, Before 1]\<rparr> \<lparr>shared_count = 1, counters = [Done, Done]\<rparr> \<and>
   ConnCount (count_conn 1 (count_conn 1 (el\<lparr>ConnCount := 0\<rparr>))) = 2"
proof -
  have 1: "count_step \<lparr>shared_count = 0, counters = [Before 1, Before 1]\<rparr>
      \<lparr>shared_count = 1, counters = [Holds 1, Before 1]\<rparr>"
    using count_step.add [of 0 "\<lparr>shared_count = 0, counters = [Before 1, Before 1]\<rparr>" 1] by simp
  have 2: "count_step \<lparr>shared_count = 1, counters = [Holds 1, Before 1]\<rparr>
      \<lparr>shared_count = 2, counters = [Holds 1, Holds 2]\<rparr>"
    using count_step.add [of 1 "\<lparr>shared_count = 1, counters = [Holds 1, Before 1]\<rparr>" 1] by simp
  have 3: "count_step \<lparr>shared_count = 2, counters = [Holds 1, Holds 2]\<rparr>
      \<lparr>shared_count = 2, counters = [Holds 1, Done]\<rparr>"
    using count_step.store [of 1 "\<lparr>shared_count = 2, counters = [Holds 1, Holds 2]\<rparr>" 2] by simp
  have 4: "count_step \<lparr>shared_count = 2, counters = [Holds 1, Done]\<rparr>
      \<lparr>shared_count = 1, counters = [Done, Done]\<rparr>"
    using count_step.store [of 0 "\<lparr>shared_count = 2, counters = [Holds 1, Done]\<rparr>" 1] by simp
  have "count_step\<^sup>*\<^sup>* \<lparr>shared_count = 0, counters = [Before 1, Before 1]\<rparr> \<lparr>shared_count = 1, counters = [Done, Done]\<rparr>"
    using 1 2 3 4 by (meson converse_rtranclp_into_rtranclp rtranclp.rtrancl_refl)
  then show ?thesis by (simp add: count_conn_def AddConnCount_def)
qed

section \<open>The callback of a sub loop\<close>

record ('cb, 'ob, 'rb, 'sa, 'k, 'x) loop_world =
  objs :: "nat \<Rightarrow> ('cb, 'ob, 'rb, 'sa, 'k, 'x eloop) conn"
  eloop_of :: "'x eloop"

type_synonym ('t, 'cb, 'ob, 'rb, 'sa, 'k, 'x) sub_poller =
  "('t, 'k, ('cb, 'ob, 'rb, 'sa, 'k, 'x) loop_world) poller"

text \<open>A connection object sees the kernel and the loop of its poller.\<close>

definition get_conn :: "nat \<Rightarrow> ('t, 'cb, 'ob, 'rb, 'sa, 'k, 'x) sub_poller \<Rightarrow> ('cb, 'ob, 'rb, 'sa, 'k, 'x eloop) conn" where
  "get_conn h p = (objs (world p) h)\<lparr>ckern := kern p, cworld := eloop_of (world p)\<rparr>"

definition put_conn :: "nat \<Rightarrow> ('cb, 'ob, 'rb, 'sa, 'k, 'x eloop) conn \<Rightarrow> ('t, 'cb, 'ob, 'rb, 'sa, 'k, 'x) sub_poller \<Rightarrow>
    ('t, 'cb, 'ob, 'rb, 'sa, 'k, 'x) sub_poller" where
  "put_conn h c p = p\<lparr>kern := ckern c, world := \<lparr>objs = (objs (world p))(h := c), eloop_of = cworld c\<rparr>\<rparr>"

text \<open>
  A job of a connection in the goroutine pool. The pool recovers a panic, and the deferred
  \<open>wg.Done\<close> and \<open>Unlock\<close> run. \<open>WriteToFd\<close> panics before its first effect; what an application's handler
  had done before it panicked is not kept here.
\<close>

definition conn_pool_job :: "(('cb, 'ob, 'rb, 'sa, 'k, 'x eloop) conn \<Rightarrow> ('cb, 'ob, 'rb, 'sa, 'k, 'x eloop) conn go) \<Rightarrow>
    nat \<Rightarrow> ('t, 'cb, 'ob, 'rb, 'sa, 'k, 'x) sub_poller job" where
  "conn_pool_job f h p =
     (case f (get_conn h p) of Ret c \<Rightarrow> Some (put_conn h c p) | Panic \<Rightarrow> Some p | Blocked \<Rightarrow> None)"

definition recv_err :: "nat \<Rightarrow> ('t, 'cb, 'ob, 'rb, 'sa, 'k, 'x) sub_poller \<Rightarrow>
    nerror \<times> ('t, 'cb, 'ob, 'rb, 'sa, 'k, 'x) sub_poller" where
  "recv_err h p =
     (case ErrChan (get_conn h p) of
        [] \<Rightarrow> (None, p)
      | e # es \<Rightarrow> (Some e, put_conn h ((get_conn h p)\<lparr>ErrChan := es\<rparr>) p))"

definition is_wake_fd :: "int \<Rightarrow> ('t, 'cb, 'ob, 'rb, 'sa, 'k, 'x) sub_poller \<Rightarrow> bool" where
  "is_wake_fd fd p \<longleftrightarrow> fd = pollEvFd p \<or> fd = 0"

definition drain_wake :: "('k, 'sa) kernel \<Rightarrow> int \<Rightarrow> ('t, 'cb, 'ob, 'rb, 'sa, 'k, 'x) sub_poller \<Rightarrow>
    ('t, 'cb, 'ob, 'rb, 'sa, 'k, 'x) sub_poller" where
  "drain_wake K fd p = p\<lparr>kern := snd (Read K fd 128 (kern p))\<rparr>"

text \<open>\<open>EloopEventHandleConn\<close>: its three methods.\<close>

definition HandleConn_Callback :: "masks \<Rightarrow> ('cb, 'ob, 'rb, 'sa, 'k, 'x eloop) conn_env \<Rightarrow> int \<Rightarrow> 32 word \<Rightarrow>
    ('t, 'cb, 'ob, 'rb, 'sa, 'k, 'x) sub_poller \<Rightarrow> (nerror \<times> ('t, 'cb, 'ob, 'rb, 'sa, 'k, 'x) sub_poller) go" where
  "HandleConn_Callback M E fd events p =
     (if is_wake_fd fd p then Ret (None, drain_wake (kernel_of E) fd p)
      else (case ConnList (eloop_of (world p)) fd of
              Some h \<Rightarrow> go_bind (HandleEvents M events (conn_ops E) (get_conn h p)) (\<lambda>(e, c). Ret (e, put_conn h c p))
            | None \<Rightarrow> Ret (Some (NewError ''Connection not found!''), p)))"

text \<open>Only the write and read methods go through the pool; \<open>AsyncClose\<close> runs here (Darwin only).\<close>

definition HandleConn_AsyncWaitCallback :: "masks \<Rightarrow> ('cb, 'ob, 'rb, 'sa, 'k, 'x eloop) conn_env \<Rightarrow> int \<Rightarrow> 32 word \<Rightarrow>
    ('t, 'cb, 'ob, 'rb, 'sa, 'k, 'x) sub_poller \<Rightarrow>
    (('t, 'cb, 'ob, 'rb, 'sa, 'k, 'x) sub_poller \<Rightarrow> nerror \<times> ('t, 'cb, 'ob, 'rb, 'sa, 'k, 'x) sub_poller) option \<times>
    ('t, 'cb, 'ob, 'rb, 'sa, 'k, 'x) sub_poller job list \<times> ('t, 'cb, 'ob, 'rb, 'sa, 'k, 'x) sub_poller" where
  "HandleConn_AsyncWaitCallback M E fd events p =
     (if is_wake_fd fd p then (None, [], drain_wake (kernel_of E) fd p)
      else (case ConnList (eloop_of (world p)) fd of
              Some h \<Rightarrow> (Some (recv_err h), [conn_pool_job (AsyncHandleEventsAndWait M events (conn_ops E)) h], p)
            | None \<Rightarrow> (None, [], p)))"

text \<open>
  \<open>AsyncCallback\<close>, which nothing calls, submits the same jobs without adding them to the wait group: they
  run at some time after it has returned.
\<close>

definition HandleConn_AsyncCallback :: "masks \<Rightarrow> ('cb, 'ob, 'rb, 'sa, 'k, 'x eloop) conn_env \<Rightarrow> int \<Rightarrow> 32 word \<Rightarrow>
    ('t, 'cb, 'ob, 'rb, 'sa, 'k, 'x) sub_poller \<Rightarrow>
    (('t, 'cb, 'ob, 'rb, 'sa, 'k, 'x) sub_poller \<Rightarrow> nerror \<times> ('t, 'cb, 'ob, 'rb, 'sa, 'k, 'x) sub_poller) option \<times>
    ('t, 'cb, 'ob, 'rb, 'sa, 'k, 'x) sub_poller job list \<times> ('t, 'cb, 'ob, 'rb, 'sa, 'k, 'x) sub_poller" where
  "HandleConn_AsyncCallback M E fd events p =
     (if is_wake_fd fd p then (None, [], drain_wake (kernel_of E) fd p)
      else (case ConnList (eloop_of (world p)) fd of
              Some h \<Rightarrow> (Some (recv_err h), [conn_pool_job (AsyncHandleEvents M events (conn_ops E)) h], p)
            | None \<Rightarrow> (None, [], p)))"

definition EloopEventHandleConn :: "masks \<Rightarrow> ('cb, 'ob, 'rb, 'sa, 'k, 'x eloop) conn_env \<Rightarrow>
    ('t, 'cb, 'ob, 'rb, 'sa, 'k, 'x) sub_poller poll_callback" where
  "EloopEventHandleConn M E =
     \<lparr>IsBlocked = False, Callback = HandleConn_Callback M E, AsyncWaitCallback = HandleConn_AsyncWaitCallback M E\<rparr>"

text \<open>
  C27. A dead idle connection keeps the loop busy: when the kernel reports \<open>EPOLLERR\<close>, \<open>EPOLLHUP\<close> or
  \<open>EPOLLRDHUP\<close> for a registered connection with nothing to send, a whole pass of the sub loop over
  that event changes nothing at all: the connection is not read, not closed and not removed from
  the poller, so a level-triggered poll reports the same event again at once.
\<close>

theorem dead_connection_spins:
  assumes "ConnList (eloop_of (world p)) fd = Some h" and "fd \<noteq> pollEvFd p" and "fd \<noteq> 0" and "fd \<noteq> efd"
    and "ob_Peek (out_of E) (-1) (OutBuffer (objs (world p) h)) = []" and "ErrChan (objs (world p) h) = []"
    and "events AND (0x8 OR 0x10 OR 0x2000) \<noteq> 0" and "runs_all arrange"
  shows "dispatch (start_env K wait G arrange (EloopEventHandleConn linux_masks E) efd) [(fd, events)] False p =
    Ret (None, False, p)"
proof -
  let ?C = "EloopEventHandleConn linux_masks E"
  let ?j = "conn_pool_job (AsyncHandleEventsAndWait linux_masks events (conn_ops E)) h"
  have "AsyncHandleEventsAndWait linux_masks events (conn_ops E) (get_conn h p) = Panic"
    by (rule hang_up_on_idle_connection_panics) (use assms(5,7) in \<open>simp_all add: get_conn_def\<close>)
  then have job: "?j p = Some p" by (simp add: conn_pool_job_def)
  have "recv_err h p = (None, p)" using assms(6) by (simp add: recv_err_def get_conn_def)
  then have "start_callback K G arrange ?C fd events False p = Ret ((False, None), p)"
    using assms(1-3) job runs_all_simps [OF assms(8), of ?j]
    by (simp add: start_callback_def EloopEventHandleConn_def HandleConn_AsyncWaitCallback_def is_wake_fd_def
        end_callback_def)
  then show ?thesis using assms(4) by (simp add: start_env_def doWaitCallbackErr_def)
qed

definition demo_sub :: "(nat, unit, bytes list, bytes, unit, demo_k, unit) sub_poller" where
  "demo_sub = \<lparr>pollFd = 4, pollEvFd = 3, priorTasks = NewQueue, tasks = NewQueue, toTrigger = 0, Pool = PoolOpen,
     ErrForStop = Some [], ReadBufferSize = 64, kern = (\<lambda>_. []),
     world = \<lparr>objs = (\<lambda>_. new_conn\<lparr>Opened := True\<rparr>), eloop_of = new_eloop\<lparr>ConnList := [9 \<mapsto> 0], ConnCount := 1\<rparr>\<rparr>\<rparr>"

theorem dead_connection_spins_witness:
  "dispatch (start_env demo_kernel (\<lambda>_ _ k. (Inr [], k)) (\<lambda>t q. (None, q)) id (EloopEventHandleConn linux_masks loop_env) 3)
     [(9, 0x11)] False demo_sub = Ret (None, False, demo_sub)"
proof -
  have "ConnList (eloop_of (world demo_sub)) 9 = Some 0" "9 \<noteq> pollEvFd demo_sub"
    "ob_Peek (out_of loop_env) (-1) (OutBuffer (objs (world demo_sub) 0)) = []" "ErrChan (objs (world demo_sub) 0) = []"
    by (simp_all add: demo_sub_def loop_eval chunk_ops_def)
  then show ?thesis
    by (intro dead_connection_spins) (simp_all add: runs_all_def)
qed

section \<open>Accepting\<close>

text \<open>
  What the main loop queues for a new connection: \<open>RegisterConn\<close> of the chosen loop \<open>'e\<close> on the new
  connection. The task goes to the priority queue of the main loop's own poller, whose world is
  the balancer \<open>'b\<close>.
\<close>

datatype ('e, 'c) reg_task = RegisterTask 'e 'c

type_synonym ('e, 'b, 'c, 'k) main_poller = "(('e, 'c) reg_task, 'k, 'b) poller"

record ('e, 'b, 'c, 'k) accept_env =
  next_loop :: "'b \<Rightarrow> ('e \<times> 'b) go"
  loop_pollFd :: "'e \<Rightarrow> int"
  ifname :: "int \<Rightarrow> string option"
  ip_buf :: bytes
  zone_buf :: bytes
  listenerFd :: int
  listenerAddr :: "netaddr option"
  optWriteBuffer :: int
  optWritevChunkSize :: int
  optSocketWriteBuffer :: int
  optSocketReadBuffer :: int
  optConnKeepAlive :: int
  onAccept :: "'c \<Rightarrow> ('e, 'b, 'c, 'k) main_poller \<Rightarrow> nerror \<times> ('e, 'b, 'c, 'k) main_poller"

text \<open>
  \<open>packTcpConn\<close>: the address, the connection with its options, the loop the balancer chooses, the
  task. The error of \<open>AddPriorTask\<close> is dropped. A nil address of the kernel converts like an
  unknown one.
\<close>

definition packTcpConn :: "('cb, 'ob, 'rb, sockaddr, 'k, 'w) conn_env \<Rightarrow>
    ('e, 'b, ('cb, 'ob, 'rb, sockaddr, 'k, 'w) conn, 'k) accept_env \<Rightarrow> 'w \<Rightarrow> int \<Rightarrow> sockaddr option \<Rightarrow>
    ('e, 'b, ('cb, 'ob, 'rb, sockaddr, 'k, 'w) conn, 'k) main_poller \<Rightarrow>
    (('cb, 'ob, 'rb, sockaddr, 'k, 'w) conn \<times> ('e, 'b, ('cb, 'ob, 'rb, sockaddr, 'k, 'w) conn, 'k) main_poller) go" where
  "packTcpConn E A w nfd sock p =
     go_bind (SockaddrToTCPOrUnixAddr (ifname A) (ip_buf A) (zone_buf A)
         (case sock of Some sa \<Rightarrow> sa | None \<Rightarrow> OtherSockaddr)) (\<lambda>remote.
       let c = SetConn E \<lparr>co_PollFd = None, co_SockAddr = sock, co_LocalAddr = listenerAddr A,
                 co_RemoteAddr = remote, co_WriteBufferCap = optWriteBuffer A,
                 co_WritevChunkSize = optWritevChunkSize A, co_SocketWriteBuffer = optSocketWriteBuffer A,
                 co_SocketReadBuffer = optSocketReadBuffer A\<rparr>
               (NewTCPConn E nfd (ob_New (out_of E) 0) (kern p) w) in
       go_bind (next_loop A (world p)) (\<lambda>(e, b).
         let c1 = c\<lparr>PollFd := loop_pollFd A e\<rparr> in
         Ret (c1, snd (AddPriorTask (kernel_of E) (RegisterTask e c1) (p\<lparr>kern := ckern c, world := b\<rparr>)))))"

definition eloop_Accept :: "('cb, 'ob, 'rb, sockaddr, 'k, 'w) conn_env \<Rightarrow>
    ('e, 'b, ('cb, 'ob, 'rb, sockaddr, 'k, 'w) conn, 'k) accept_env \<Rightarrow> 'w \<Rightarrow>
    ('e, 'b, ('cb, 'ob, 'rb, sockaddr, 'k, 'w) conn, 'k) main_poller \<Rightarrow>
    (nerror \<times> ('e, 'b, ('cb, 'ob, 'rb, sockaddr, 'k, 'w) conn, 'k) main_poller) go" where
  "eloop_Accept E A w p =
     (case Accept (kernel_of E) (listenerFd A) (Some (optConnKeepAlive A)) (kern p) of
        ((nfd, sock, Some e), k) \<Rightarrow> Ret (Some ErrAcceptSocket, p\<lparr>kern := k\<rparr>)
      | ((nfd, sock, None), k) \<Rightarrow>
          go_bind (packTcpConn E A w nfd sock (p\<lparr>kern := k\<rparr>)) (\<lambda>(c, p1). Ret (onAccept A c p1)))"

text \<open>\<open>EloopEventAccept\<close>: the blocking callback accepts whatever descriptor the event is for.\<close>

definition EloopEventAccept :: "('cb, 'ob, 'rb, sockaddr, 'k, 'w) conn_env \<Rightarrow>
    ('e, 'b, ('cb, 'ob, 'rb, sockaddr, 'k, 'w) conn, 'k) accept_env \<Rightarrow> 'w \<Rightarrow>
    ('e, 'b, ('cb, 'ob, 'rb, sockaddr, 'k, 'w) conn, 'k) main_poller poll_callback" where
  "EloopEventAccept E A w =
     \<lparr>IsBlocked = True, Callback = (\<lambda>fd events. eloop_Accept E A w),
      AsyncWaitCallback = (\<lambda>fd events p. (None, [], p))\<rparr>"

text \<open>
  The wake-up of the main loop is taken for a connection: when the event descriptor wakes it to
  run the registration it has just queued, the callback runs the task and then accepts on the
  listener as well. With a listener that answers \<open>EAGAIN\<close> when nobody is waiting, that ends the
  main loop with \<open>ErrAcceptSocket\<close>: no further connection is ever accepted. (A blocking listener
  would block the loop in \<open>Accept\<close> until the next connection instead.)
\<close>

lemma wake_up_ends_main_loop:
  assumes "poller_ok p" and "Pool p = PoolOpen" and "recv_stop p = (None, p)"
    and "queue_model (priorTasks p) = [t]" and "queue_model (tasks p) = []"
    and "\<And>q. \<exists>k b. G t q = (None, q\<lparr>kern := k, world := b\<rparr>)"
    and "\<And>k. k_accept4 (kernel_of E) (listenerFd A) k = ((-1, None, Some EAGAIN), k)" and "runs_all arrange"
  shows "\<exists>p'. dispatch (start_env (kernel_of E) wait G arrange (EloopEventAccept E A w) efd) [(efd, events)] False p =
      Ret (Some ErrAcceptSocket, False, p')"
proof -
  let ?C = "EloopEventAccept E A w" and ?K = "kernel_of E"
  let ?p = "p\<lparr>kern := snd (k_read ?K efd 8 (kern p))\<rparr>"
  have "Pool ?p = PoolOpen" "poller_ok ?p" "queue_model (priorTasks ?p) = [t]" "queue_model (tasks ?p) = []"
    using assms(1,2,4,5) by (simp_all add: poller_ok_def)
  then obtain jobs2 p2 p3 where d: "drain_prior G [] ?p = Some (jobs2, p2)"
      "drain_tasks MaxTasks G jobs2 p2 = ([task_job G t], p3)"
      "p3 = ?p\<lparr>priorTasks := priorTasks p3, tasks := tasks p3\<rparr>"
      and p3: "poller_ok p3" "queue_model (priorTasks p3) = []" "queue_model (tasks p3) = []"
    using drain_all_open [of ?p G "[]"] by auto
  obtain k b where g: "G t p3 = (None, p3\<lparr>kern := k, world := b\<rparr>)" using assms(6) by blast
  let ?p4 = "p3\<lparr>kern := k, world := b\<rparr>"
  have "ErrForStop ?p4 = ErrForStop p" by (simp, subst d(3), simp)
  moreover have "ErrForStop p = None \<or> ErrForStop p = Some []"
    using assms(3) by (auto simp: recv_stop_def split: option.splits list.splits)
  ultimately have aw: "after_wait ?K ?p4 = ((None, False), ?p4\<lparr>toTrigger := 0\<rparr>)"
    using after_wait_quiet [of ?p4 ?K] p3 by (auto simp: poller_ok_def)
  have "Callback ?C efd events q = Ret (Some ErrAcceptSocket, q)" for q
    using assms(7) by (simp add: EloopEventAccept_def eloop_Accept_def Accept_def accept_falls_back_def)
  then have "start_callback ?K G arrange ?C efd events True ?p = Ret ((False, Some ErrAcceptSocket), ?p4\<lparr>toTrigger := 0\<rparr>)"
    using d g aw runs_all_simps [OF assms(8), of "task_job G t"]
    by (simp add: start_callback_def end_callback_def EloopEventAccept_def task_job_def)
  then show ?thesis by (simp add: start_env_def doWaitCallbackErr_def fatal_error_def)
qed

text \<open>A kernel without pending connections: the counter of the event descriptor.\<close>

definition main_kernel :: "(nat, sockaddr) kernel" where
  "main_kernel = \<lparr>k_epoll_ctl = (\<lambda>_ _ _ _ k. (None, k)), k_write = (\<lambda>_ d k. ((int (length d), None), k + 1)),
     k_writev = (\<lambda>_ d k. ((int (length (concat (map Base d))), 0), k)), k_readv = (\<lambda>_ _ k. ((0, [], 0), k)), k_read = (\<lambda>_ _ k. (([], None), 0)),
     k_sendto = (\<lambda>_ _ _ k. (None, k)), k_close = (\<lambda>_ k. (None, k)), k_setsockopt = (\<lambda>_ _ _ k. (None, k)),
     k_accept4 = (\<lambda>_ k. ((-1, None, Some EAGAIN), k)), k_accept = (\<lambda>_ k. ((-1, None, Some EAGAIN), k)),
     k_set_nonblock = (\<lambda>_ k. (None, k)), k_epoll_create = (\<lambda>k. ((4, None), k)), k_eventfd = (\<lambda>k. ((3, None), k))\<rparr>"

definition main_env :: "(unit, bytes list, bytes, sockaddr, nat, unit) conn_env" where
  "main_env = \<lparr>kernel_of = main_kernel, out_of = chunk_ops, ring_of = string_ring, readBufSize = 64,
     onOpen = (\<lambda>c. ((None, None), c)), onTrack = (\<lambda>c. (None, c)), onClose = (\<lambda>c. (None, c)),
     handshake = (\<lambda>c. (None, c)), hookGo = (\<lambda>_ c. (None, c)), removeConn = (\<lambda>_ w. w),
     pollerAddTask = (\<lambda>_ c. (None, c))\<rparr>"

definition main_accept :: "(nat, nat RoundRobin, (unit, bytes list, bytes, sockaddr, nat, unit) conn, nat) accept_env" where
  "main_accept = \<lparr>next_loop = rr_Next, loop_pollFd = int, ifname = (\<lambda>_. None), ip_buf = replicate 16 (CHR ''0''),
     zone_buf = replicate 32 (CHR ''0''), listenerFd = 6, listenerAddr = None, optWriteBuffer = 0,
     optWritevChunkSize = 0, optSocketWriteBuffer = 0, optSocketReadBuffer = 0, optConnKeepAlive = 0,
     onAccept = (\<lambda>c p. (None, p))\<rparr>"

definition main_conn :: "(unit, bytes list, bytes, sockaddr, nat, unit) conn" where
  "main_conn = NewTCPConn main_env 9 [] 0 ()"

definition main_demo :: "(nat, nat RoundRobin, (unit, bytes list, bytes, sockaddr, nat, unit) conn, nat) main_poller" where
  "main_demo = \<lparr>pollFd = 4, pollEvFd = 3, priorTasks = seq_Enqueue (RegisterTask 0 main_conn) NewQueue, tasks = NewQueue,
     toTrigger = 1, Pool = PoolOpen, ErrForStop = Some [], ReadBufferSize = 64, kern = 1,
     world = rr_Register 0 new_RoundRobin\<rparr>"

theorem wake_up_ends_main_loop_witness:
  "\<exists>p'. dispatch (start_env main_kernel (\<lambda>_ _ k. (Inr [], k)) (\<lambda>t q. (None, q)) id (EloopEventAccept main_env main_accept ()) 3)
      [(3, 1)] False main_demo = Ret (Some ErrAcceptSocket, False, p')"
proof -
  have q: "poller_ok main_demo" "queue_model (priorTasks main_demo) = [RegisterTask 0 main_conn]"
      "queue_model (tasks main_demo) = []"
    using tq.enq_ok [of "NewQueue :: (nat, (unit, bytes list, bytes, sockaddr, nat, unit) conn) reg_task queue"
        "RegisterTask 0 main_conn"]
    by (simp_all add: main_demo_def poller_ok_def NewQueue_ok)
  have p: "Pool main_demo = PoolOpen" "recv_stop main_demo = (None, main_demo)"
    by (simp_all add: main_demo_def recv_stop_def)
  have g: "\<exists>k b. (\<lambda>t q. (None, q)) (RegisterTask 0 main_conn) q = (None, q\<lparr>kern := k, world := b\<rparr>)"
    for q :: "(nat, nat RoundRobin, (unit, bytes list, bytes, sockaddr, nat, unit) conn, nat) main_poller"
    by (intro exI [of _ "kern q"] exI [of _ "world q"]) simp
  have k: "kernel_of main_env = main_kernel" by (simp add: main_env_def)
  have acc: "k_accept4 (kernel_of main_env) (listenerFd main_accept) k = ((-1, None, Some EAGAIN), k)" for k
    by (simp add: main_env_def main_kernel_def)
  have "runs_all id" by (simp add: runs_all_def)
  from wake_up_ends_main_loop [OF q(1) p q(2,3) g acc this, of "\<lambda>_ _ k. (Inr [], k)" "()" 3 1]
  show ?thesis unfolding k .
qed

section \<open>The rest of the loop\<close>

text \<open>
  \<open>StartAsMainLoop\<close> and \<open>StartAsSubLoop\<close>, without the locking of the thread; the errors are dropped.
\<close>

definition StartAsMainLoop where
  "StartAsMainLoop E A w wait G arrange n p =
     Start (kernel_of E) wait G arrange (EloopEventAccept E A w) n
       (snd (poller_AddRead (kernel_of E) (listenerFd A) p))"

definition StartAsSubLoop where
  "StartAsSubLoop M E wait G arrange n p = Start (kernel_of E) wait G arrange (EloopEventHandleConn M E) n p"

text \<open>\<open>CloseAllConn\<close> closes the objects of \<open>ConnList\<close> in some order; nothing calls it.\<close>

fun CloseAllConn :: "('cb, 'ob, 'rb, 'sa, 'k, 'x eloop) conn_env \<Rightarrow> nat list \<Rightarrow>
    ('t, 'cb, 'ob, 'rb, 'sa, 'k, 'x) sub_poller \<Rightarrow> ('t, 'cb, 'ob, 'rb, 'sa, 'k, 'x) sub_poller go" where
  "CloseAllConn E [] p = Ret p"
| "CloseAllConn E (h # hs) p =
     go_bind (conn_Close E (get_conn h p)) (\<lambda>(_, c). CloseAllConn E hs (put_conn h c p))"

end
