(* ===== verification/Engine.thy ===== *)
theory Engine
  imports Poller Balancer Sockets
begin

text \<open>
  Package engine: the defaults that \<open>Serve\<close> fills in, the reactors that \<open>startReactors\<close> makes,
  registers and starts, the hand-shake between \<open>Serve\<close> and \<open>Stop\<close> over a condition variable and a
  \<open>sync.Once\<close>, and what \<open>stop\<close> does to the pollers.
\<close>

section \<open>Options\<close>

record options =
  NumOfLoops :: int
  LoadBalancer :: int
  SocketWriteBuffer :: int
  SocketReadBuffer :: int
  WriteBuffer :: int
  ReadBuffer :: int
  ConnKeepAlive :: int
  LockOSThread :: bool
  optWritevChunk :: int
  GoroutineSize :: int

definition MaxStreamBufferCap :: int where "MaxStreamBufferCap = 65536"
definition DefaultGoroutineSize :: int where "DefaultGoroutineSize = 1024"
definition RoundRobinLB :: int where "RoundRobinLB = 0"
definition LeastConnLB :: int where "LeastConnLB = 1"

definition serve_options :: "int \<Rightarrow> options \<Rightarrow> options" where
  "serve_options ncpu opt =
     (let o1 = (if NumOfLoops opt \<le> 0 then opt\<lparr>NumOfLoops := ncpu\<rparr> else opt);
          o2 = (if ReadBuffer o1 \<le> 0 then o1\<lparr>ReadBuffer := MaxStreamBufferCap\<rparr> else o1);
          o3 = (if WriteBuffer o2 \<le> 0 then o2\<lparr>WriteBuffer := MaxStreamBufferCap\<rparr> else o2) in
      if GoroutineSize o3 \<le> 0 then o3\<lparr>GoroutineSize := DefaultGoroutineSize\<rparr> else o3)"

datatype 'e balancer = UseRoundRobin "'e RoundRobin" | UseLeastConn "'e LeastConn"

definition choose_balancer :: "int \<Rightarrow> 'e balancer" where
  "choose_balancer lb =
     (if lb = RoundRobinLB then UseRoundRobin new_RoundRobin
      else if lb = LeastConnLB then UseLeastConn new_LeastConn
      else UseRoundRobin new_RoundRobin)"

fun bal_Register :: "'e \<Rightarrow> 'e balancer \<Rightarrow> 'e balancer" where
  "bal_Register e (UseRoundRobin b) = UseRoundRobin (rr_Register e b)"
| "bal_Register e (UseLeastConn b) = UseLeastConn (lc_Register e b)"

fun bal_Iterator :: "(nat \<Rightarrow> 'e \<Rightarrow> 's \<Rightarrow> bool \<times> 's) \<Rightarrow> 'e balancer \<Rightarrow> 's \<Rightarrow> 's" where
  "bal_Iterator f (UseRoundRobin b) s = rr_Iterator f b s"
| "bal_Iterator f (UseLeastConn b) s = lc_Iterator f b s"

fun bal_loops :: "'e balancer \<Rightarrow> 'e list" where
  "bal_loops (UseRoundRobin b) = rr_eloopList b"
| "bal_loops (UseLeastConn b) = lc_eloopList b"

lemma bal_Register_loops [simp]: "bal_loops (bal_Register e b) = bal_loops b @ [e]"
  by (cases b) (simp_all add: rr_Register_def lc_Register_def)

lemma bal_Iterator_iterate: "bal_Iterator f b s = iterate f 0 (bal_loops b) s"
  by (cases b) (simp_all add: rr_Iterator_def lc_Iterator_def)

section \<open>Reactors\<close>

text \<open>
  A loop is its index and its poller. \<open>newp\<close> is \<open>poll.New\<close>, \<open>addListener\<close> the main poller's
  \<open>AddRead\<close> of the listener. \<open>running\<close> lists the indices of the goroutines that have been started
  (\<open>-1\<close> is the main loop); the wait group counts them.
\<close>

record ('p, 'k) engine =
  Balancer :: "(int \<times> 'p) balancer"
  MainLoop :: "'p option"
  running :: "int list"
  ekern :: 'k

fun make_loops :: "('k \<Rightarrow> ('p + error) \<times> 'k) \<Rightarrow> nat \<Rightarrow> int \<Rightarrow> ('p, 'k) engine \<Rightarrow> nerror \<times> ('p, 'k) engine" where
  "make_loops newp 0 i s = (None, s)"
| "make_loops newp (Suc n) i s =
     (case newp (ekern s) of
        (Inr e, k) \<Rightarrow> (Some e, s\<lparr>ekern := k\<rparr>)
      | (Inl p, k) \<Rightarrow> make_loops newp n (i + 1) (s\<lparr>ekern := k, Balancer := bal_Register (i, p) (Balancer s)\<rparr>))"

definition startSubReactors :: "('p, 'k) engine \<Rightarrow> ('p, 'k) engine" where
  "startSubReactors s =
     s\<lparr>running := bal_Iterator (\<lambda>k loop r. (True, r @ [fst loop])) (Balancer s) (running s)\<rparr>"

definition startReactors :: "('k \<Rightarrow> ('p + error) \<times> 'k) \<Rightarrow> ('p \<Rightarrow> 'k \<Rightarrow> nerror \<times> 'k) \<Rightarrow> int \<Rightarrow>
    ('p, 'k) engine \<Rightarrow> nerror \<times> ('p, 'k) engine" where
  "startReactors newp addListener numOfLoops s =
     (case make_loops newp (nat numOfLoops) 0 s of
        (Some e, s1) \<Rightarrow> (Some e, s1)
      | (None, s1) \<Rightarrow>
          (let s2 = startSubReactors s1 in
           case newp (ekern s2) of
             (Inr e, k) \<Rightarrow> (Some e, s2\<lparr>ekern := k\<rparr>)
           | (Inl p, k) \<Rightarrow> (case addListener p k of
               (Some e, k1) \<Rightarrow> (Some e, s2\<lparr>ekern := k1\<rparr>)
             | (None, k1) \<Rightarrow> (None, s2\<lparr>ekern := k1, MainLoop := Some p, running := running s2 @ [-1]\<rparr>))))"

definition new_engine :: "int \<Rightarrow> 'k \<Rightarrow> ('p, 'k) engine" where
  "new_engine lb k = \<lparr>Balancer = choose_balancer lb, MainLoop = None, running = [], ekern = k\<rparr>"

lemma make_loops_ok:
  "make_loops newp n i s = (e, s') \<Longrightarrow> running s' = running s \<and> MainLoop s' = MainLoop s \<and>
    (\<exists>ps. bal_loops (Balancer s') = bal_loops (Balancer s) @ ps \<and> length ps \<le> n \<and> (e = None \<longrightarrow> length ps = n) \<and>
      map fst ps = map (\<lambda>j. i + int j) [0..<length ps])"
proof (induction n arbitrary: i s)
  case (Suc n)
  obtain r k where np: "newp (ekern s) = (r, k)" by fastforce
  show ?case
  proof (cases r)
    case (Inl p)
    let ?s1 = "s\<lparr>ekern := k, Balancer := bal_Register (i, p) (Balancer s)\<rparr>"
    have "make_loops newp n (i + 1) ?s1 = (e, s')" using Suc.prems np Inl by simp
    from Suc.IH [OF this] obtain ps where ps: "running s' = running s" "MainLoop s' = MainLoop s"
        "bal_loops (Balancer s') = bal_loops (Balancer s) @ (i, p) # ps" "length ps \<le> n" "e = None \<longrightarrow> length ps = n"
        "map fst ps = map (\<lambda>j. i + 1 + int j) [0..<length ps]" by auto
    have "map (\<lambda>j. i + int j) [0..<Suc (length ps)] = i # map (\<lambda>j. i + 1 + int j) [0..<length ps]"
      by (simp add: map_upt_Suc algebra_simps del: upt_Suc)
    then show ?thesis using ps by (intro conjI exI [of _ "(i, p) # ps"]) auto
  qed (use Suc.prems np in auto)
qed auto

lemma new_engine_empty:
  "bal_loops (Balancer (new_engine lb k)) = []" "running (new_engine lb k) = []" "MainLoop (new_engine lb k) = None"
  by (simp_all add: new_engine_def choose_balancer_def new_RoundRobin_def new_LeastConn_def)

lemma iterate_collect: "iterate (\<lambda>k loop r. (True, r @ [fst loop])) j ps r = r @ map fst ps"
  by (induction ps arbitrary: j r) auto

lemma started_reactors:
  "case startReactors newp addListener n (new_engine lb k) of (e, s) \<Rightarrow>
     if e = None
     then map fst (bal_loops (Balancer s)) = map int [0..<nat n] \<and>
       running s = map int [0..<nat n] @ [-1] \<and> MainLoop s \<noteq> None
     else MainLoop s = None \<and> (running s = [] \<or> running s = map int [0..<nat n])"
proof -
  obtain e1 s1 where m: "make_loops newp (nat n) 0 (new_engine lb k) = (e1, s1)" by fastforce
  from make_loops_ok [OF m] have s1: "running s1 = []" "MainLoop s1 = None"
      "e1 = None \<longrightarrow> map fst (bal_loops (Balancer s1)) = map int [0..<nat n]"
    by (auto simp: new_engine_empty)
  have sub: "running (startSubReactors s1) = map fst (bal_loops (Balancer s1))"
      "Balancer (startSubReactors s1) = Balancer s1" "MainLoop (startSubReactors s1) = None"
    by (simp_all add: startSubReactors_def bal_Iterator_iterate iterate_collect s1)
  show ?thesis
    using m s1 sub
    by (auto simp: startReactors_def Let_def split: option.split prod.split sum.split)
qed

text \<open>
  C28. What a start brings up: for every number of loops and either balancer, a start that returns nil
  has registered exactly the loops 0 to n-1 in order, started each of them once and the main loop
  last; a start that fails has not set the main loop, and has started either no loop at all or all
  the sub loops.
\<close>

theorem start_reactors_complete:
  "case startReactors newp addListener n (new_engine lb k) of (e, s) \<Rightarrow>
     if e = None
     then map fst (bal_loops (Balancer s)) = map int [0..<nat n] \<and>
       running s = map int [0..<nat n] @ [-1] \<and> MainLoop s \<noteq> None
     else MainLoop s = None \<and> (running s = [] \<or> running s = map int [0..<nat n])"
  by (rule started_reactors)

text \<open>
  After the defaults every size the engine uses is positive (on a machine with a processor), and
  every positive value the user gave is kept.
\<close>

lemma serve_options_positive:
  assumes "0 < ncpu"
  shows "0 < NumOfLoops (serve_options ncpu opt) \<and> 0 < ReadBuffer (serve_options ncpu opt) \<and>
    0 < WriteBuffer (serve_options ncpu opt) \<and> 0 < GoroutineSize (serve_options ncpu opt) \<and>
    (NumOfLoops (serve_options ncpu opt) = NumOfLoops opt \<or> NumOfLoops opt \<le> 0 \<and> NumOfLoops (serve_options ncpu opt) = ncpu) \<and>
    (ReadBuffer (serve_options ncpu opt) = ReadBuffer opt \<or> ReadBuffer opt \<le> 0) \<and>
    (WriteBuffer (serve_options ncpu opt) = WriteBuffer opt \<or> WriteBuffer opt \<le> 0) \<and>
    (GoroutineSize (serve_options ncpu opt) = GoroutineSize opt \<or> GoroutineSize opt \<le> 0)"
  using assms by (auto simp: serve_options_def Let_def MaxStreamBufferCap_def DefaultGoroutineSize_def)

definition zero_options :: options where
  "zero_options = \<lparr>NumOfLoops = 0, LoadBalancer = 0, SocketWriteBuffer = 0, SocketReadBuffer = 0, WriteBuffer = 0,
     ReadBuffer = 0, ConnKeepAlive = 0, LockOSThread = False, optWritevChunk = 0, GoroutineSize = 0\<rparr>"

theorem serve_options_positive_witness:
  "0 < NumOfLoops (serve_options 8 zero_options) \<and> NumOfLoops (serve_options 8 zero_options) = 8"
proof -
  have "NumOfLoops zero_options = 0" by (simp add: zero_options_def)
  then show ?thesis using serve_options_positive [of 8 zero_options] by auto
qed

section \<open>Serve and Stop\<close>

text \<open>
  \<open>Serve\<close> starts the reactors, then its deferred \<open>stop\<close> waits on the condition, signals the loops,
  waits for them, and only then \<open>Serve\<close> returns the error of the start. \<open>Stop\<close> signals once.
  A signal wakes a goroutine that is waiting and is forgotten otherwise.
\<close>

datatype serve_pc = Starting | OnCond nerror | Stopping nerror | Returned nerror

record serve_sys =
  serve :: serve_pc
  once :: bool

inductive serve_step :: "serve_sys \<Rightarrow> serve_sys \<Rightarrow> bool" where
  started: "serve s = Starting \<Longrightarrow> serve_step s (s\<lparr>serve := OnCond e\<rparr>)"
| stop_wakes: "\<not> once s \<Longrightarrow> serve s = OnCond e \<Longrightarrow> serve_step s (s\<lparr>once := True, serve := Stopping e\<rparr>)"
| stop_early: "\<not> once s \<Longrightarrow> (\<And>e. serve s \<noteq> OnCond e) \<Longrightarrow> serve_step s (s\<lparr>once := True\<rparr>)"
| stop_again: "once s \<Longrightarrow> serve_step s s"
| stopped: "serve s = Stopping e \<Longrightarrow> serve_step s (s\<lparr>serve := Returned e\<rparr>)"

inductive_cases serve_stepE: "serve_step s t"

definition init_serve :: serve_sys where
  "init_serve = \<lparr>serve = Starting, once = False\<rparr>"

fun not_woken :: "serve_pc \<Rightarrow> bool" where
  "not_woken Starting = True"
| "not_woken (OnCond e) = True"
| "not_woken p = False"

text \<open>
  C29. A \<open>Stop\<close> that comes before \<open>Serve\<close> waits is lost for good: the signal wakes nobody, and
  \<open>sync.Once\<close> makes every later \<open>Stop\<close> do nothing, so \<open>Serve\<close> never stops its loops and never
  returns.
\<close>

theorem early_stop_is_lost:
  assumes "once s" and "not_woken (serve s)" and "serve_step\<^sup>*\<^sup>* s s'"
  shows "once s' \<and> not_woken (serve s')"
  using assms(3)
proof (induction rule: rtranclp_induct)
  case base
  show ?case using assms(1,2) by simp
next
  case (step s1 s2)
  from step(2,3) show ?case by (auto elim: serve_stepE)
qed

theorem early_stop_is_lost_witness:
  "serve_step\<^sup>*\<^sup>* init_serve (init_serve\<lparr>once := True\<rparr>) \<and>
   once (init_serve\<lparr>once := True, serve := OnCond None\<rparr>) \<and> not_woken (OnCond None)"
proof -
  have a: "serve_step\<^sup>*\<^sup>* init_serve (init_serve\<lparr>once := True\<rparr>)"
    using serve_step.stop_early [of init_serve] by (auto simp: init_serve_def)
  have b: "serve_step\<^sup>*\<^sup>* (init_serve\<lparr>once := True\<rparr>) (init_serve\<lparr>once := True, serve := OnCond None\<rparr>)"
    using serve_step.started [of "init_serve\<lparr>once := True\<rparr>" None] by (auto simp: init_serve_def)
  show ?thesis using early_stop_is_lost [OF _ _ b] a by (simp add: init_serve_def)
qed

text \<open>
  \<open>Serve\<close> does not report a failed start: whatever \<open>startReactors\<close> returned, \<open>Serve\<close> has returned
  only in runs in which \<open>Stop\<close> has been called after it began to wait.
\<close>

lemma serve_returns_only_after_stop:
  assumes "serve_step\<^sup>*\<^sup>* init_serve s" and "serve s = Returned e"
  shows "once s \<and> (\<exists>s1 s2. serve_step\<^sup>*\<^sup>* init_serve s1 \<and> serve s1 = OnCond e \<and> \<not> once s1 \<and>
     serve_step s1 s2 \<and> once s2 \<and> serve_step\<^sup>*\<^sup>* s2 s)"
proof -
  let ?woken = "\<lambda>s e. once s \<and> (\<exists>s1 s2. serve_step\<^sup>*\<^sup>* init_serve s1 \<and> serve s1 = OnCond e \<and> \<not> once s1 \<and>
     serve_step s1 s2 \<and> once s2 \<and> serve_step\<^sup>*\<^sup>* s2 s)"
  have "serve s = Stopping e \<or> serve s = Returned e \<Longrightarrow> ?woken s e" for e
    using assms(1)
  proof (induction rule: rtranclp_induct)
    case base
    then show ?case by (simp add: init_serve_def)
  next
    case (step s1 s2)
    from step.hyps(2) show ?case
    proof (cases rule: serve_step.cases)
      case (stop_wakes e')
      then have "serve s1 = OnCond e" using step.prems by auto
      then show ?thesis using stop_wakes step.hyps by (metis rtranclp.rtrancl_refl serve_sys.select_convs(2)
            serve_sys.surjective serve_sys.update_convs(1,2))
    next
      case (stop_early)
      then show ?thesis using step by (auto intro: rtranclp.rtrancl_into_rtrancl)
    next
      case (stopped e')
      then show ?thesis using step by (auto intro: rtranclp.rtrancl_into_rtrancl)
    qed (use step in auto)
  qed
  then show ?thesis using assms(2) by blast
qed

text \<open>
  \<open>Serve\<close> up to the point where its deferred \<open>stop\<close> waits: the defaults, the goroutine pool
  (\<open>newPool\<close> is \<open>ants.NewPool\<close>), the balancer, the reactors. An error of the pool is returned before
  the \<open>defer\<close>; an error of the start is kept for after it.
\<close>

definition Serve :: "int \<Rightarrow> (int \<Rightarrow> 'k \<Rightarrow> nerror \<times> 'k) \<Rightarrow> ('k \<Rightarrow> ('p + error) \<times> 'k) \<Rightarrow> ('p \<Rightarrow> 'k \<Rightarrow> nerror \<times> 'k) \<Rightarrow>
    options \<Rightarrow> 'k \<Rightarrow> serve_pc \<times> options \<times> ('k + ('p, 'k) engine)" where
  "Serve ncpu newPool newp addListener opt k =
     (let o1 = serve_options ncpu opt in
      case newPool (GoroutineSize o1) k of
        (Some e, k1) \<Rightarrow> (Returned (Some e), o1, Inl k1)
      | (None, k1) \<Rightarrow>
          (case startReactors newp addListener (NumOfLoops o1) (new_engine (LoadBalancer o1) k1) of
             (e, s) \<Rightarrow> (OnCond e, o1, Inr s)))"

text \<open>
  \<open>Serve\<close> fails at once only when the pool does; otherwise it waits for \<open>Stop\<close>, whatever the
  start returned, and when the start succeeded at least one sub loop and the main loop run, each
  loop once, also when the options ask for no loops at all.
\<close>

lemma serve_waits_unless_pool_fails:
  assumes "0 < ncpu" and "Serve ncpu newPool newp addListener opt k = (pc, o1, r)"
  shows "(case r of
      Inl k1 \<Rightarrow> \<exists>e. newPool (GoroutineSize o1) k = (Some e, k1) \<and> pc = Returned (Some e)
    | Inr s \<Rightarrow> pc = OnCond None \<and> running s = map int [0..<nat (NumOfLoops o1)] @ [-1] \<and> 0 < NumOfLoops o1 \<and>
          MainLoop s \<noteq> None \<or>
        (\<exists>e. pc = OnCond (Some e) \<and> MainLoop s = None))"
proof -
  obtain pe k1 where p: "newPool (GoroutineSize (serve_options ncpu opt)) k = (pe, k1)" by fastforce
  let ?n = "NumOfLoops (serve_options ncpu opt)"
  obtain e s where s: "startReactors newp addListener ?n
      (new_engine (LoadBalancer (serve_options ncpu opt)) k1) = (e, s)" by fastforce
  have "0 < ?n" using serve_options_positive [OF assms(1)] by blast
  then show ?thesis
    using assms(2) p s started_reactors [where newp = newp and addListener = addListener and n = ?n
        and lb = "LoadBalancer (serve_options ncpu opt)" and k = k1]
    by (auto simp: Serve_def Let_def split: option.splits if_splits)
qed

section \<open>Stopping the loops\<close>

text \<open>
  The body of \<open>stop\<close>: the shutdown task goes to the priority queue of every sub poller, the listener
  is closed, the main poller gets the task too; then the wait group, then every poller is closed.
  The pollers share the kernel. \<open>ended\<close> is whether the goroutines of the loops come to an end.
\<close>

fun signal_all :: "('k, 'sa) kernel \<Rightarrow> 't \<Rightarrow> 'k \<Rightarrow> ('t, 'k, 'w) poller list \<Rightarrow> ('t, 'k, 'w) poller list \<times> 'k" where
  "signal_all K t k [] = ([], k)"
| "signal_all K t k (p # ps) =
     (let p1 = snd (AddPriorTask K t (p\<lparr>kern := k\<rparr>)); (qs, k2) = signal_all K t (kern p1) ps in (p1 # qs, k2))"

fun close_all :: "('k, 'sa) kernel \<Rightarrow> 'k \<Rightarrow> ('t, 'k, 'w) poller list \<Rightarrow> 'k" where
  "close_all K k [] = k"
| "close_all K k (p # ps) = close_all K (kern (snd (poller_Close K (p\<lparr>kern := k\<rparr>)))) ps"

definition engine_stop :: "('k, 'sa) kernel \<Rightarrow> 't \<Rightarrow> bool \<Rightarrow> ('t, 'k, 'w) poller list \<Rightarrow> ('t, 'k, 'w) poller option \<Rightarrow>
    GkListener \<Rightarrow> 'k \<Rightarrow> (nerror \<times> ('t, 'k, 'w) poller list \<times> GkListener \<times> 'k) go" where
  "engine_stop K t ended subs main l k =
     (let (subs1, k1) = signal_all K t k subs;
          l1 = (if main = None then l else snd (listener_Close l));
          main1 = map_option (\<lambda>m. snd (AddPriorTask K t (m\<lparr>kern := k1\<rparr>))) main;
          k2 = (case main1 of None \<Rightarrow> k1 | Some m \<Rightarrow> kern m) in
      if \<not> ended then Blocked
      else (let k3 = close_all K k2 subs1 in
            case main1 of
              None \<Rightarrow> Ret (None, subs1, l1, k3)
            | Some m \<Rightarrow> (case poller_Close K (m\<lparr>kern := k3\<rparr>) of (e, m2) \<Rightarrow> Ret (e, subs1, l1, kern m2))))"

text \<open>
  The stop signal reaches every sub loop: for any number of pollers, each priority queue ends
  with the shutdown task behind what it held, no ordinary task is touched, and the wake-up flag of
  each is set.
\<close>

lemma stop_signals_every_loop:
  assumes "\<And>p. p \<in> set ps \<Longrightarrow> poller_ok p" and "signal_all K t k ps = (qs, k')"
  shows "length qs = length ps \<and>
    map (\<lambda>q. queue_model (priorTasks q)) qs = map (\<lambda>p. queue_model (priorTasks p) @ [t]) ps \<and>
    map tasks qs = map tasks ps \<and> list_all (\<lambda>q. toTrigger q \<noteq> 0) qs"
  using assms
proof (induction ps arbitrary: k qs k')
  case (Cons p ps)
  let ?p1 = "snd (AddPriorTask K t (p\<lparr>kern := k\<rparr>))"
  have "queue_inv (priorTasks p)" using Cons.prems(1) [of p] by (simp add: poller_ok_def)
  then have p1: "queue_model (priorTasks ?p1) = queue_model (priorTasks p) @ [t]" "tasks ?p1 = tasks p"
      "toTrigger ?p1 \<noteq> 0"
    by (auto simp: AddPriorTask_def wake_up_frame tq.enq_ok) (auto simp: wake_up_def split: prod.splits if_splits)
  obtain rs k2 where rs: "signal_all K t (kern ?p1) ps = (rs, k2)" by fastforce
  then have "qs = ?p1 # rs" using Cons.prems(2) by (simp add: Let_def)
  then show ?case using Cons.IH [OF _ rs] Cons.prems(1) p1 by simp
qed simp

theorem stop_signals_every_loop_witness:
  "map (\<lambda>q. queue_model (priorTasks q)) (fst (signal_all evfd_kernel 0 1 [demo_poller [5] [], demo_poller [] [6]])) =
     [[5, 0], [0]]"
proof -
  obtain qs k' where qs: "signal_all evfd_kernel 0 1 [demo_poller [5] [], demo_poller [] [6]] = (qs, k')" by fastforce
  have ok: "poller_ok p" if "p \<in> set [demo_poller [5] [], demo_poller [] [6]]" for p
    using that by auto
  show ?thesis using stop_signals_every_loop [OF ok qs] unfolding qs by simp
qed

theorem serve_returns_only_after_stop_witness:
  "once (init_serve\<lparr>once := True, serve := Returned (Some EOF)\<rparr>)"
proof -
  let ?a = "init_serve\<lparr>serve := OnCond (Some EOF)\<rparr>" and ?b = "init_serve\<lparr>once := True, serve := Stopping (Some EOF)\<rparr>"
  let ?c = "init_serve\<lparr>once := True, serve := Returned (Some EOF)\<rparr>"
  have "serve_step init_serve ?a" using serve_step.started [of init_serve "Some EOF"] by (simp add: init_serve_def)
  moreover have "serve_step ?a ?b" using serve_step.stop_wakes [of ?a "Some EOF"] by (simp add: init_serve_def)
  moreover have "serve_step ?b ?c" using serve_step.stopped [of ?b "Some EOF"] by (simp add: init_serve_def)
  ultimately have "serve_step\<^sup>*\<^sup>* init_serve ?c" by (meson converse_rtranclp_into_rtranclp rtranclp.rtrancl_refl)
  then show ?thesis using serve_returns_only_after_stop [of ?c "Some EOF"] by simp
qed

end
