(* ===== verification/Shutdown.thy ===== *)
theory Shutdown
  imports Eloop Engine
begin

text \<open>
  How a running engine stops: the engine queues a task for every loop, the queue keeps it, the poll
  loop runs it and ends. The engine of \<open>Engine\<close>, the queue and poller of \<open>Poller\<close>, the poll loop
  of \<open>WaitPoll\<close> and the callbacks of \<open>Eloop\<close> are put together here.
\<close>

section \<open>Pending stop errors\<close>

text \<open>
  The channel \<open>ErrForStop\<close> has been made and holds errors that end the loop; \<open>stop_pending\<close> says
  that one is waiting. A job is \<open>steady\<close> when it ends and takes nothing out of the channel.
\<close>

definition stop_ok :: "('t, 'k, 'w) poller \<Rightarrow> bool" where
  "stop_ok p \<longleftrightarrow> (case ErrForStop p of None \<Rightarrow> False | Some es \<Rightarrow> list_all fatal_error es)"

definition stop_pending :: "('t, 'k, 'w) poller \<Rightarrow> bool" where
  "stop_pending p \<longleftrightarrow> stop_ok p \<and> ErrForStop p \<noteq> Some []"

definition steady :: "('t, 'k, 'w) poller job \<Rightarrow> bool" where
  "steady j \<longleftrightarrow> (\<forall>p. stop_ok p \<longrightarrow> (\<exists>p'. j p = Some p' \<and> stop_ok p' \<and> (stop_pending p \<longrightarrow> stop_pending p')))"

definition ends_loop :: "('t, 'k, 'w) poller job \<Rightarrow> bool" where
  "ends_loop j \<longleftrightarrow> (\<forall>p. stop_ok p \<longrightarrow> (\<exists>p'. j p = Some p' \<and> stop_pending p'))"

text \<open>Tasks do not use the channel themselves; the shutdown task returns \<open>ErrEngineShutdown\<close>.\<close>

definition quiet_tasks :: "('t, ('t, 'k, 'w) poller) task_fn \<Rightarrow> bool" where
  "quiet_tasks G \<longleftrightarrow> (\<forall>t p. ErrForStop (snd (G t p)) = ErrForStop p)"

definition shuts_down :: "('t, ('t, 'k, 'w) poller) task_fn \<Rightarrow> 't \<Rightarrow> bool" where
  "shuts_down G t \<longleftrightarrow> (\<forall>p. fst (G t p) = Some ErrEngineShutdown)"

lemma stop_pendingD: "stop_pending p \<Longrightarrow> stop_ok p"
  by (simp add: stop_pending_def)

lemma stop_ok_cong: "ErrForStop p = ErrForStop q \<Longrightarrow> stop_ok p = stop_ok q"
  by (simp add: stop_ok_def)

lemma stop_pending_cong: "ErrForStop p = ErrForStop q \<Longrightarrow> stop_pending p = stop_pending q"
  by (simp add: stop_pending_def stop_ok_def)

lemma send_stop_pending: "stop_ok p \<Longrightarrow> fatal_error e \<Longrightarrow> stop_pending (send_stop e p)"
  by (auto simp: stop_ok_def stop_pending_def send_stop_def split: option.splits)

lemma task_job_steady:
  fixes G :: "('t, ('t, 'k, 'w) poller) task_fn"
  assumes "quiet_tasks G"
  shows "steady (task_job G t)"
  unfolding steady_def
proof (intro allI impI)
  fix p :: "('t, 'k, 'w) poller" assume p: "stop_ok p"
  obtain r q where g: "G t p = (r, q)" by fastforce
  with assms have q: "ErrForStop q = ErrForStop p" by (metis quiet_tasks_def snd_conv)
  show "\<exists>p'. task_job G t p = Some p' \<and> stop_ok p' \<and> (stop_pending p \<longrightarrow> stop_pending p')"
    using p g stop_ok_cong [OF q] stop_pending_cong [OF q] send_stop_pending [of q]
    by (auto simp: task_job_def split: option.split dest: stop_pendingD)
qed

lemma shutdown_job_ends_loop:
  fixes G :: "('t, ('t, 'k, 'w) poller) task_fn"
  assumes "quiet_tasks G" and "shuts_down G t"
  shows "ends_loop (task_job G t)"
  unfolding ends_loop_def
proof (intro allI impI)
  fix p :: "('t, 'k, 'w) poller" assume p: "stop_ok p"
  obtain r q where g: "G t p = (r, q)" by fastforce
  with assms have "ErrForStop q = ErrForStop p" "r = Some ErrEngineShutdown"
    by (metis quiet_tasks_def snd_conv) (metis assms(2) g shuts_down_def fst_conv)
  then show "\<exists>p'. task_job G t p = Some p' \<and> stop_pending p'"
    using p g stop_ok_cong [of q p] send_stop_pending [of q]
    by (simp add: task_job_def fatal_error_def)
qed

lemma run_jobs_pending:
  assumes "\<And>j. j \<in> set js \<Longrightarrow> steady j" and "stop_ok p"
  shows "\<exists>p'. run_jobs js p = Ret p' \<and> stop_ok p' \<and>
    (stop_pending p \<or> (\<exists>j\<in>set js. ends_loop j) \<longrightarrow> stop_pending p')"
  using assms
proof (induction js arbitrary: p)
  case (Cons j js)
  obtain p1 where p1: "j p = Some p1" "stop_ok p1" "stop_pending p \<longrightarrow> stop_pending p1"
    using Cons.prems by (auto simp: steady_def)
  have e: "ends_loop j \<longrightarrow> stop_pending p1" using p1(1) Cons.prems(2) by (auto simp: ends_loop_def)
  obtain p' where "run_jobs js p1 = Ret p'" "stop_ok p'"
      "stop_pending p1 \<or> (\<exists>j\<in>set js. ends_loop j) \<longrightarrow> stop_pending p'"
    using Cons.IH [OF _ p1(2)] Cons.prems(1) by auto
  then show ?case using p1 e by auto
qed simp

lemma after_wait_pending:
  "stop_pending p \<Longrightarrow> \<exists>e p'. after_wait K p = ((Some e, False), p') \<and> fatal_error e"
  by (auto simp: stop_pending_def stop_ok_def after_wait_def recv_stop_def split: option.splits list.splits)

lemma runs_all_set: "runs_all arrange \<Longrightarrow> set (arrange js) = set js"
  unfolding runs_all_def by (metis set_mset_mset)

section \<open>A shutdown task ends the loop\<close>

lemma shutdown_callback:
  assumes "\<not> IsBlocked C \<Longrightarrow> AsyncWaitCallback C fd events p = (None, [], p1)" and "IsBlocked C \<Longrightarrow> p1 = p"
    and "Pool p1 = PoolOpen" and "poller_ok p1" and "stop_ok p1" and "t \<in> set (queue_model (priorTasks p1))"
    and "quiet_tasks G" and "shuts_down G t" and "runs_all arrange"
  shows "\<exists>e p'. start_callback K G arrange C fd events True p = Ret ((False, Some e), p') \<and> fatal_error e"
proof -
  let ?js = "map (task_job G) (queue_model (priorTasks p1) @ take MaxTasks (queue_model (tasks p1)))"
  obtain p2 jobs2 p3 where d: "drain_prior G [] p1 = Some (jobs2, p2)" "drain_tasks MaxTasks G jobs2 p2 = (?js, p3)"
      "p3 = p1\<lparr>priorTasks := priorTasks p3, tasks := tasks p3\<rparr>"
    using drain_all_open [OF assms(3,4), of G "[]"] unfolding append_Nil by blast
  have "ErrForStop p3 = ErrForStop p1" by (subst d(3)) simp
  then have "stop_ok p3" using assms(5) stop_ok_cong by blast
  moreover have "\<And>j. j \<in> set (arrange ?js) \<Longrightarrow> steady j" "\<exists>j\<in>set (arrange ?js). ends_loop j"
    using task_job_steady [OF assms(7)] shutdown_job_ends_loop [OF assms(7,8)] assms(6)
    by (auto simp: runs_all_set [OF assms(9)])
  ultimately obtain p4 where "run_jobs (arrange ?js) p3 = Ret p4" "stop_pending p4"
    using run_jobs_pending [of "arrange ?js" p3] by blast
  moreover obtain e p5 where "after_wait K p4 = ((Some e, False), p5)" "fatal_error e"
    using after_wait_pending [OF calculation(2)] by blast
  moreover have "(if \<not> IsBlocked C then AsyncWaitCallback C fd events p else (None, [], p)) = (None, [], p1)"
    using assms(1,2) by auto
  ultimately show ?thesis using d(1,2) by (simp add: start_callback_def)
qed

text \<open>The events of a batch but the last are served with a false \<open>trigger\<close>.\<close>

definition untriggered :: "'s poll_env \<Rightarrow> 's poll_env" where
  "untriggered E = E\<lparr>wcb := \<lambda>fd ev _. wcb E fd ev False\<rparr>"

lemma dispatch_append:
  "rest \<noteq> [] \<Longrightarrow> dispatch E (pre @ rest) tr s =
     go_bind (dispatch (untriggered E) pre tr s) (\<lambda>(err, tr1, s1).
       case err of Some e \<Rightarrow> Ret (Some e, tr1, s1) | None \<Rightarrow> dispatch E rest tr1 s1)"
proof (induction pre arbitrary: tr s)
  case (Cons x pre)
  obtain fd ev where x: "x = (fd, ev)" by fastforce
  show ?case
    using Cons x
    by (auto simp: untriggered_def Let_def go_bind_assoc split: option.split intro!: go_bind_cong)
qed simp




section \<open>The engine stops its loops\<close>

lemma wake_up_rest:
  "Pool (snd (wake_up K p)) = Pool p" "ErrForStop (snd (wake_up K p)) = ErrForStop p" "pollEvFd (snd (wake_up K p)) = pollEvFd p"
  by (auto simp: wake_up_def split: prod.split)

lemma AddPriorTask_stops:
  fixes K t k p
  assumes "poller_ok p" and "Pool p = PoolOpen" and "stop_ok p"
  defines "q \<equiv> snd (AddPriorTask K t (p\<lparr>kern := k\<rparr>))"
  shows "poller_ok q" "Pool q = PoolOpen" "stop_ok q" "t \<in> set (queue_model (priorTasks q))" "pollEvFd q = pollEvFd p"
  using assms(1-3)
  by (simp_all add: q_def AddPriorTask_def wake_up_rest wake_up_frame wake_up_ok poller_ok_def stop_ok_def tq.enq_ok)

lemma signal_all_elem:
  "signal_all K t k ps = (qs, k') \<Longrightarrow> q \<in> set qs \<Longrightarrow> \<exists>p\<in>set ps. \<exists>k0. q = snd (AddPriorTask K t (p\<lparr>kern := k0\<rparr>))"
proof (induction ps arbitrary: k qs)
  case (Cons p ps)
  let ?p1 = "snd (AddPriorTask K t (p\<lparr>kern := k\<rparr>))"
  obtain rs where rs: "signal_all K t (kern ?p1) ps = (rs, k')" "qs = ?p1 # rs"
    using Cons.prems(1) by (auto simp: Let_def split: prod.splits)
  show ?case
  proof (cases "q = ?p1")
    case False
    then show ?thesis using Cons.IH [OF rs(1)] Cons.prems(2) rs(2) by auto
  qed auto
qed simp

text \<open>A round of \<open>WaitPoll\<close> in which the kernel reports the wake-up, on a poller that holds the task.\<close>

lemma wake_round_stops:
  fixes G :: "('t, ('t, 'k, 'w) poller) task_fn"
    and K wait arrange C efd
  defines "E \<equiv> start_env K wait G arrange C efd"
  assumes "wait sz timeout (kern q) = (Inr [(efd, events)], k1)" and "0 < sz"
    and "\<And>q1. q1 = readWake E (q\<lparr>kern := k1\<rparr>) \<Longrightarrow>
        if IsBlocked C then kk = kern q1 else AsyncWaitCallback C efd events q1 = (None, [], q1\<lparr>kern := kk\<rparr>)"
    and "Pool q = PoolOpen" and "poller_ok q" and "stop_ok q" and "t \<in> set (queue_model (priorTasks q))"
    and "quiet_tasks G" and "shuts_down G t" and "runs_all arrange"
  shows "\<exists>e q'. poll_round E sz timeout tr q = Ret (Stopped (Some e) q') \<and> fatal_error e"
proof -
  define q1 where "q1 = readWake E (q\<lparr>kern := k1\<rparr>)"
  have "q1 = q\<lparr>kern := kern q1\<rparr>" by (simp add: q1_def E_def start_env_def)
  have rest: "Pool (q1\<lparr>kern := kk\<rparr>) = PoolOpen" "poller_ok (q1\<lparr>kern := kk\<rparr>)" "stop_ok (q1\<lparr>kern := kk\<rparr>)"
      "t \<in> set (queue_model (priorTasks (q1\<lparr>kern := kk\<rparr>)))"
    using assms(5-8) by (simp_all add: q1_def E_def start_env_def poller_ok_def stop_ok_def)
  obtain e p' where "start_callback K G arrange C efd events True q1 = Ret ((False, Some e), p')" "fatal_error e"
    using shutdown_callback [where K = K and C = C and fd = efd and events = events and p = q1, OF _ _ rest assms(9-11)] assms(4) [OF q1_def] by (auto split: if_splits)
  then show ?thesis
    using assms(2,3)
    by (simp add: poll_round_def E_def q1_def start_env_def doWaitCallbackErr_def)
qed


text \<open>The main loop blocks in its callback, but finds the error of the task before it accepts.\<close>

lemma stop_ends_blocking_loop:
  assumes "IsBlocked C" and "poller_ok p" and "Pool p = PoolOpen" and "stop_ok p"
    and "quiet_tasks G" and "shuts_down G t" and "runs_all arrange"
    and "wait sz timeout (kern q) = (Inr [(pollEvFd q, events)], k1)" and "0 < sz"
    and "q = snd (AddPriorTask K t (p\<lparr>kern := k\<rparr>))"
  shows "\<exists>e q'. poll_round (start_env K wait G arrange C (pollEvFd q)) sz timeout tr q = Ret (Stopped (Some e) q') \<and>
    fatal_error e"
proof -
  have q: "poller_ok q" "Pool q = PoolOpen" "stop_ok q" "t \<in> set (queue_model (priorTasks q))"
    unfolding assms(10) using AddPriorTask_stops [OF assms(2-4)] by blast+
  show ?thesis
    by (rule wake_round_stops [where kk = "snd (k_read K (pollEvFd q) 8 k1)", OF _ assms(9) _ q(2,1,3,4) assms(5-7)])
      (simp_all add: assms(1,8) start_env_def)
qed


end
