(* ===== verification/HttpResponse.thy ===== *)
theory HttpResponse
  imports Sockets
begin

text \<open>
  The response writer of \<open>gkhttp/response.go\<close>: buffering, the choice of the framing, chunked
  encoding, the header block and the end of a request. The buffered connection writer is the list
  of the bytes it has been given, how many of them have been flushed, and a sticky error, which is there
  when the response is made or not at all: \<open>HttpConn\<close> refines it to \<open>bufio.Writer\<close> over a connection, for
  the runs in which no flush fails. The tables of package net/http and the clock are parameters.
\<close>

section \<open>Bytes\<close>

definition crlf :: bytes where "crlf = [CHR 0x0D, CHR 0x0A]"
definition zerocrlf :: bytes where "zerocrlf = ''0'' @ crlf"
definition colonSpace :: bytes where "colonSpace = '': ''"
definition headerDate :: bytes where "headerDate = ''Date: ''"

definition byte_digit :: "nat \<Rightarrow> char" where
  "byte_digit d = char_of (48 + d mod 256)"

definition show_nat :: "nat \<Rightarrow> string" where
  "show_nat n = (if n = 0 then ''0'' else digits n)"

definition hex_digit :: "nat \<Rightarrow> char" where
  "hex_digit d = (if d < 10 then char_of (48 + d) else char_of (87 + d))"

fun hex :: "nat \<Rightarrow> string" where
  "hex n = (if n < 16 then [hex_digit n] else hex (n div 16) @ [hex_digit (n mod 16)])"

declare hex.simps [simp del]

text \<open>\<open>strconv.ParseInt(s, 10, 64)\<close>.\<close>

definition parse_int64 :: "string \<Rightarrow> int option" where
  "parse_int64 s =
     (let neg = (s \<noteq> [] \<and> hd s = CHR ''-'');
          ds = (if s \<noteq> [] \<and> (hd s = CHR ''-'' \<or> hd s = CHR ''+'') then tl s else s);
          v = (if neg then - int (decimal_value ds) else int (decimal_value ds)) in
      if ds = [] \<or> \<not> list_all is_digit ds \<or> v < - (2 ^ 63) \<or> v \<ge> 2 ^ 63 then None else Some v)"

text \<open>
  \<open>appendTime\<close> on the fields of a UTC time: year, month (1 to 12), day, hour, minute, second, and
  the day of the week (0 is Sunday). The two name tables are sliced and indexed.
\<close>

record utc =
  yy :: nat
  mm :: nat
  dd :: nat
  hh :: nat
  mn :: nat
  ss :: nat
  wd :: nat

definition days :: string where "days = ''SunMonTueWedThuFriSat''"
definition months :: string where "months = ''JanFebMarAprMayJunJulAugSepOctNovDec''"

definition two_digits :: "nat \<Rightarrow> bytes" where
  "two_digits n = [byte_digit (n div 10), byte_digit (n mod 10)]"

definition appendTime :: "bytes \<Rightarrow> utc \<Rightarrow> bytes" where
  "appendTime b t =
     b @ take 3 (drop (3 * wd t) days) @ '', '' @ two_digits (dd t) @ '' '' @
     take 3 (drop (3 * (mm t - 1)) months) @ '' '' @
     [byte_digit (yy t div 1000), byte_digit (yy t div 100 mod 10), byte_digit (yy t div 10 mod 10), byte_digit (yy t mod 10)] @
     '' '' @ two_digits (hh t) @ '':'' @ two_digits (mn t) @ '':'' @ two_digits (ss t) @ '' GMT''"

section \<open>State\<close>

text \<open>
  \<open>http.Header\<close> in the order in which a \<open>range\<close> over it runs; \<open>Get\<close> gives the first value or the
  empty string. The keys the code asks for are canonical.
\<close>

type_synonym http_header = "(string \<times> string list) list"

definition hget :: "http_header \<Rightarrow> string \<Rightarrow> string" where
  "hget h key = (case map_of h key of Some (v # _) \<Rightarrow> v | _ \<Rightarrow> [])"

definition hdel :: "http_header \<Rightarrow> string \<Rightarrow> http_header" where
  "hdel h key = filter (\<lambda>(k, _). k \<noteq> key) h"

record header =
  h_date :: "bytes option"
  h_contentLength :: string
  h_contentType :: string
  h_connection :: string
  h_transferEncoding :: string

record response =
  reqMethod :: string
  wroteHeader :: bool
  rw_out :: bytes
  rw_err :: nerror
  rw_flushed :: nat
  connClosed :: bool
  buffer :: bytes
  cw_wroteHeader :: bool
  cw_chunking :: bool
  handlerHeader :: http_header
  setHeader :: header
  written :: int
  noCache :: bool
  contentLength :: int
  status :: int
  hijacked :: bool
  handlerDone :: bool
  bodyClosed :: bool
  freedHeader :: "http_header option"
  freedBuffer :: "bytes option"

text \<open>
  What the code takes from package net/http and the clock: \<open>StatusText\<close>, \<open>DetectContentType\<close>,
  \<open>time.Now().UTC()\<close>, and \<open>CanonicalHeaderKey\<close>, through which \<open>Get\<close> looks a key up.
\<close>

record http_env =
  statusText :: "int \<Rightarrow> string"
  detectContentType :: "bytes \<Rightarrow> string"
  now :: utc
  canonical :: "string \<Rightarrow> string"

definition empty_header :: header where
  "empty_header = \<lparr>h_date = None, h_contentLength = [], h_contentType = [], h_connection = [], h_transferEncoding = []\<rparr>"

definition bufferBeforeChunkingSize :: nat where "bufferBeforeChunkingSize = 2048"

text \<open>
  \<open>NewResponse\<close>: \<open>buf\<close> and \<open>h\<close> are what the pools returned, \<open>buf\<close> with the bytes of its last user
  and \<open>h\<close> with the entries that \<open>freeHeader\<close> has left in it.
\<close>

definition NewResponse :: "string \<Rightarrow> bytes \<Rightarrow> http_header \<Rightarrow> response" where
  "NewResponse meth buf h =
     \<lparr>reqMethod = meth, wroteHeader = False, rw_out = [], rw_err = None, rw_flushed = 0, connClosed = False, buffer = buf,
      cw_wroteHeader = False, cw_chunking = False, handlerHeader = h, setHeader = empty_header, written = 0,
      noCache = False, contentLength = -1, status = 0, hijacked = False, handlerDone = False, bodyClosed = False,
      freedHeader = None, freedBuffer = None\<rparr>"

text \<open>A write to the buffered writer; once it has failed it takes nothing more.\<close>

definition rw_Write :: "bytes \<Rightarrow> response \<Rightarrow> (int \<times> nerror) \<times> response" where
  "rw_Write p r =
     (case rw_err r of None \<Rightarrow> ((int (length p), None), r\<lparr>rw_out := rw_out r @ p\<rparr>) | Some e \<Rightarrow> ((0, Some e), r))"

text \<open>\<open>Flush\<close> of the buffered writer hands everything on; \<open>rw_flushed\<close> is how much has been.\<close>

definition rw_Flush :: "response \<Rightarrow> response" where
  "rw_Flush r = (if rw_err r = None then r\<lparr>rw_flushed := length (rw_out r)\<rparr> else r)"

definition put :: "bytes \<Rightarrow> response \<Rightarrow> response" where
  "put p r = snd (rw_Write p r)"

section \<open>The header block\<close>

definition header_line :: "bytes \<Rightarrow> string \<Rightarrow> bytes" where
  "header_line key v = (if v \<noteq> [] then key @ colonSpace @ v @ crlf else [])"

text \<open>\<open>header.Write\<close>: the date, then the four fields in the order of \<open>headerKeys\<close>, if not empty.\<close>

definition header_Write :: "header \<Rightarrow> bytes" where
  "header_Write h =
     (case h_date h of None \<Rightarrow> [] | Some d \<Rightarrow> headerDate @ d @ crlf) @
     header_line ''Content-Length'' (h_contentLength h) @ header_line ''Content-Type'' (h_contentType h) @
     header_line ''Connection'' (h_connection h) @ header_line ''Transfer-Encoding'' (h_transferEncoding h)"

definition bodyAllowedForStatus :: "int \<Rightarrow> bool" where
  "bodyAllowedForStatus st = (\<not> (100 \<le> st \<and> st \<le> 199) \<and> st \<noteq> 204 \<and> st \<noteq> 304)"

definition status_line :: "http_env \<Rightarrow> int \<Rightarrow> bytes" where
  "status_line env st =
     ''HTTP/1.1 '' @
     (if statusText env st \<noteq> [] then show_nat (nat st) @ '' '' @ statusText env st @ crlf
      else (let d = show_nat (nat st) in
            replicate (3 - length d) (CHR ''0'') @ d @ '' status code '' @ d @ crlf))"

definition skipped_key :: "string \<Rightarrow> bool" where
  "skipped_key key \<longleftrightarrow> key \<in> {''Date'', ''Content-Length'', ''Transfer-Encoding'', ''Content-Type'', ''Connection''}"

fun other_lines :: "http_env \<Rightarrow> http_header \<Rightarrow> http_header \<Rightarrow> bytes" where
  "other_lines env h [] = []"
| "other_lines env h ((key, vs) # rest) =
     (let value = hget h (canonical env key) in
      if skipped_key key then other_lines env h rest
      else (if key \<noteq> [] \<and> value \<noteq> [] then key @ colonSpace @ value @ crlf else []) @ other_lines env h rest)"

text \<open>The framing that \<open>chunkWriter.writeHeader\<close> chooses for the first bytes \<open>p\<close>.\<close>

definition choose_framing :: "bytes \<Rightarrow> response \<Rightarrow> response" where
  "choose_framing p r =
     (let sh = setHeader r in
      if h_contentLength sh \<noteq> [] then r\<lparr>cw_chunking := False\<rparr>
      else if cw_chunking r then r
      else if noCache r
      then r\<lparr>cw_chunking := True,
             setHeader := sh\<lparr>h_transferEncoding :=
               (if h_transferEncoding sh \<noteq> []
                then (if \<not> str_contains (h_transferEncoding sh) ''chunked''
                      then h_transferEncoding sh @ '', chunked'' else h_transferEncoding sh)
                else ''chunked'')\<rparr>\<rparr>
      else if handlerDone r \<and> bodyAllowedForStatus (status r) \<and> hget (handlerHeader r) ''Content-Length'' = [] \<and>
              (\<not> noCache r \<or> reqMethod r \<noteq> ''HEAD'' \<or> p \<noteq> [])
      then r\<lparr>contentLength := int (length p), setHeader := sh\<lparr>h_contentLength := show_nat (length p)\<rparr>\<rparr>
      else r)"

definition choose_type :: "http_env \<Rightarrow> bytes \<Rightarrow> response \<Rightarrow> response" where
  "choose_type env p r =
     (let ct = hget (handlerHeader r) ''Content-Type''; co = hget (handlerHeader r) ''Connection'';
          sh1 = (if ct \<noteq> [] then (setHeader r)\<lparr>h_contentType := ct\<rparr>
                 else if \<not> cw_chunking r \<and> p \<noteq> [] then (setHeader r)\<lparr>h_contentType := detectContentType env p\<rparr>
                 else setHeader r) in
      r\<lparr>setHeader := (if co \<noteq> [] then sh1\<lparr>h_connection := co\<rparr> else sh1)\<rparr>)"

definition head_bytes :: "http_env \<Rightarrow> response \<Rightarrow> bytes" where
  "head_bytes env r =
     status_line env (status r) @ header_Write (setHeader r) @ other_lines env (handlerHeader r) (handlerHeader r) @ crlf"

definition cw_writeHeader :: "http_env \<Rightarrow> bytes \<Rightarrow> response \<Rightarrow> response" where
  "cw_writeHeader env p r =
     (if cw_wroteHeader r then r
      else (let r1 = r\<lparr>cw_wroteHeader := True, setHeader := (setHeader r)\<lparr>h_date := Some (appendTime [] (now env))\<rparr>\<rparr>;
                r2 = choose_type env p (choose_framing p r1) in
            put (head_bytes env r2) r2))"

section \<open>The chunk writer\<close>

text \<open>A failed write closes the connection.\<close>

definition cw_Write :: "http_env \<Rightarrow> bytes \<Rightarrow> response \<Rightarrow> (int \<times> nerror) \<times> response" where
  "cw_Write env p r =
     (let r1 = cw_writeHeader env p r in
      if reqMethod r1 = ''HEAD'' then ((int (length p), None), r1)
      else (case (if cw_chunking r1 then rw_Write (hex (length p) @ crlf) r1 else ((0, None), r1)) of
              ((_, Some e), r2) \<Rightarrow> ((0, Some e), r2\<lparr>connClosed := True\<rparr>)
            | ((_, None), r2) \<Rightarrow>
                (case rw_Write p r2 of
                   ((n, Some e), r3) \<Rightarrow> ((n, Some e), r3\<lparr>connClosed := True\<rparr>)
                 | ((n, None), r3) \<Rightarrow>
                     (case (if cw_chunking r3 then rw_Write crlf r3 else ((0, None), r3)) of
                        ((_, Some e), r4) \<Rightarrow> ((n, Some e), r4\<lparr>connClosed := True\<rparr>)
                      | ((_, None), r4) \<Rightarrow> ((n, None), r4)))))"

definition cw_flush :: "http_env \<Rightarrow> response \<Rightarrow> response" where
  "cw_flush env r = rw_Flush (cw_writeHeader env [] r)"

definition cw_close :: "http_env \<Rightarrow> response \<Rightarrow> response" where
  "cw_close env r =
     (let r1 = cw_writeHeader env [] r in if cw_chunking r1 then put crlf (put zerocrlf r1) else r1)"

section \<open>The response\<close>

definition checkWriteHeaderCode :: "int \<Rightarrow> unit go" where
  "checkWriteHeaderCode code = (if code < 100 \<or> code > 999 then Panic else Ret ())"

definition resp_WriteHeader :: "int \<Rightarrow> response \<Rightarrow> response go" where
  "resp_WriteHeader code r =
     (if hijacked r \<or> wroteHeader r then Ret r
      else go_bind (checkWriteHeaderCode code) (\<lambda>_.
        let r1 = r\<lparr>wroteHeader := True, status := code\<rparr>;
            cl = hget (handlerHeader r) ''Content-Length'';
            te = hget (handlerHeader r) ''Transfer-Encoding'' in
        Ret (if cl \<noteq> []
             then (case parse_int64 cl of
                     Some v \<Rightarrow> if v \<ge> 0
                       then r1\<lparr>contentLength := v, setHeader := (setHeader r1)\<lparr>h_contentLength := cl\<rparr>\<rparr>
                       else r1\<lparr>handlerHeader := hdel (handlerHeader r1) ''Content-Length''\<rparr>
                   | None \<Rightarrow> r1\<lparr>handlerHeader := hdel (handlerHeader r1) ''Content-Length''\<rparr>)
             else if te \<noteq> []
             then r1\<lparr>setHeader := (setHeader r1)\<lparr>h_transferEncoding := te\<rparr>,
                    cw_chunking := (cw_chunking r1 \<or> str_contains te ''chunked'')\<rparr>
             else r1)))"

definition ensure_header :: "response \<Rightarrow> response go" where
  "ensure_header r = (if wroteHeader r then Ret r else resp_WriteHeader 200 r)"

text \<open>The slice expression \<open>w.buffer[:n]\<close>, whose capacity is its length.\<close>

definition buffer_upto :: "int \<Rightarrow> response \<Rightarrow> bytes go" where
  "buffer_upto n r = (if 0 \<le> n \<and> n \<le> int (length (buffer r)) then Ret (take (nat n) (buffer r)) else Panic)"

text \<open>Into the buffer while it fits, else what was buffered and then the data to the chunk writer.\<close>

definition resp_Write :: "http_env \<Rightarrow> bytes \<Rightarrow> response \<Rightarrow> ((int \<times> nerror) \<times> response) go" where
  "resp_Write env data r =
     (if hijacked r then Ret ((0, Some ErrHijacked), r)
      else go_bind (ensure_header r) (\<lambda>r1.
        let len = int (length data) in
        if data = [] then Ret ((0, None), r1)
        else if \<not> bodyAllowedForStatus (status r1) then Ret ((0, Some ErrBodyNotAllowed), r1)
        else if cw_chunking r1 then Ret (cw_Write env data r1)
        else (let offset = written r1; r2 = r1\<lparr>written := offset + len\<rparr> in
              if contentLength r2 \<noteq> -1 \<and> written r2 > contentLength r2 then Ret ((0, Some ErrContentLength), r2)
              else if \<not> noCache r2 \<and> written r2 \<le> int (length (buffer r2))
              then Ret ((len, None),
                r2\<lparr>buffer := take (nat offset) (buffer r2) @ data @ drop (nat (offset + len)) (buffer r2)\<rparr>)
              else if noCache r2 then Ret (cw_Write env data r2)
              else (let r3 = r2\<lparr>noCache := True\<rparr> in
                    if offset > 0
                    then go_bind (buffer_upto offset r3) (\<lambda>p. Ret (cw_Write env data (snd (cw_Write env p r3))))
                    else Ret (cw_Write env data r3)))))"

definition resp_Flush :: "http_env \<Rightarrow> response \<Rightarrow> response go" where
  "resp_Flush env r =
     (if hijacked r then Ret r
      else go_bind (ensure_header r) (\<lambda>r1.
        if \<not> noCache r1 \<and> written r1 > 0
        then go_bind (buffer_upto (written r1) r1) (\<lambda>p.
               Ret (cw_flush env ((snd (cw_Write env p r1))\<lparr>written := 0\<rparr>)))
        else Ret (cw_flush env r1)))"

text \<open>
  \<open>freeHeader\<close> deletes every key of the map by \<open>Del\<close>, which deletes the canonical form of the key it
  is given. Last in the section, \<open>FinishRequest\<close>: it runs once, closes the request's body, and gives the
  header map and the buffer back to their pools.
\<close>

definition freeHeader :: "http_env \<Rightarrow> http_header \<Rightarrow> http_header" where
  "freeHeader env h = foldl (\<lambda>m key. hdel m (canonical env key)) h (map fst h)"

definition resp_FinishRequest :: "http_env \<Rightarrow> response \<Rightarrow> response go" where
  "resp_FinishRequest env r =
     (if handlerDone r then Ret r
      else go_bind (resp_Flush env (r\<lparr>handlerDone := True\<rparr>)) (\<lambda>r1.
        let r2 = rw_Flush (cw_close env r1) in
        Ret (r2\<lparr>bodyClosed := True, freedHeader := Some (freeHeader env (handlerHeader r2)), handlerHeader := [],
                freedBuffer := Some (buffer r2), buffer := []\<rparr>)))"

definition resp_Hijack :: "http_env \<Rightarrow> response \<Rightarrow> (nerror \<times> response) go" where
  "resp_Hijack env r =
     go_bind (if wroteHeader r then resp_FinishRequest env r else Ret r) (\<lambda>r1.
       if hijacked r1 then Ret (Some ErrHijacked, r1) else Ret (None, r1\<lparr>hijacked := True\<rparr>))"

end
