(* ===== verification/HttpFraming.thy ===== *)
theory HttpFraming
  imports HttpResponse
begin

text \<open>
  What reaches the client: a reference decoder of the chunked encoding, the states a response goes
  through while a handler writes, and the properties of the framing, the header block and the end of
  a request.
\<close>

section \<open>A decoder of the chunked encoding\<close>

definition hex_value :: "char \<Rightarrow> nat option" where
  "hex_value c =
     (let n = of_char c :: nat in
      if 48 \<le> n \<and> n \<le> 57 then Some (n - 48) else if 97 \<le> n \<and> n \<le> 102 then Some (n - 87) else None)"

text \<open>\<open>read_hex a s\<close> reads digits in front of a line break and returns the number and what follows.\<close>

fun read_hex :: "nat \<Rightarrow> bytes \<Rightarrow> (nat \<times> bytes) option" where
  "read_hex a [] = None"
| "read_hex a (c # s) =
     (case hex_value c of
        Some d \<Rightarrow> read_hex (16 * a + d) s
      | None \<Rightarrow> (if take 2 (c # s) = crlf then Some (a, drop 2 (c # s)) else None))"

lemma read_hex_shorter: "read_hex a s = Some (n, t) \<Longrightarrow> length t < length s"
  by (induction a s rule: read_hex.induct) (auto simp: crlf_def split: option.splits if_splits)

function dechunk :: "bytes \<Rightarrow> (bytes \<times> bytes) option" where
  "dechunk s =
     (case read_hex 0 s of
        None \<Rightarrow> None
      | Some (n, t) \<Rightarrow>
          (if n = 0 then (if take 2 t = crlf then Some ([], drop 2 t) else None)
           else if length t < n + 2 \<or> take 2 (drop n t) \<noteq> crlf then None
           else map_option (\<lambda>(d, u). (take n t @ d, u)) (dechunk (drop (n + 2) t))))"
  by auto
termination by (relation "measure length") (auto dest: read_hex_shorter)

declare dechunk.simps [simp del]

lemma hex_digit_value: "d < 16 \<Longrightarrow> hex_value (hex_digit d) = Some d"
  by (auto simp: hex_value_def hex_digit_def Let_def of_char_of)

lemma read_hex_hex: "read_hex a (hex n @ s) = read_hex (a * 16 ^ length (hex n) + n) s"
proof (induction n arbitrary: a s rule: hex.induct)
  case (1 n)
  show ?case
  proof (cases "n < 16")
    case True
    then show ?thesis by (simp add: hex.simps [of n] hex_digit_value algebra_simps)
  next
    case False
    let ?k = "length (hex (n div 16))"
    have "read_hex a (hex n @ s) = read_hex (a * 16 ^ ?k + n div 16) (hex_digit (n mod 16) # s)"
      using 1 [OF False, of a "hex_digit (n mod 16) # s"] False by (simp add: hex.simps [of n])
    also have "\<dots> = read_hex (16 * (a * 16 ^ ?k + n div 16) + n mod 16) s"
      by (simp add: hex_digit_value)
    also have "16 * (a * 16 ^ ?k + n div 16) + n mod 16 = a * 16 ^ length (hex n) + n"
      using False by (simp add: hex.simps [of n] algebra_simps)
    finally show ?thesis .
  qed
qed

lemma read_hex_crlf: "read_hex a (crlf @ s) = Some (a, s)"
  by (simp add: crlf_def hex_value_def)

definition one_chunk :: "bytes \<Rightarrow> bytes" where
  "one_chunk p = hex (length p) @ crlf @ p @ crlf"

lemma length_crlf [simp]: "length crlf = 2"
  by (simp add: crlf_def)

lemma dechunk_chunk: "p \<noteq> [] \<Longrightarrow> dechunk (one_chunk p @ s) = map_option (\<lambda>(d, u). (p @ d, u)) (dechunk s)"
  by (subst dechunk.simps) (simp add: one_chunk_def read_hex_hex read_hex_crlf)

lemma dechunk_end: "dechunk (zerocrlf @ crlf @ s) = Some ([], s)"
proof -
  have z: "zerocrlf = hex 0 @ crlf"
    by code_simp
  show ?thesis
    by (subst dechunk.simps) (simp add: z read_hex_hex read_hex_crlf)
qed

definition chunks_of :: "bytes list \<Rightarrow> bytes" where
  "chunks_of ds = concat (map one_chunk (filter (\<lambda>d. d \<noteq> []) ds))"

lemma chunks_of_simps [simp]:
  "chunks_of [] = []"
  "chunks_of (d # ds) = (if d = [] then [] else one_chunk d) @ chunks_of ds"
  by (simp_all add: chunks_of_def)

text \<open>The numbers in front of the chunks and the chunked bodies are codecs.\<close>

interpretation hx: codec "\<lambda>_. True" "\<lambda>n. hex n @ crlf" "read_hex 0" id
  by unfold_locales (simp add: read_hex_hex read_hex_crlf)

interpretation ck: codec "\<lambda>_. True" "\<lambda>ds. chunks_of ds @ zerocrlf @ crlf" dechunk concat
proof
  fix ds s
  show "dechunk ((chunks_of ds @ zerocrlf @ crlf) @ s) = Some (concat ds, s)"
    by (induction ds) (simp_all add: dechunk_chunk dechunk_end)
qed

section \<open>A handler that writes\<close>

text \<open>A handler's writes, whose results it ignores.\<close>

fun resp_writes :: "http_env \<Rightarrow> bytes list \<Rightarrow> response \<Rightarrow> response go" where
  "resp_writes env [] r = Ret r"
| "resp_writes env (d # ds) r = go_bind (resp_Write env d r) (\<lambda>(_, r1). resp_writes env ds r1)"

text \<open>The response while everything written, \<open>D\<close>, still fits into the buffer.\<close>

definition buffered :: "string \<Rightarrow> bytes \<Rightarrow> http_header \<Rightarrow> bytes \<Rightarrow> response" where
  "buffered meth buf h D =
     (NewResponse meth buf h)\<lparr>wroteHeader := True, status := 200, written := int (length D),
        buffer := D @ drop (length D) buf\<rparr>"

text \<open>The head for status 200 and the header map \<open>h\<close>, with the given content type and framing fields.\<close>

definition head_of :: "http_env \<Rightarrow> http_header \<Rightarrow> string \<Rightarrow> string \<Rightarrow> string \<Rightarrow> bytes" where
  "head_of env h cl ct te =
     status_line env 200 @
     header_Write \<lparr>h_date = Some (appendTime [] (now env)), h_contentLength = cl, h_contentType = ct,
       h_connection = hget h ''Connection'', h_transferEncoding = te\<rparr> @
     other_lines env h h @ crlf"

definition no_framing :: "http_header \<Rightarrow> bool" where
  "no_framing h \<longleftrightarrow> hget h ''Content-Length'' = [] \<and> hget h ''Transfer-Encoding'' = []"

lemmas resp_state = NewResponse_def empty_header_def rw_Write_def rw_Flush_def put_def Let_def

lemma go_bind_Ret_case: "go_bind (Ret x) f = f x"
  by simp

lemma status_200 [simp]: "bodyAllowedForStatus 200"
  by (simp add: bodyAllowedForStatus_def)

lemma write_buffered:
  assumes "no_framing h" "length (D @ d) \<le> length buf"
  shows "resp_Write env d (buffered meth buf h D) = Ret ((int (length d), None), buffered meth buf h (D @ d))"
  using assms
  by (cases "d = []")
    (auto simp: resp_Write_def buffered_def ensure_header_def resp_state no_framing_def nat_add_distrib add.commute)

lemma write_first:
  assumes "no_framing h"
  shows "resp_Write env d (NewResponse meth buf h) = resp_Write env d (buffered meth buf h [])"
  using assms
  by (simp add: resp_Write_def buffered_def ensure_header_def resp_WriteHeader_def checkWriteHeaderCode_def
      no_framing_def resp_state)

lemma writes_buffered:
  assumes "no_framing h" "length (D @ concat ds) \<le> length buf"
  shows "resp_writes env ds (buffered meth buf h D) = Ret (buffered meth buf h (D @ concat ds))"
  using assms(2)
proof (induction ds arbitrary: D)
  case (Cons d ds)
  then show ?case using write_buffered [OF assms(1), of D d buf env meth] by simp
qed simp

text \<open>The response after the header has been sent for a body that did not fit.\<close>

definition streaming :: "http_env \<Rightarrow> string \<Rightarrow> http_header \<Rightarrow> int \<Rightarrow> bytes \<Rightarrow> bytes \<Rightarrow> response" where
  "streaming env meth h w B body =
     (NewResponse meth B h)\<lparr>wroteHeader := True, status := 200, written := w, noCache := True,
        cw_wroteHeader := True, cw_chunking := True,
        setHeader := \<lparr>h_date = Some (appendTime [] (now env)), h_contentLength = [],
          h_contentType = hget h ''Content-Type'', h_connection = hget h ''Connection'',
          h_transferEncoding = ''chunked''\<rparr>,
        rw_out := head_of env h [] (hget h ''Content-Type'') ''chunked'' @ body\<rparr>"

lemma cw_Write_streaming:
  "meth \<noteq> ''HEAD'' \<Longrightarrow> cw_Write env p (streaming env meth h w B body) =
     ((int (length p), None), streaming env meth h w B (body @ one_chunk p))"
  by (simp add: cw_Write_def streaming_def cw_writeHeader_def one_chunk_def resp_state)

lemma cw_Write_overflow:
  assumes "meth \<noteq> ''HEAD''"
  shows "cw_Write env p ((buffered meth buf h D)\<lparr>written := w, noCache := True\<rparr>) =
     ((int (length p), None), streaming env meth h w (D @ drop (length D) buf) (one_chunk p))"
  using assms
  by (simp add: cw_Write_def buffered_def streaming_def cw_writeHeader_def one_chunk_def resp_state
      choose_framing_def choose_type_def head_bytes_def head_of_def)

lemma write_overflow:
  assumes "meth \<noteq> ''HEAD''" "length D \<le> length buf" "length buf < length (D @ d)"
  shows "resp_Write env d (buffered meth buf h D) =
     Ret ((int (length d), None),
       streaming env meth h (int (length (D @ d))) (D @ drop (length D) buf) (chunks_of [D, d]))"
proof -
  have d: "d \<noteq> []" using assms(2,3) by auto
  show ?thesis
  proof (cases "D = []")
    case True
    then show ?thesis
      using d assms cw_Write_overflow [OF assms(1), where D = "[]" and w = "int (length d)" and p = d]
      by (simp add: resp_Write_def ensure_header_def resp_state buffered_def)
  next
    case False
    then show ?thesis
      using d assms cw_Write_overflow [OF assms(1), where D = D and w = "int (length (D @ d))" and p = D]
      by (simp add: resp_Write_def ensure_header_def resp_state buffered_def buffer_upto_def cw_Write_streaming)
  qed
qed

lemma write_streaming:
  assumes "meth \<noteq> ''HEAD''"
  shows "resp_Write env d (streaming env meth h w B body) =
     Ret ((int (length d), None), streaming env meth h w B (body @ chunks_of [d]))"
proof -
  have "hijacked (streaming env meth h w B body) = False" "wroteHeader (streaming env meth h w B body)"
    "status (streaming env meth h w B body) = 200" "cw_chunking (streaming env meth h w B body)"
    by (simp_all add: streaming_def resp_state)
  then show ?thesis
    by (simp add: resp_Write_def ensure_header_def cw_Write_streaming [OF assms])
qed

lemma writes_streaming:
  assumes "meth \<noteq> ''HEAD''"
  shows "resp_writes env ds (streaming env meth h w B body) =
     Ret (streaming env meth h w B (body @ chunks_of ds))"
proof (induction ds arbitrary: body)
  case (Cons d ds)
  then show ?case using write_streaming [OF assms, of env d h w B body] by simp
qed simp

lemma finish_streaming:
  "\<exists>r. resp_FinishRequest env (streaming env meth h w B body) = Ret r \<and>
     rw_out r = head_of env h [] (hget h ''Content-Type'') ''chunked'' @ body @ zerocrlf @ crlf"
  by (simp add: resp_FinishRequest_def resp_Flush_def streaming_def resp_state ensure_header_def cw_flush_def
      cw_close_def cw_writeHeader_def)

lemma write_any:
  assumes "no_framing h"
  shows "resp_writes env (d # ds) (NewResponse meth buf h) = resp_writes env (d # ds) (buffered meth buf h [])"
  using write_first [OF assms] by simp

lemma writes_overflow:
  assumes "meth \<noteq> ''HEAD''" "no_framing h"
  shows "length D \<le> length buf \<Longrightarrow> length buf < length (D @ concat ds) \<Longrightarrow>
     \<exists>w B ds'. resp_writes env ds (buffered meth buf h D) = Ret (streaming env meth h w B (chunks_of ds')) \<and>
       concat ds' = D @ concat ds"
proof (induction ds arbitrary: D)
  case (Cons d ds)
  show ?case
  proof (cases "length (D @ d) \<le> length buf")
    case True
    with Cons.IH [OF True] Cons.prems(2) show ?thesis
      using write_buffered [OF assms(2) True] by auto
  next
    case False
    then have "length buf < length (D @ d)" by simp
    from write_overflow [OF assms(1) Cons.prems(1) this, of env h]
    have "resp_writes env (d # ds) (buffered meth buf h D) =
        Ret (streaming env meth h (int (length (D @ d))) (D @ drop (length D) buf) (chunks_of ([D, d] @ ds)))"
      using writes_streaming [OF assms(1)] by (simp add: chunks_of_def)
    moreover have "concat ([D, d] @ ds) = D @ concat (d # ds)" by simp
    ultimately show ?thesis by blast
  qed
qed simp

section \<open>Properties\<close>

lemma show_nat_value: "decimal_value (show_nat n) = n"
  by (simp add: show_nat_def digits_value) (simp add: decimal_value_def)

definition sniffed :: "http_env \<Rightarrow> http_header \<Rightarrow> bytes \<Rightarrow> string" where
  "sniffed env h body =
     (if hget h ''Content-Type'' \<noteq> [] then hget h ''Content-Type'' else if body \<noteq> [] then detectContentType env body else [])"

text \<open>The response after the header has been sent at the end, with the framing by length.\<close>

definition sized :: "http_env \<Rightarrow> string \<Rightarrow> bytes \<Rightarrow> http_header \<Rightarrow> bytes \<Rightarrow> response" where
  "sized env meth buf h D =
     (buffered meth buf h D)\<lparr>handlerDone := True, cw_wroteHeader := True, contentLength := int (length D),
        setHeader := \<lparr>h_date = Some (appendTime [] (now env)), h_contentLength = show_nat (length D),
          h_contentType = sniffed env h D, h_connection = hget h ''Connection'', h_transferEncoding = []\<rparr>,
        rw_out := head_of env h (show_nat (length D)) (sniffed env h D) []\<rparr>"

lemma writeHeader_buffered:
  assumes "no_framing h"
  shows "cw_writeHeader env D ((buffered meth buf h D)\<lparr>handlerDone := True\<rparr>) = sized env meth buf h D"
proof -
  let ?r = "(buffered meth buf h D)\<lparr>handlerDone := True, cw_wroteHeader := True,
      setHeader := empty_header\<lparr>h_date := Some (appendTime [] (now env))\<rparr>\<rparr>"
  have f: "choose_framing D ?r = ?r\<lparr>contentLength := int (length D),
      setHeader := (setHeader ?r)\<lparr>h_contentLength := show_nat (length D)\<rparr>\<rparr>"
    using assms by (simp add: choose_framing_def buffered_def resp_state no_framing_def)
  have c: "choose_type env D (choose_framing D ?r) = ?r\<lparr>contentLength := int (length D),
      setHeader := \<lparr>h_date = Some (appendTime [] (now env)), h_contentLength = show_nat (length D),
          h_contentType = sniffed env h D, h_connection = hget h ''Connection'', h_transferEncoding = []\<rparr>\<rparr>"
    unfolding f by (auto simp: choose_type_def buffered_def resp_state sniffed_def)
  have "cw_writeHeader env D ((buffered meth buf h D)\<lparr>handlerDone := True\<rparr>) =
      put (head_bytes env (choose_type env D (choose_framing D ?r))) (choose_type env D (choose_framing D ?r))"
    by (simp add: cw_writeHeader_def buffered_def NewResponse_def Let_def)
  also have "\<dots> = sized env meth buf h D"
    unfolding c by (simp add: sized_def put_def rw_Write_def head_bytes_def head_of_def buffered_def NewResponse_def)
  finally show ?thesis .
qed

lemma cw_Write_buffered:
  assumes "no_framing h"
  shows "cw_Write env D ((buffered meth buf h D)\<lparr>handlerDone := True\<rparr>) =
     ((int (length D), None), (sized env meth buf h D)\<lparr>rw_out :=
        rw_out (sized env meth buf h D) @ (if meth = ''HEAD'' then [] else D)\<rparr>)"
  unfolding cw_Write_def Let_def writeHeader_buffered [OF assms]
  by (simp add: sized_def buffered_def NewResponse_def rw_Write_def)

lemma finish_buffered:
  assumes "no_framing h" "length D \<le> length buf"
  shows "\<exists>r. resp_FinishRequest env (buffered meth buf h D) = Ret r \<and> rw_err r = None \<and>
     rw_out r = head_of env h (show_nat (length D)) (sniffed env h D) [] @ (if meth = ''HEAD'' then [] else D)"
proof (cases "D = []")
  case True
  have "resp_Flush env ((buffered meth buf h D)\<lparr>handlerDone := True\<rparr>) =
      Ret (rw_Flush (cw_writeHeader env D ((buffered meth buf h D)\<lparr>handlerDone := True\<rparr>)))"
    using True by (simp add: resp_Flush_def buffered_def NewResponse_def ensure_header_def cw_flush_def)
  then show ?thesis
    unfolding writeHeader_buffered [OF assms(1)] using True
    by (simp add: resp_FinishRequest_def buffered_def NewResponse_def sized_def cw_close_def cw_writeHeader_def
        rw_Flush_def Let_def)
next
  case False
  have "resp_Flush env ((buffered meth buf h D)\<lparr>handlerDone := True\<rparr>) =
      Ret (cw_flush env ((snd (cw_Write env D ((buffered meth buf h D)\<lparr>handlerDone := True\<rparr>)))\<lparr>written := 0\<rparr>))"
    using False assms(2)
    by (simp add: resp_Flush_def buffered_def NewResponse_def ensure_header_def buffer_upto_def)
  then show ?thesis
    unfolding cw_Write_buffered [OF assms(1)] using False
    by (simp add: resp_FinishRequest_def buffered_def NewResponse_def sized_def cw_flush_def cw_close_def
        cw_writeHeader_def rw_Flush_def Let_def)
qed

lemma finish_new:
  assumes "no_framing h"
  shows "resp_FinishRequest env (NewResponse meth buf h) = resp_FinishRequest env (buffered meth buf h [])"
  using assms
  by (simp add: resp_FinishRequest_def resp_Flush_def buffered_def ensure_header_def resp_WriteHeader_def
      checkWriteHeaderCode_def no_framing_def resp_state)

lemma writes_and_finish:
  assumes "no_framing h" "length (concat ds) \<le> length buf"
  shows "\<exists>r1 r2. resp_writes env ds (NewResponse meth buf h) = Ret r1 \<and> resp_FinishRequest env r1 = Ret r2 \<and>
     \<not> handlerDone r1 \<and>
     rw_out r2 = head_of env h (show_nat (length (concat ds))) (sniffed env h (concat ds)) [] @
       (if meth = ''HEAD'' then [] else concat ds)"
proof (cases ds)
  case Nil
  have "\<not> handlerDone (NewResponse meth buf h)" by (simp add: NewResponse_def)
  then show ?thesis
    using Nil finish_buffered [OF assms(1), of "[]" buf env meth] finish_new [OF assms(1), of env meth buf]
    by auto
next
  case (Cons d ds')
  have "resp_writes env ds (NewResponse meth buf h) = Ret (buffered meth buf h (concat ds))"
    unfolding Cons write_any [OF assms(1)] using writes_buffered [OF assms(1), of "[]" "d # ds'"] assms(2) Cons
    by simp
  moreover have "\<not> handlerDone (buffered meth buf h (concat ds))" by (simp add: buffered_def NewResponse_def)
  ultimately show ?thesis
    using finish_buffered [OF assms, of env meth] by auto
qed

text \<open>An environment for examples.\<close>

definition demo_http :: http_env where
  "demo_http =
     \<lparr>statusText = (\<lambda>c. if c = 200 then ''OK'' else []), detectContentType = (\<lambda>_. ''text/plain''),
      now = \<lparr>yy = 2024, mm = 2, dd = 29, hh = 12, mn = 0, ss = 1, wd = 4\<rparr>, canonical = id\<rparr>"

text \<open>
  C31. A body that fits into the buffer is sent with its length: whatever a handler writes in however
  many pieces, if it has set no framing field and the whole body is at most the size of the buffer,
  the response is one head with a \<open>Content-Length\<close> that is the number of bytes written, followed by
  exactly these bytes (by none for a HEAD request). What the pooled buffer held before does not matter.
\<close>

theorem small_body_gets_content_length:
  assumes "no_framing h" "length (concat ds) \<le> length buf"
  shows "\<exists>r1 r2. resp_writes env ds (NewResponse meth buf h) = Ret r1 \<and> resp_FinishRequest env r1 = Ret r2 \<and>
     rw_out r2 = head_of env h (show_nat (length (concat ds))) (sniffed env h (concat ds)) [] @
       (if meth = ''HEAD'' then [] else concat ds) \<and>
     decimal_value (show_nat (length (concat ds))) = length (concat ds)"
  using writes_and_finish [OF assms, of env meth] by (auto simp: show_nat_value)

theorem small_body_gets_content_length_witness:
  "\<exists>r1 r2. resp_writes demo_http [''hel'', ''lo''] (NewResponse ''GET'' ''stale bytes'' []) = Ret r1 \<and>
     resp_FinishRequest demo_http r1 = Ret r2 \<and>
     rw_out r2 = head_of demo_http [] (show_nat 5) ''text/plain'' [] @ ''hello'' \<and>
     decimal_value (show_nat 5) = 5"
proof -
  have e: "concat [''hel'', ''lo''] = ''hello''" "length ''hello'' = 5" "no_framing []"
      "sniffed demo_http [] ''hello'' = ''text/plain''"
    by (simp_all add: no_framing_def hget_def sniffed_def demo_http_def)
  have l: "length (concat [''hel'', ''lo'']) \<le> length ''stale bytes''" by simp
  show ?thesis
    using small_body_gets_content_length [OF e(3) l, of demo_http "''GET''", unfolded e(1,2,4)] by simp
qed

text \<open>
  C32. A longer body survives the chunked encoding: if the bytes written exceed the buffer, the
  response is one head with \<open>Transfer-Encoding: chunked\<close> and a body from which the decoder gets back
  exactly what the handler wrote, with nothing left over, however the writes were cut.
\<close>

theorem chunked_body_decodes:
  assumes "meth \<noteq> ''HEAD''" "no_framing h" "length buf < length (concat ds)"
  shows "\<exists>r1 r2 body. resp_writes env ds (NewResponse meth buf h) = Ret r1 \<and> resp_FinishRequest env r1 = Ret r2 \<and>
     rw_out r2 = head_of env h [] (hget h ''Content-Type'') ''chunked'' @ body \<and>
     dechunk body = Some (concat ds, [])"
proof -
  obtain d ds' where ds: "ds = d # ds'" using assms(3) by (cases ds) auto
  obtain w B es where es: "resp_writes env ds (buffered meth buf h []) = Ret (streaming env meth h w B (chunks_of es))"
      "concat es = concat ds"
    using writes_overflow [OF assms(1,2), of "[]" buf ds env] assms(3) by auto
  have "dechunk (chunks_of es @ zerocrlf @ crlf) = Some (concat ds, [])"
    using ck.dec_enc [of es "[]"] es(2) by simp
  then show ?thesis
    using es(1) finish_streaming [of env meth h w B "chunks_of es"] write_any [OF assms(2), of env d ds' meth buf] ds
    by auto
qed

theorem chunked_body_decodes_witness:
  "\<exists>r1 r2 body. resp_writes demo_http [''hel'', [], ''lo world''] (NewResponse ''GET'' ''stale'' []) = Ret r1 \<and>
     resp_FinishRequest demo_http r1 = Ret r2 \<and>
     rw_out r2 = head_of demo_http [] [] [] ''chunked'' @ body \<and> dechunk body = Some (''hello world'', [])"
  using chunked_body_decodes [of "''GET''" "[]" "''stale''" "[''hel'', [], ''lo world'']" demo_http]
  by (simp add: no_framing_def hget_def)

text \<open>
  A HEAD request whose handler writes more than the buffer holds gets the end of a chunked body behind
  the head, though a response to HEAD has no body.
\<close>

lemma head_request_gets_chunk_end:
  assumes "no_framing h" "length buf < length d"
  shows "\<exists>r1 r2. resp_Write env d (NewResponse ''HEAD'' buf h) = Ret ((int (length d), None), r1) \<and>
     resp_FinishRequest env r1 = Ret r2 \<and>
     rw_out r2 = head_of env h [] (hget h ''Content-Type'') ''chunked'' @ zerocrlf @ crlf"
proof -
  have "cw_Write env d ((buffered ''HEAD'' buf h [])\<lparr>written := int (length d), noCache := True\<rparr>) =
      ((int (length d), None), streaming env ''HEAD'' h (int (length d)) buf [])"
    by (simp add: cw_Write_def buffered_def streaming_def cw_writeHeader_def resp_state
        choose_framing_def choose_type_def head_bytes_def head_of_def)
  moreover have "d \<noteq> []" using assms(2) by auto
  ultimately have "resp_Write env d (buffered ''HEAD'' buf h []) =
      Ret ((int (length d), None), streaming env ''HEAD'' h (int (length d)) buf [])"
    using assms(2) by (simp add: resp_Write_def ensure_header_def resp_state buffered_def)
  then show ?thesis
    using write_first [OF assms(1)] finish_streaming [of env "''HEAD''" h "int (length d)" buf "[]"] by simp
qed

text \<open>
  A handler that flushes before it writes, as for a stream of events, gets a head without any framing
  field: the client cannot tell where the body ends.
\<close>

lemma early_flush_leaves_body_unframed:
  assumes "meth \<noteq> ''HEAD''" "no_framing h" "d \<noteq> []" "length d \<le> length buf"
  shows "\<exists>r1 r2 r3. resp_Flush env (NewResponse meth buf h) = Ret r1 \<and>
     resp_Write env d r1 = Ret ((int (length d), None), r2) \<and> resp_FinishRequest env r2 = Ret r3 \<and>
     rw_out r3 = head_of env h [] (hget h ''Content-Type'') [] @ d"
proof -
  let ?r = "(buffered meth buf h [])\<lparr>cw_wroteHeader := True,
      setHeader := \<lparr>h_date = Some (appendTime [] (now env)), h_contentLength = [],
          h_contentType = hget h ''Content-Type'', h_connection = hget h ''Connection'', h_transferEncoding = []\<rparr>,
      rw_out := head_of env h [] (hget h ''Content-Type'') [],
      rw_flushed := length (head_of env h [] (hget h ''Content-Type'') [])\<rparr>"
  let ?r2 = "?r\<lparr>written := int (length d), buffer := d @ drop (length d) buf\<rparr>"
  have "resp_Flush env (NewResponse meth buf h) = resp_Flush env (buffered meth buf h [])"
    using assms(2) by (simp add: resp_Flush_def buffered_def ensure_header_def resp_WriteHeader_def
        checkWriteHeaderCode_def no_framing_def resp_state)
  moreover have "resp_Flush env (buffered meth buf h []) = Ret ?r"
    by (simp add: resp_Flush_def buffered_def ensure_header_def resp_state cw_flush_def cw_writeHeader_def
        choose_framing_def choose_type_def head_bytes_def head_of_def)
  moreover have "resp_Write env d ?r = Ret ((int (length d), None), ?r2)"
    using assms by (simp add: resp_Write_def buffered_def ensure_header_def resp_state)
  moreover have "\<exists>r3. resp_FinishRequest env ?r2 = Ret r3 \<and> rw_out r3 = head_of env h [] (hget h ''Content-Type'') [] @ d"
    using assms by (simp add: resp_FinishRequest_def resp_Flush_def buffered_def ensure_header_def resp_state
        buffer_upto_def cw_Write_def cw_flush_def cw_close_def cw_writeHeader_def)
  ultimately show ?thesis by auto
qed

section \<open>A body longer than the declared length\<close>

text \<open>The response after a write of \<open>n\<close> bytes under a declared length \<open>cl\<close> that is smaller.\<close>

definition overrun :: "string \<Rightarrow> bytes \<Rightarrow> http_header \<Rightarrow> string \<Rightarrow> int \<Rightarrow> nat \<Rightarrow> response" where
  "overrun meth buf h cl v n =
     (NewResponse meth buf h)\<lparr>wroteHeader := True, status := 200, contentLength := v, written := int n,
        setHeader := empty_header\<lparr>h_contentLength := cl\<rparr>\<rparr>"

lemma write_overrun:
  assumes "hget h ''Content-Length'' = cl" "parse_int64 cl = Some v" "0 \<le> v" "v < int (length data)"
  shows "resp_Write env data (NewResponse meth buf h) =
     Ret ((0, Some ErrContentLength), overrun meth buf h cl v (length data))"
proof -
  have cl: "cl \<noteq> []" using assms(2) by (auto simp: parse_int64_def)
  have "data \<noteq> []" using assms(3,4) by auto
  then show ?thesis
    using assms cl
    by (simp add: resp_Write_def ensure_header_def resp_WriteHeader_def checkWriteHeaderCode_def overrun_def
        NewResponse_def Let_def)
qed

lemma writeHeader_overrun:
  assumes "cl \<noteq> []" "r = (overrun meth buf h cl v n)\<lparr>handlerDone := True\<rparr>"
  shows "cw_writeHeader env p r = r\<lparr>cw_wroteHeader := True,
      setHeader := \<lparr>h_date = Some (appendTime [] (now env)), h_contentLength = cl, h_contentType = sniffed env h p,
         h_connection = hget h ''Connection'', h_transferEncoding = []\<rparr>,
      rw_out := head_of env h cl (sniffed env h p) []\<rparr>"
proof -
  let ?r = "r\<lparr>cw_wroteHeader := True, setHeader := (setHeader r)\<lparr>h_date := Some (appendTime [] (now env))\<rparr>\<rparr>"
  have f: "choose_framing p ?r = ?r"
    using assms by (simp add: choose_framing_def overrun_def NewResponse_def Let_def)
  have c: "choose_type env p (choose_framing p ?r) = ?r\<lparr>
      setHeader := \<lparr>h_date = Some (appendTime [] (now env)), h_contentLength = cl, h_contentType = sniffed env h p,
         h_connection = hget h ''Connection'', h_transferEncoding = []\<rparr>\<rparr>"
    unfolding f using assms by (auto simp: choose_type_def overrun_def resp_state sniffed_def)
  have "cw_writeHeader env p r = put (head_bytes env (choose_type env p (choose_framing p ?r))) (choose_type env p (choose_framing p ?r))"
    using assms(2) by (simp add: cw_writeHeader_def overrun_def NewResponse_def Let_def)
  then show ?thesis
    unfolding c using assms(2)
    by (simp add: put_def rw_Write_def head_bytes_def head_of_def overrun_def NewResponse_def)
qed

lemma finish_overrun:
  assumes "cl \<noteq> []" "0 < n" "n \<le> length buf" "meth \<noteq> ''HEAD''"
  shows "\<exists>r. resp_FinishRequest env (overrun meth buf h cl v n) = Ret r \<and>
     rw_out r = head_of env h cl (sniffed env h (take n buf)) [] @ take n buf"
proof -
  let ?r = "(overrun meth buf h cl v n)\<lparr>handlerDone := True\<rparr>"
  let ?p = "take n buf"
  have "resp_Flush env ?r = Ret (cw_flush env ((snd (cw_Write env ?p ?r))\<lparr>written := 0\<rparr>))"
    using assms(2,3) by (simp add: resp_Flush_def overrun_def NewResponse_def ensure_header_def buffer_upto_def)
  then show ?thesis
    using assms(4) writeHeader_overrun [OF assms(1) refl, of env ?p meth buf h v n]
    by (simp add: resp_FinishRequest_def overrun_def NewResponse_def cw_Write_def cw_flush_def cw_close_def
        cw_writeHeader_def [of env "[]"] rw_Write_def rw_Flush_def Let_def)
qed

lemma finish_overrun_panics:
  "length buf < n \<Longrightarrow> resp_FinishRequest env (overrun meth buf h cl v n) = Panic"
  by (simp add: resp_FinishRequest_def resp_Flush_def overrun_def NewResponse_def ensure_header_def buffer_upto_def)

text \<open>
  A write past the declared length sends the bytes of another response: when a handler has
  declared a \<open>Content-Length\<close> and then writes more in one call, the write fails with
  \<open>ErrContentLength\<close> and copies nothing, but it has counted the bytes. At the end \<open>Flush\<close> sends as many
  bytes of the pooled buffer as the failed write had, which are what earlier responses left there,
  and more than the length in the head says; or it panics, when the buffer is shorter.
\<close>

lemma overrun_sends_stale_bytes:
  assumes "meth \<noteq> ''HEAD''" "hget h ''Content-Length'' = cl" "parse_int64 cl = Some v" "0 \<le> v" "v < int (length data)"
  shows "\<exists>r1. resp_Write env data (NewResponse meth buf h) = Ret ((0, Some ErrContentLength), r1) \<and>
     (if length data \<le> length buf
      then \<exists>r2. resp_FinishRequest env r1 = Ret r2 \<and>
             rw_out r2 = head_of env h cl (sniffed env h (take (length data) buf)) [] @ take (length data) buf
      else resp_FinishRequest env r1 = Panic)"
proof -
  have cl: "cl \<noteq> []" using assms(3) by (auto simp: parse_int64_def)
  have "0 < length data" using assms(4,5) by (cases data) auto
  then show ?thesis
    using write_overrun [OF assms(2-5)] finish_overrun [OF cl] finish_overrun_panics assms(1) by auto
qed

theorem overrun_sends_stale_bytes_witness:
  "\<exists>r1. resp_Write demo_http ''abcdef'' (NewResponse ''GET'' ''secret of another user'' [(''Content-Length'', [''2''])]) =
       Ret ((0, Some ErrContentLength), r1) \<and>
     (\<exists>r2. resp_FinishRequest demo_http r1 = Ret r2 \<and>
        rw_out r2 = head_of demo_http [(''Content-Length'', [''2''])] ''2'' ''text/plain'' [] @ ''secret'')"
proof -
  have c: "hget [(''Content-Length'', [''2''])] ''Content-Length'' = ''2''" by (simp add: hget_def)
  have v: "parse_int64 ''2'' = Some 2"
    by code_simp
  have s: "sniffed demo_http [(''Content-Length'', [''2''])] ''secret'' = ''text/plain''"
    by (simp add: sniffed_def hget_def demo_http_def)
  show ?thesis
    using overrun_sends_stale_bytes [OF _ c v, of "''GET''" "''abcdef''" demo_http "''secret of another user''"] s
    by simp
qed

section \<open>Which calls can panic\<close>

text \<open>The fields that the chunk writer leaves alone.\<close>

lemma rw_Flush_frame [frame]:
  "noCache (rw_Flush r) = noCache r" "written (rw_Flush r) = written r" "buffer (rw_Flush r) = buffer r"
  "handlerHeader (rw_Flush r) = handlerHeader r" "handlerDone (rw_Flush r) = handlerDone r"
  "hijacked (rw_Flush r) = hijacked r" "contentLength (rw_Flush r) = contentLength r"
  "wroteHeader (rw_Flush r) = wroteHeader r" "rw_out (rw_Flush r) = rw_out r" "rw_err (rw_Flush r) = rw_err r"
  by (simp_all add: rw_Flush_def)

lemma rw_Write_frame [frame]:
  "noCache (snd (rw_Write p r)) = noCache r" "written (snd (rw_Write p r)) = written r"
  "buffer (snd (rw_Write p r)) = buffer r" "handlerHeader (snd (rw_Write p r)) = handlerHeader r"
  "handlerDone (snd (rw_Write p r)) = handlerDone r" "hijacked (snd (rw_Write p r)) = hijacked r"
  "contentLength (snd (rw_Write p r)) = contentLength r" "wroteHeader (snd (rw_Write p r)) = wroteHeader r"
  by (simp_all add: rw_Write_def split: option.split)

lemma choose_framing_frame [frame]:
  "noCache (choose_framing p r) = noCache r" "written (choose_framing p r) = written r"
  "buffer (choose_framing p r) = buffer r" "handlerHeader (choose_framing p r) = handlerHeader r"
  "handlerDone (choose_framing p r) = handlerDone r" "hijacked (choose_framing p r) = hijacked r"
  "\<not> handlerDone r \<Longrightarrow> contentLength (choose_framing p r) = contentLength r"
  "wroteHeader (choose_framing p r) = wroteHeader r"
  by (simp_all add: choose_framing_def Let_def)

lemma cw_writeHeader_frame [frame]:
  "noCache (cw_writeHeader env p r) = noCache r" "written (cw_writeHeader env p r) = written r"
  "buffer (cw_writeHeader env p r) = buffer r" "handlerHeader (cw_writeHeader env p r) = handlerHeader r"
  "handlerDone (cw_writeHeader env p r) = handlerDone r" "hijacked (cw_writeHeader env p r) = hijacked r"
  "\<not> handlerDone r \<Longrightarrow> contentLength (cw_writeHeader env p r) = contentLength r"
  "wroteHeader (cw_writeHeader env p r) = wroteHeader r"
  by (simp_all add: cw_writeHeader_def put_def choose_type_def Let_def frame)

lemma cw_Write_fields:
  assumes "q = cw_writeHeader env p r"
  shows "snd (cw_Write env p r) = q \<or> snd (cw_Write env p r) = q\<lparr>connClosed := True\<rparr> \<or>
     (\<exists>out. snd (cw_Write env p r) = q\<lparr>rw_out := out\<rparr>)"
proof -
  have "snd (cw_Write env p r) =
      (if reqMethod q = ''HEAD'' then q
       else if rw_err q \<noteq> None then q\<lparr>connClosed := True\<rparr>
       else q\<lparr>rw_out := rw_out q @ (if cw_chunking q then one_chunk p else p)\<rparr>)"
    by (auto simp: cw_Write_def rw_Write_def one_chunk_def assms Let_def split: option.split)
  then show ?thesis by (simp only: split: if_split) blast
qed

lemma cw_Write_frame [frame]:
  "noCache (snd (cw_Write env p r)) = noCache r" "written (snd (cw_Write env p r)) = written r"
  "buffer (snd (cw_Write env p r)) = buffer r" "handlerHeader (snd (cw_Write env p r)) = handlerHeader r"
  "handlerDone (snd (cw_Write env p r)) = handlerDone r" "hijacked (snd (cw_Write env p r)) = hijacked r"
  "\<not> handlerDone r \<Longrightarrow> contentLength (snd (cw_Write env p r)) = contentLength r"
  "wroteHeader (snd (cw_Write env p r)) = wroteHeader r"
  using cw_Write_fields [OF refl, of env p r] by (auto simp: frame)

text \<open>What a handler can call.\<close>

datatype rcall = CallWrite bytes | CallWriteHeader int | CallFlush | CallHijack

fun run_rcall :: "http_env \<Rightarrow> rcall \<Rightarrow> response \<Rightarrow> response go" where
  "run_rcall env (CallWrite d) r = go_bind (resp_Write env d r) (\<lambda>(_, r1). Ret r1)"
| "run_rcall env (CallWriteHeader code) r = resp_WriteHeader code r"
| "run_rcall env CallFlush r = resp_Flush env r"
| "run_rcall env CallHijack r = go_bind (resp_Hijack env r) (\<lambda>(_, r1). Ret r1)"

fun run_rcalls :: "http_env \<Rightarrow> rcall list \<Rightarrow> response \<Rightarrow> response go" where
  "run_rcalls env [] r = Ret r"
| "run_rcalls env (c # cs) r = go_bind (run_rcall env c r) (run_rcalls env cs)"

fun rcall_ok :: "rcall \<Rightarrow> bool" where
  "rcall_ok (CallWriteHeader code) = (100 \<le> code \<and> code \<le> 999)"
| "rcall_ok _ = True"

text \<open>The well-formed responses without a declared length: the buffer holds what it is said to hold.\<close>

definition resp_ok :: "response \<Rightarrow> bool" where
  "resp_ok r \<longleftrightarrow> hijacked r \<or>
     (\<not> handlerDone r \<and> contentLength r = -1 \<and> hget (handlerHeader r) ''Content-Length'' = [] \<and>
      (noCache r \<or> 0 \<le> written r \<and> written r \<le> int (length (buffer r))))"

lemma WriteHeader_ok:
  assumes "resp_ok r" "100 \<le> code" "code \<le> 999"
  shows "\<exists>r1. resp_WriteHeader code r = Ret r1 \<and> resp_ok r1 \<and> hijacked r1 = hijacked r \<and>
     (hijacked r \<or> wroteHeader r1) \<and> noCache r1 = noCache r \<and> written r1 = written r \<and> buffer r1 = buffer r"
  using assms by (auto simp: resp_WriteHeader_def checkWriteHeaderCode_def resp_ok_def Let_def)

lemma ensure_header_ok:
  assumes "resp_ok r"
  shows "\<exists>r1. ensure_header r = Ret r1 \<and> resp_ok r1 \<and> hijacked r1 = hijacked r \<and> noCache r1 = noCache r \<and>
     written r1 = written r \<and> buffer r1 = buffer r"
  using assms WriteHeader_ok [OF assms, of 200] by (auto simp: ensure_header_def)

lemma Write_ok:
  assumes "resp_ok r"
  shows "\<exists>x r1. resp_Write env d r = Ret (x, r1) \<and> resp_ok r1"
proof (cases "hijacked r")
  case True
  then show ?thesis using assms by (simp add: resp_Write_def)
next
  case False
  obtain q where q: "ensure_header r = Ret q" "resp_ok q" "\<not> hijacked q"
    using ensure_header_ok [OF assms] False by auto
  have cw: "resp_ok (snd (cw_Write env p s))" if "resp_ok s" for p s
    using that by (auto simp: resp_ok_def frame)
  have split: "\<exists>x r1. cw_Write env p s = (x, r1) \<and> resp_ok r1" if "resp_ok s" for p s
    using cw [OF that, of p] by (metis prod.collapse)
  show ?thesis
  proof (cases "cw_chunking q \<or> d = [] \<or> \<not> bodyAllowedForStatus (status q)")
    case True
    then show ?thesis
      using q False split [OF q(2), of d] by (auto simp: resp_Write_def Let_def)
  next
    case inner: False
    let ?n = "int (length d)"
    have ok: "\<not> handlerDone q" "contentLength q = -1" "hget (handlerHeader q) ''Content-Length'' = []"
        "noCache q \<or> 0 \<le> written q \<and> written q \<le> int (length (buffer q))"
      using q(2,3) by (auto simp: resp_ok_def)
    show ?thesis
    proof (cases "noCache q \<or> written q + ?n \<le> int (length (buffer q))")
      case True
      have "resp_ok (q\<lparr>written := written q + ?n\<rparr>)" if "noCache q"
        using ok q(3) that by (simp add: resp_ok_def)
      moreover have "resp_ok (q\<lparr>written := written q + ?n, buffer := take (nat (written q)) (buffer q) @ d @ drop (nat (written q + ?n)) (buffer q)\<rparr>)"
        if "\<not> noCache q"
        using ok q(3) that True by (simp add: resp_ok_def)
      ultimately show ?thesis
        using True q False inner ok split [of "q\<lparr>written := written q + ?n\<rparr>" d]
        by (cases "noCache q") (simp_all add: resp_Write_def Let_def)
    next
      case overflow: False
      let ?s = "q\<lparr>written := written q + ?n, noCache := True\<rparr>"
      have s: "resp_ok ?s" using ok q(3) by (simp add: resp_ok_def)
      have b: "buffer_upto (written q) ?s = Ret (take (nat (written q)) (buffer q))"
        using ok overflow by (auto simp: buffer_upto_def)
      have r: "resp_Write env d r = (if written q > 0
          then Ret (cw_Write env d (snd (cw_Write env (take (nat (written q)) (buffer q)) ?s))) else Ret (cw_Write env d ?s))"
        using q False inner ok overflow b by (simp add: resp_Write_def Let_def)
      show ?thesis
        unfolding r using split [OF s, of d] split [OF cw [OF s], of d] by auto
    qed
  qed
qed

lemma Flush_ok:
  assumes "resp_ok r"
  shows "\<exists>r1. resp_Flush env r = Ret r1 \<and> resp_ok r1"
proof (cases "hijacked r")
  case True
  then show ?thesis using assms by (simp add: resp_Flush_def)
next
  case False
  obtain q where q: "ensure_header r = Ret q" "resp_ok q" "\<not> hijacked q"
    using ensure_header_ok [OF assms] False by auto
  then show ?thesis
    using False by (auto simp: resp_Flush_def buffer_upto_def resp_ok_def cw_flush_def frame)
qed

lemma Finish_ok:
  assumes "resp_ok r"
  shows "\<exists>r1. resp_FinishRequest env r = Ret r1 \<and> hijacked r1 = hijacked r"
proof (cases "hijacked r")
  case True
  then show ?thesis
    by (simp add: resp_FinishRequest_def resp_Flush_def cw_close_def put_def Let_def frame)
next
  case False
  let ?r = "r\<lparr>handlerDone := True\<rparr>"
  have e: "ensure_header ?r = go_bind (ensure_header r) (\<lambda>q. Ret (q\<lparr>handlerDone := True\<rparr>))"
    by (cases r) (simp add: ensure_header_def resp_WriteHeader_def checkWriteHeaderCode_def Let_def split: option.split)
  obtain q where q: "ensure_header r = Ret q" "\<not> hijacked q"
      "noCache q \<or> 0 \<le> written q \<and> written q \<le> int (length (buffer q))"
    using ensure_header_ok [OF assms] False by (auto simp: resp_ok_def)
  have "\<exists>s. resp_Flush env ?r = Ret s \<and> \<not> hijacked s"
    using q False by (auto simp: resp_Flush_def e buffer_upto_def cw_flush_def frame)
  then show ?thesis
    using False by (auto simp: resp_FinishRequest_def cw_close_def put_def Let_def frame)
qed

lemma run_rcall_ok:
  assumes "resp_ok r" "rcall_ok c"
  shows "\<exists>r1. run_rcall env c r = Ret r1 \<and> resp_ok r1"
proof (cases c)
  case (CallWrite d)
  then show ?thesis using Write_ok [OF assms(1), of env d] by auto
next
  case (CallWriteHeader code)
  then show ?thesis using WriteHeader_ok [OF assms(1), of code] assms(2) by auto
next
  case CallFlush
  then show ?thesis using Flush_ok [OF assms(1)] by auto
next
  case CallHijack
  have "resp_ok (q\<lparr>hijacked := True\<rparr>)" "hijacked q \<Longrightarrow> resp_ok q" for q by (simp_all add: resp_ok_def)
  then show ?thesis
    using Finish_ok [OF assms(1), of env] CallHijack by (auto simp: resp_Hijack_def)
qed



section \<open>A hijacked connection\<close>

text \<open>
  A hijacked connection gets a bogus response: a handler takes the connection over before it has
  written anything, \<open>x\<close> is what it has sent itself by then, and the server finishes the request.
  \<open>Flush\<close> respects the hijacking but \<open>chunkWriter.close\<close> does not: the status line for the status
  that was never set, \<open>HTTP/1.1 000 status code 0\<close>, is written into the hijacked stream.
\<close>

lemma hijacked_stream_is_corrupted:
  assumes "statusText env 0 = []"
  shows "\<exists>r1. resp_Hijack env (NewResponse meth buf h) = Ret (None, r1) \<and> hijacked r1 \<and>
     (\<exists>r2 rest. resp_FinishRequest env (r1\<lparr>rw_out := x\<rparr>) = Ret r2 \<and>
        rw_out r2 = x @ ''HTTP/1.1 000 status code 0'' @ crlf @ rest)"
proof -
  let ?r1 = "(NewResponse meth buf h)\<lparr>hijacked := True\<rparr>"
  let ?r = "?r1\<lparr>rw_out := x, handlerDone := True\<rparr>"
  let ?w = "?r\<lparr>cw_wroteHeader := True, setHeader := (setHeader ?r)\<lparr>h_date := Some (appendTime [] (now env))\<rparr>\<rparr>"
  let ?t = "choose_type env [] (choose_framing [] ?w)"
  have st: "status ?t = 0" "rw_out ?t = x" "rw_err ?t = None" "cw_chunking ?t = False"
    by (auto simp: choose_type_def choose_framing_def NewResponse_def empty_header_def Let_def)
  have sl: "status_line env 0 = ''HTTP/1.1 000 status code 0'' @ crlf"
    using assms by (simp add: status_line_def show_nat_def Let_def numeral_3_eq_3)
  have "cw_writeHeader env [] ?r = put (head_bytes env ?t) ?t"
    by (simp add: cw_writeHeader_def NewResponse_def Let_def)
  also have "\<dots> = ?t\<lparr>rw_out := x @ head_bytes env ?t\<rparr>"
    using st by (simp add: put_def rw_Write_def)
  finally have w: "cw_close env ?r = ?t\<lparr>rw_out := x @ head_bytes env ?t\<rparr>"
    using st by (simp add: cw_close_def)
  have "\<exists>rest. head_bytes env ?t = ''HTTP/1.1 000 status code 0'' @ crlf @ rest"
    unfolding head_bytes_def st sl by simp
  moreover have "resp_Hijack env (NewResponse meth buf h) = Ret (None, ?r1)"
    by (simp add: resp_Hijack_def NewResponse_def)
  moreover have "resp_Flush env ?r = Ret ?r"
    by (simp add: resp_Flush_def)
  ultimately show ?thesis
    using w by (auto simp: resp_FinishRequest_def NewResponse_def Let_def frame)
qed

theorem hijacked_stream_is_corrupted_witness:
  "\<exists>r1. resp_Hijack demo_http (NewResponse ''GET'' [] []) = Ret (None, r1) \<and> hijacked r1 \<and>
     (\<exists>r2 rest. resp_FinishRequest demo_http (r1\<lparr>rw_out := ''websocket''\<rparr>) = Ret r2 \<and>
        rw_out r2 = ''websocket'' @ ''HTTP/1.1 000 status code 0'' @ crlf @ rest)"
  using hijacked_stream_is_corrupted [of demo_http "''GET''" "[]" "[]" "''websocket''"]
  by (simp add: demo_http_def)

section \<open>Header lines\<close>

text \<open>The header map with only the first value of every key.\<close>

definition first_values :: "http_header \<Rightarrow> http_header" where
  "first_values h = map (\<lambda>(k, vs). (k, take 1 vs)) h"

lemma hget_first_values: "hget (first_values h) key = hget h key"
proof -
  have "map_of (first_values h) key = map_option (take 1) (map_of h key)"
    by (simp add: first_values_def map_of_map)
  then show ?thesis by (auto simp: hget_def split: option.split list.split)
qed

lemma first_values_simps [simp]:
  "first_values [] = []"
  "first_values ((k, vs) # h) = (k, take 1 vs) # first_values h"
  by (simp_all add: first_values_def)

lemma other_lines_first_values: "other_lines env (first_values h) (first_values h') = other_lines env h h'"
  by (induction env h h' rule: other_lines.induct) (simp_all add: hget_first_values Let_def)

lemma writeHeader_handlerHeader:
  assumes "\<not> cw_wroteHeader r"
    and "s = r\<lparr>cw_wroteHeader := True, setHeader := (setHeader r)\<lparr>h_date := Some (appendTime [] (now env))\<rparr>\<rparr>"
  shows "cw_writeHeader env p (r\<lparr>handlerHeader := g\<rparr>) =
     put (head_bytes env (choose_type env p (choose_framing p (s\<lparr>handlerHeader := g\<rparr>))))
       (choose_type env p (choose_framing p (s\<lparr>handlerHeader := g\<rparr>)))"
proof -
  have e: "(r\<lparr>handlerHeader := g\<rparr>)\<lparr>cw_wroteHeader := True, setHeader := x\<rparr> =
      (r\<lparr>cw_wroteHeader := True, setHeader := x\<rparr>)\<lparr>handlerHeader := g\<rparr>" for x
    by (cases r) simp
  show ?thesis using assms by (simp add: cw_writeHeader_def Let_def e)
qed

text \<open>
  Only the first value of a header reaches the client: for every response, whatever its state,
  the head that is written does not depend on the second and later values of any key of the header
  map, so a handler that adds two \<open>Set-Cookie\<close> values sends one.
\<close>

lemma later_header_values_are_dropped:
  "rw_out (cw_writeHeader env p (r\<lparr>handlerHeader := first_values h\<rparr>)) =
   rw_out (cw_writeHeader env p (r\<lparr>handlerHeader := h\<rparr>))"
proof -
  have f: "choose_framing p (r\<lparr>handlerHeader := first_values h\<rparr>) = (choose_framing p r)\<lparr>handlerHeader := first_values h\<rparr>"
    if "handlerHeader r = h" for r
    using that by (cases r) (simp add: choose_framing_def hget_first_values Let_def)
  have c: "choose_type env p (r\<lparr>handlerHeader := first_values h\<rparr>) = (choose_type env p r)\<lparr>handlerHeader := first_values h\<rparr>"
    if "handlerHeader r = h" for r
    using that by (cases r) (simp add: choose_type_def hget_first_values Let_def)
  have k: "handlerHeader (choose_framing p r) = handlerHeader r" "handlerHeader (choose_type env p r) = handlerHeader r" for r
    by (simp_all add: choose_type_def choose_framing_def Let_def)
  have b: "head_bytes env (r\<lparr>handlerHeader := first_values h\<rparr>) = head_bytes env r" if "handlerHeader r = h" for r
    using that by (simp add: head_bytes_def other_lines_first_values)
  have o: "rw_out (put d (r\<lparr>handlerHeader := g\<rparr>)) = rw_out (put d r)" for d r g
    by (simp add: put_def rw_Write_def split: option.split)
  show ?thesis
  proof (cases "cw_wroteHeader r")
    case True
    then show ?thesis by (simp add: cw_writeHeader_def)
  next
    case False
    define s where "s = r\<lparr>cw_wroteHeader := True, setHeader := (setHeader r)\<lparr>h_date := Some (appendTime [] (now env))\<rparr>\<rparr>"
    let ?s = "s\<lparr>handlerHeader := h\<rparr>"
    have "s\<lparr>handlerHeader := first_values h\<rparr> = ?s\<lparr>handlerHeader := first_values h\<rparr>" by simp
    moreover have hs: "handlerHeader ?s = h" by simp
    moreover have "choose_type env p (choose_framing p (?s\<lparr>handlerHeader := first_values h\<rparr>)) =
        (choose_type env p (choose_framing p ?s))\<lparr>handlerHeader := first_values h\<rparr>"
      by (simp only: f [OF hs] c k hs)
    ultimately show ?thesis
      unfolding writeHeader_handlerHeader [OF False s_def] by (simp only: o b k)
  qed
qed

end
