(* ===== verification/HttpRequest.thy ===== *)
theory HttpRequest
  imports HttpResponse
begin

text \<open>
  The fast request reader of \<open>gkhttp/request.go\<close>: lines, the request line, the header lines, the body
  and the header pool. The buffered reader is the list of the bytes that can still be read; its end
  is \<open>io.EOF\<close>, which \<open>Conn.Read\<close> reports as soon as no more input has arrived. The URL parser and
  \<open>textproto.CanonicalMIMEHeaderKey\<close> are parameters. Strings are values here: the code makes them
  views of the reader's buffer, so the model is exact as long as one fill of that buffer holds the
  request; \<open>BufioReader\<close> has the views, proves that, and shows what happens beyond.
\<close>

section \<open>Lines and words\<close>

definition LF :: char where "LF = CHR 0x0A"
definition CR :: char where "CR = CHR 0x0D"

text \<open>\<open>bufio.Reader.ReadLine\<close>: a last line without a line break is returned like any other.\<close>

definition readLine :: "bytes \<Rightarrow> (bytes \<times> nerror) \<times> bytes" where
  "readLine s =
     (if s = [] then (([], Some EOF), [])
      else (let l = takeWhile (\<lambda>c. c \<noteq> LF) s in
            if length l = length s then ((l, None), [])
            else ((if l \<noteq> [] \<and> last l = CR then butlast l else l, None), drop (length l + 1) s)))"

lemma readLine_shorter: "readLine s = ((l, None), t) \<Longrightarrow> length t < length s"
  by (cases s) (auto simp: readLine_def Let_def split: if_splits)

text \<open>\<open>strings.Split(s, " ")\<close>.\<close>

fun split_spaces :: "string \<Rightarrow> string list" where
  "split_spaces [] = [[]]"
| "split_spaces (c # s) =
     (if c = CHR '' '' then [] # split_spaces s
      else (c # hd (split_spaces s)) # tl (split_spaces s))"

lemma split_spaces_not_Nil [simp]: "split_spaces s \<noteq> []"
  by (cases s) auto

section \<open>Numbers\<close>

text \<open>
  \<open>strconv.ParseInt(s, 0, 64)\<close>: base prefixes, underscores where the syntax of Go allows them, the
  nearest bound when the number is out of range (before the rest of the text is looked at), and 0 for
  text that is not a number. The caller drops the error.
\<close>

definition lower :: "char \<Rightarrow> char" where
  "lower c = (if 65 \<le> (of_char c :: nat) \<and> (of_char c :: nat) \<le> 90 then char_of ((of_char c :: nat) + 32) else c)"

definition digit_of :: "char \<Rightarrow> nat option" where
  "digit_of c =
     (let n = of_char (lower c) :: nat in
      if 48 \<le> n \<and> n \<le> 57 then Some (n - 48) else if 97 \<le> n \<and> n \<le> 122 then Some (n - 87) else None)"

datatype uint_result = UVal int | URange | USyntax

fun parse_digits :: "nat \<Rightarrow> int \<Rightarrow> string \<Rightarrow> uint_result" where
  "parse_digits base a [] = UVal a"
| "parse_digits base a (c # s) =
     (if c = CHR ''_'' then parse_digits base a s
      else (case digit_of c of
              None \<Rightarrow> USyntax
            | Some d \<Rightarrow> if d \<ge> base then USyntax
                else if a * int base + int d \<ge> 2 ^ 64 then URange else parse_digits base (a * int base + int d) s))"

text \<open>\<open>saw\<close> is the kind of the last character: start, digit, underscore or other.\<close>

datatype saw = SawStart | SawDigit | SawUnderscore | SawOther

fun underscore_ok :: "bool \<Rightarrow> saw \<Rightarrow> string \<Rightarrow> bool" where
  "underscore_ok hx w [] = (w \<noteq> SawUnderscore)"
| "underscore_ok hx w (c # s) =
     (if is_digit c \<or> (hx \<and> 97 \<le> (of_char (lower c) :: nat) \<and> (of_char (lower c) :: nat) \<le> 102) then underscore_ok hx SawDigit s
      else if c = CHR ''_'' then w = SawDigit \<and> underscore_ok hx SawUnderscore s
      else w \<noteq> SawUnderscore \<and> underscore_ok hx SawOther s)"

definition base_of :: "string \<Rightarrow> nat \<times> string" where
  "base_of s =
     (if s \<noteq> [] \<and> hd s = CHR ''0''
      then (if length s \<ge> 3 \<and> lower (s ! 1) = CHR ''b'' then (2, drop 2 s)
            else if length s \<ge> 3 \<and> lower (s ! 1) = CHR ''o'' then (8, drop 2 s)
            else if length s \<ge> 3 \<and> lower (s ! 1) = CHR ''x'' then (16, drop 2 s)
            else (8, drop 1 s))
      else (10, s))"

definition underscores_ok :: "string \<Rightarrow> bool" where
  "underscores_ok s =
     (if length s \<ge> 2 \<and> hd s = CHR ''0'' \<and> lower (s ! 1) \<in> {CHR ''b'', CHR ''o'', CHR ''x''}
      then underscore_ok (lower (s ! 1) = CHR ''x'') SawDigit (drop 2 s)
      else underscore_ok False SawStart s)"

definition parse_uint0 :: "string \<Rightarrow> uint_result" where
  "parse_uint0 s =
     (if s = [] then USyntax
      else (case parse_digits (fst (base_of s)) 0 (snd (base_of s)) of
              UVal v \<Rightarrow> if CHR ''_'' \<in> set s \<and> \<not> underscores_ok s then USyntax else UVal v
            | r \<Rightarrow> r))"

definition parse_int0 :: "string \<Rightarrow> int" where
  "parse_int0 s =
     (let neg = (s \<noteq> [] \<and> hd s = CHR ''-'');
          t = (if s \<noteq> [] \<and> (hd s = CHR ''-'' \<or> hd s = CHR ''+'') then tl s else s) in
      case parse_uint0 t of
        USyntax \<Rightarrow> 0
      | URange \<Rightarrow> if neg then - (2 ^ 63) else 2 ^ 63 - 1
      | UVal v \<Rightarrow>
          if \<not> neg \<and> v \<ge> 2 ^ 63 then 2 ^ 63 - 1
          else if neg \<and> v > 2 ^ 63 then - (2 ^ 63)
          else if neg then - v else v)"

section \<open>Requests\<close>

definition hset :: "http_header \<Rightarrow> string \<Rightarrow> string list \<Rightarrow> http_header" where
  "hset h key vs = hdel h key @ [(key, vs)]"

text \<open>The body: a reader of at most \<open>bd_l\<close> bytes, of which \<open>bd_i\<close> have been read.\<close>

record body =
  bd_i :: int
  bd_l :: int

record 'u request =
  Method :: string
  URL :: 'u
  Proto :: string
  Header :: http_header
  Host :: string
  ContentLength :: int
  Body :: body

text \<open>A header line is cut at its spaces; the last character of its first word is dropped.\<close>

function read_headers :: "http_header \<Rightarrow> bytes \<Rightarrow> ((error + http_header) \<times> bytes) go" where
  "read_headers h s =
     (case readLine s of
        ((line, Some e), t) \<Rightarrow> Ret (Inl e, t)
      | ((line, None), t) \<Rightarrow>
          (if line = [] then Ret (Inr h, t)
           else (let strs = split_spaces line in
                 if hd strs = [] then Panic else read_headers (hset h (butlast (hd strs)) (tl strs)) t)))"
  by auto
termination by (relation "measure (\<lambda>(h, s). length s)") (auto dest: readLine_shorter [OF sym])

declare read_headers.simps [simp del]

text \<open>\<open>v[0]\<close> of a header that is present.\<close>

definition first_value :: "http_header \<Rightarrow> string \<Rightarrow> string option go" where
  "first_value h key =
     (case map_of h key of None \<Rightarrow> Ret None | Some [] \<Rightarrow> Panic | Some (v # _) \<Rightarrow> Ret (Some v))"

definition make_request :: "string \<Rightarrow> 'u \<Rightarrow> string \<Rightarrow> http_header \<Rightarrow> bytes \<Rightarrow> ((error + 'u request) \<times> bytes) go" where
  "make_request m url p h t =
     go_bind (first_value h ''Host'') (\<lambda>hv.
     go_bind (first_value h ''Content-Length'') (\<lambda>cv.
       let cl = (case cv of None \<Rightarrow> 0 | Some v \<Rightarrow> parse_int0 v) in
       Ret (Inr \<lparr>Method = m, URL = url, Proto = p, Header = h, Host = (case hv of None \<Rightarrow> [] | Some v \<Rightarrow> v),
                 ContentLength = cl, Body = \<lparr>bd_i = 0, bd_l = cl\<rparr>\<rparr>, t)))"

text \<open>\<open>pooled\<close> is the header map that the pool returned.\<close>

definition ReadFastRequest :: "(string \<Rightarrow> error + 'u) \<Rightarrow> http_header \<Rightarrow> bytes \<Rightarrow>
    ((error + 'u request) \<times> bytes) go" where
  "ReadFastRequest urlParse pooled s =
     (case readLine s of
        ((line, Some e), t) \<Rightarrow> Ret (Inl e, t)
      | ((line, None), t) \<Rightarrow>
          (case split_spaces line of
             [m, u, p] \<Rightarrow>
               (case urlParse u of
                  Inl e \<Rightarrow> Ret (Inl e, t)
                | Inr url \<Rightarrow>
                    go_bind (read_headers pooled t) (\<lambda>(r, t1).
                      case r of Inl e \<Rightarrow> Ret (Inl e, t1) | Inr h \<Rightarrow> make_request m url p h t1))
           | _ \<Rightarrow> Ret (Inl (NewError ''status line error ''), t)))"

section \<open>The body\<close>

text \<open>\<open>Read\<close> of the buffered reader into \<open>m\<close> bytes, and of the body on it.\<close>

definition bufio_Read :: "nat \<Rightarrow> bytes \<Rightarrow> (bytes \<times> nerror) \<times> bytes" where
  "bufio_Read m s = (if m > 0 \<and> s = [] then (([], Some EOF), []) else ((take m s, None), drop m s))"

definition body_Read :: "nat \<Rightarrow> body \<Rightarrow> bytes \<Rightarrow> (bytes \<times> nerror) \<times> body \<times> bytes" where
  "body_Read m b s =
     (if bd_i b \<ge> bd_l b then (([], Some EOF), b, s)
      else (let k = (if bd_i b + int m \<le> bd_l b then m else nat (bd_l b - bd_i b)) in
            case bufio_Read k s of ((d, e), t) \<Rightarrow> ((d, e), b\<lparr>bd_i := bd_i b + int (length d)\<rparr>, t)))"

text \<open>\<open>io.CopyN(ioutil.Discard, b, b.l-b.i)\<close> reads pieces of at most 8192 bytes until they are there.\<close>

function copy_discard :: "body \<Rightarrow> bytes \<Rightarrow> body \<times> bytes" where
  "copy_discard b s =
     (case body_Read 8192 b s of
        ((d, Some e), b1, t) \<Rightarrow> (b1, t)
      | ((d, None), b1, t) \<Rightarrow> if length t < length s then copy_discard b1 t else (b1, t))"
  by auto
termination by (relation "measure (\<lambda>(b, s). length s)") auto

declare copy_discard.simps [simp del]

definition body_Close :: "body \<Rightarrow> bytes \<Rightarrow> body \<times> bytes" where
  "body_Close b s =
     (if bd_l b \<le> 0 then (b, s) else if bd_i b \<ge> bd_l b then (b, s) else copy_discard b s)"

section \<open>Giving a request back\<close>

definition reqFreeHeader :: "(string \<Rightarrow> string) \<Rightarrow> http_header \<Rightarrow> http_header" where
  "reqFreeHeader canon h = foldl (\<lambda>m key. hdel m (canon key)) h (map fst h)"

text \<open>\<open>FreeRequest\<close>: what goes back to the header pool and, zeroed, to the body and request pools.\<close>

definition FreeRequest :: "(string \<Rightarrow> string) \<Rightarrow> 'u request \<Rightarrow> http_header \<times> body" where
  "FreeRequest canon r = (reqFreeHeader canon (Header r), \<lparr>bd_i = 0, bd_l = 0\<rparr>)"

section \<open>Rendering, and lines that come back\<close>

text \<open>Text without a space and without a line break.\<close>

definition word_ok :: "string \<Rightarrow> bool" where
  "word_ok w \<longleftrightarrow> list_all (\<lambda>c. c \<noteq> CHR '' '' \<and> c \<noteq> LF) w"

fun hdr_ok :: "string \<times> string list \<Rightarrow> bool" where
  "hdr_ok (k, vs) = (word_ok k \<and> list_all word_ok vs)"

definition spaced :: "string \<Rightarrow> string list \<Rightarrow> string" where
  "spaced w ws = w @ concat (map (\<lambda>v. CHR '' '' # v) ws)"

definition request_line :: "string \<Rightarrow> string \<Rightarrow> string \<Rightarrow> bytes" where
  "request_line m u p = spaced m [u, p] @ [CR, LF]"

fun header_text :: "string \<times> string list \<Rightarrow> bytes" where
  "header_text (k, vs) = spaced (k @ '':'') vs @ [CR, LF]"

definition render_headers :: "http_header \<Rightarrow> bytes" where
  "render_headers hs = concat (map header_text hs)"

definition render_request :: "string \<Rightarrow> string \<Rightarrow> string \<Rightarrow> http_header \<Rightarrow> bytes" where
  "render_request m u p hs = request_line m u p @ render_headers hs @ [CR, LF]"

lemma split_spaced_append:
  "word_ok w \<Longrightarrow> split_spaces (w @ s) = (w @ hd (split_spaces s)) # tl (split_spaces s)"
  by (induction w) (simp_all add: word_ok_def)

lemma split_word: "word_ok w \<Longrightarrow> split_spaces w = [w]"
  by (induction w) (simp_all add: word_ok_def)

lemma spaced_simps [simp]: "spaced w [] = w" "spaced w (v # vs) = w @ CHR '' '' # spaced v vs"
  by (simp_all add: spaced_def)

lemma split_spaced: "word_ok w \<Longrightarrow> list_all word_ok ws \<Longrightarrow> split_spaces (spaced w ws) = w # ws"
  by (induction ws arbitrary: w) (simp_all add: split_word split_spaced_append)

lemma word_no_LF: "word_ok w \<Longrightarrow> LF \<notin> set w"
  by (auto simp: word_ok_def list_all_iff)

lemma LF_not_space [simp]: "LF \<noteq> CHR '' ''" "LF \<noteq> CR"
  by (simp_all add: LF_def CR_def)

lemma spaced_no_LF: "word_ok w \<Longrightarrow> list_all word_ok ws \<Longrightarrow> LF \<notin> set (spaced w ws)"
  by (induction ws arbitrary: w) (simp_all add: word_no_LF)

lemma readLine_line: "LF \<notin> set l \<Longrightarrow> readLine (l @ CR # LF # s) = ((l, None), s)"
proof -
  assume l: "LF \<notin> set l"
  have "takeWhile (\<lambda>c. c \<noteq> LF) (l @ CR # LF # s) = l @ [CR]"
    using l by (subst takeWhile_append2) (auto simp: CR_def LF_def)
  then show ?thesis by (simp add: readLine_def)
qed

lemma read_header_line:
  assumes "hdr_ok (k, vs)"
  shows "read_headers h (header_text (k, vs) @ s) = read_headers (hset h k vs) s"
proof -
  have w: "word_ok (k @ '':'')" using assms by (simp add: word_ok_def LF_def)
  have "spaced (k @ '':'') vs \<noteq> []" by (cases vs) simp_all
  then show ?thesis
    using readLine_line [OF spaced_no_LF [OF w], of vs s] split_spaced [OF w, of vs] assms
    by (subst read_headers.simps) simp
qed

definition hset_all :: "http_header \<Rightarrow> http_header \<Rightarrow> http_header" where
  "hset_all h hs = foldl (\<lambda>m (k, vs). hset m k vs) h hs"

lemma hset_all_simps [simp]: "hset_all h [] = h" "hset_all h ((k, vs) # hs) = hset_all (hset h k vs) hs"
  by (simp_all add: hset_all_def)

lemma read_header_lines:
  "list_all hdr_ok hs \<Longrightarrow> read_headers h (render_headers hs @ s) = read_headers (hset_all h hs) s"
proof (induction hs arbitrary: h)
  case (Cons e hs)
  obtain k vs where e: "e = (k, vs)" by fastforce
  show ?case
    using Cons read_header_line [of k vs h "render_headers hs @ s"] by (simp add: e render_headers_def)
qed (simp add: render_headers_def)

lemma read_headers_end: "read_headers h (CR # LF # s) = Ret (Inr h, s)"
  using readLine_line [of "[]" s] by (subst read_headers.simps) simp

lemma read_request_line:
  assumes "word_ok m" "word_ok u" "word_ok p"
  shows "readLine (request_line m u p @ s) = ((spaced m [u, p], None), s)" "split_spaces (spaced m [u, p]) = [m, u, p]"
  using assms readLine_line [OF spaced_no_LF [of m "[u, p]"], of s] split_spaced [of m "[u, p]"]
  by (simp_all add: request_line_def)

lemma map_of_filter_other: "k \<noteq> key \<Longrightarrow> map_of (hdel h key) k = map_of h k"
  by (induction h) (auto simp: hdel_def)

lemma map_of_hdel_same: "map_of (hdel h key) key = None"
  by (induction h) (auto simp: hdel_def)

lemma map_of_hset: "map_of (hset h key vs) = (map_of h)(key \<mapsto> vs)"
proof
  fix k
  show "map_of (hset h key vs) k = ((map_of h)(key \<mapsto> vs)) k"
    by (cases "k = key") (simp_all add: hset_def map_add_def map_of_filter_other map_of_hdel_same split: option.split)
qed

lemma map_of_hset_all_other: "k \<notin> fst ` set hs \<Longrightarrow> map_of (hset_all h hs) k = map_of h k"
  by (induction hs arbitrary: h) (auto simp: map_of_hset)

lemma hset_all_append: "distinct (map fst (h @ hs)) \<Longrightarrow> hset_all h hs = h @ hs"
proof (induction hs arbitrary: h)
  case (Cons e hs)
  obtain k vs where e: "e = (k, vs)" by fastforce
  have "hdel h k = h"
    using Cons.prems by (auto simp: hdel_def e filter_id_conv image_iff)
  then show ?case
    using Cons.IH [of "h @ [(k, vs)]"] Cons.prems by (simp add: e hset_def)
qed simp

text \<open>What the reader makes of a rendered request, whatever the pool returned.\<close>

lemma ReadFastRequest_rendered:
  assumes "word_ok m" "word_ok u" "word_ok p" "urlParse u = Inr url" "list_all hdr_ok hs"
  shows "ReadFastRequest urlParse pooled (render_request m u p hs @ s) =
     make_request m url p (hset_all pooled hs) s"
  using read_request_line(1) [OF assms(1-3), of "render_headers hs @ [CR, LF] @ s"] read_request_line(2) [OF assms(1-3)] assms(4,5)
  by (simp add: ReadFastRequest_def render_request_def read_header_lines read_headers_end)

section \<open>Properties of the reader\<close>

text \<open>
  A request as a client sends it: method, target, protocol, header and body. It is well-formed for a
  URL parser when the first three are words and the target parses, every header is a name followed by
  words, the names differ, the host is not empty and the length in the header is that of the body.
\<close>

type_synonym sent_request = "string \<times> string \<times> string \<times> http_header \<times> bytes"

fun request_ok :: "(string \<Rightarrow> error + 'u) \<Rightarrow> sent_request \<Rightarrow> bool" where
  "request_ok urlParse (m, u, p, hs, d) \<longleftrightarrow>
     word_ok m \<and> word_ok u \<and> word_ok p \<and> (case urlParse u of Inl _ \<Rightarrow> False | Inr _ \<Rightarrow> True) \<and>
     list_all hdr_ok hs \<and> distinct (map fst hs) \<and> map_of hs ''Host'' \<noteq> Some [] \<and>
     (case map_of hs ''Content-Length'' of None \<Rightarrow> d = [] | Some [] \<Rightarrow> False
      | Some (v # _) \<Rightarrow> parse_int0 v = int (length d))"

fun request_bytes :: "sent_request \<Rightarrow> bytes" where
  "request_bytes (m, u, p, hs, d) = render_request m u p hs @ d"

fun request_view :: "(string \<Rightarrow> error + 'u) \<Rightarrow> sent_request \<Rightarrow> 'u request" where
  "request_view urlParse (m, u, p, hs, d) =
     \<lparr>Method = m, URL = projr (urlParse u), Proto = p, Header = hs, Host = hget hs ''Host'',
      ContentLength = int (length d), Body = \<lparr>bd_i = 0, bd_l = int (length d)\<rparr>\<rparr>"

text \<open>A server that reads a request and closes its body.\<close>

definition read_one :: "(string \<Rightarrow> error + 'u) \<Rightarrow> bytes \<Rightarrow> ('u request \<times> bytes) option" where
  "read_one urlParse s =
     (case ReadFastRequest urlParse [] s of
        Ret (Inr r, t) \<Rightarrow> Some (r, snd (body_Close (Body r) t))
      | _ \<Rightarrow> None)"

text \<open>A URL parser for examples.\<close>

definition demo_url :: "string \<Rightarrow> error + string" where
  "demo_url u = (if u = [] then Inl (NewError ''parse'') else Inr u)"

text \<open>
  Two malformed headers make the fast reader panic: a header line that begins with a space, and a
  \<open>Host\<close> header without a value, whatever comes before and after them.
\<close>

lemma malformed_header_panics:
  assumes "word_ok m" "word_ok u" "word_ok p" "urlParse u = Inr url" "list_all hdr_ok hs"
  shows "(LF \<notin> set x \<longrightarrow>
     ReadFastRequest urlParse pooled (request_line m u p @ render_headers hs @ '' '' @ x @ [CR, LF] @ s) = Panic) \<and>
     (map_of (hset_all pooled hs) ''Host'' = Some [] \<longrightarrow>
     ReadFastRequest urlParse pooled (render_request m u p hs @ s) = Panic)"
proof (intro conjI impI)
  assume x: "LF \<notin> set x"
  have l: "readLine (CHR '' '' # x @ CR # LF # s) = ((CHR '' '' # x, None), s)"
    using readLine_line [of "CHR '' '' # x" s] x by simp
  have "read_headers h (CHR '' '' # x @ CR # LF # s) = Panic" for h
    by (subst read_headers.simps) (simp add: l)
  then show "ReadFastRequest urlParse pooled (request_line m u p @ render_headers hs @ '' '' @ x @ [CR, LF] @ s) = Panic"
    using read_request_line(1) [OF assms(1-3), of "render_headers hs @ '' '' @ x @ [CR, LF] @ s"]
      read_request_line(2) [OF assms(1-3)] assms(4,5)
    by (simp add: ReadFastRequest_def read_header_lines)
next
  assume "map_of (hset_all pooled hs) ''Host'' = Some []"
  then show "ReadFastRequest urlParse pooled (render_request m u p hs @ s) = Panic"
    unfolding ReadFastRequest_rendered [where urlParse = urlParse, OF assms] by (simp add: make_request_def first_value_def)
qed

theorem malformed_header_panics_witness:
  "ReadFastRequest demo_url [] (request_line ''GET'' ''/'' ''HTTP/1.1'' @ render_headers [] @ '' '' @ ''folded'' @ [CR, LF] @ []) = Panic \<and>
   ReadFastRequest demo_url [] (render_request ''GET'' ''/'' ''HTTP/1.1'' [(''Host'', [])] @ []) = Panic"
proof -
  have w: "word_ok ''GET''" "word_ok ''/''" "word_ok ''HTTP/1.1''" by code_simp+
  have h: "list_all hdr_ok []" "list_all hdr_ok [(''Host'', [])]" by code_simp+
  have x: "LF \<notin> set ''folded''" by code_simp
  have m: "map_of (hset_all [] [(''Host'', [])]) ''Host'' = Some []" by (simp add: map_of_hset)
  have u: "demo_url ''/'' = Inr ''/''" by (simp add: demo_url_def)
  show ?thesis
    using malformed_header_panics [where urlParse = demo_url, OF w u h(1), of "''folded''" "[]" "[]"] x
      malformed_header_panics [where urlParse = demo_url, OF w u h(2), of "''folded''" "[]" "[]"] m by blast
qed

subsection \<open>Reading the body\<close>

text \<open>Reads of the given sizes, whose data are put together.\<close>

fun body_reads :: "nat list \<Rightarrow> body \<Rightarrow> bytes \<Rightarrow> bytes \<times> body \<times> bytes" where
  "body_reads [] b s = ([], b, s)"
| "body_reads (m # ms) b s =
     (case body_Read m b s of ((d, e), b1, t) \<Rightarrow>
        (case body_reads ms b1 t of (ds, b2, u) \<Rightarrow> (d @ ds, b2, u)))"

text \<open>How far a body has been read: \<open>k\<close> bytes of \<open>s\<close>, never beyond the content length.\<close>

definition read_upto :: "int \<Rightarrow> bytes \<Rightarrow> nat \<Rightarrow> body \<Rightarrow> bytes \<Rightarrow> bool" where
  "read_upto l s k b t \<longleftrightarrow> b = \<lparr>bd_i = int k, bd_l = l\<rparr> \<and> t = drop k s \<and> k \<le> length s \<and> int k \<le> max 0 l"

lemma body_Read_upto:
  assumes "read_upto l s k b t" "body_Read m b t = ((d, e), b1, u)"
  shows "\<exists>j. read_upto l s (k + j) b1 u \<and> d = take j t \<and> (e = None \<and> m > 0 \<and> int k < l \<longrightarrow> j > 0)"
proof (cases "int k < l \<and> t \<noteq> []")
  case False
  then show ?thesis
    using assms by (intro exI [of _ 0]) (auto simp: read_upto_def body_Read_def bufio_Read_def Let_def split: if_splits)
next
  case True
  define n where "n = (if int k + int m \<le> l then m else nat (l - int k))"
  define j where "j = min n (length t)"
  have t: "t = drop k s" "b = \<lparr>bd_i = int k, bd_l = l\<rparr>" and k: "k \<le> length s"
    using assms(1) by (simp_all add: read_upto_def)
  have "((d, e), b1, u) = ((take n t, None), b\<lparr>bd_i := int k + int (length (take n t))\<rparr>, drop n t)"
    using assms(2) True t by (auto simp: body_Read_def bufio_Read_def n_def Let_def split: if_splits)
  then have r: "d = take j t" "b1 = \<lparr>bd_i = int (k + j), bd_l = l\<rparr>" "u = drop (k + j) s"
    using t by (auto simp: j_def min_def add.commute)
  have "int (k + j) \<le> l" using True by (auto simp: j_def n_def min_def)
  moreover have "k + j \<le> length s" using t k by (auto simp: j_def min_def)
  moreover have "m > 0 \<longrightarrow> j > 0" using True by (auto simp: j_def n_def)
  ultimately show ?thesis using r by (intro exI [of _ j]) (auto simp: read_upto_def)
qed

lemma body_reads_upto:
  "read_upto l s k b t \<Longrightarrow> body_reads ms b t = (d, b1, u) \<Longrightarrow>
     \<exists>j. read_upto l s (k + j) b1 u \<and> d = take j t"
proof (induction ms arbitrary: k b t d)
  case Nil
  then show ?case by (intro exI [of _ 0]) auto
next
  case (Cons m ms)
  obtain d0 e b0 t0 where r: "body_Read m b t = ((d0, e), b0, t0)" by (metis prod.exhaust)
  obtain ds where d: "body_reads ms b0 t0 = (ds, b1, u)" "d = d0 @ ds"
    using Cons.prems(2) r by (auto split: prod.splits)
  obtain i where i: "read_upto l s (k + i) b0 t0" "d0 = take i t"
    using body_Read_upto [OF Cons.prems(1) r] by blast
  obtain j where j: "read_upto l s (k + i + j) b1 u" "ds = take j t0"
    using Cons.IH [OF i(1) d(1)] by blast
  have "t0 = drop i t" using i(1) Cons.prems(1) by (simp add: read_upto_def add.commute)
  then show ?case using i j d by (intro exI [of _ "i + j"]) (simp add: take_add add.assoc)
qed

lemma copy_discard_upto:
  "read_upto l s k b t \<Longrightarrow> int k \<le> l \<Longrightarrow> snd (copy_discard b t) = drop (nat l) s"
proof (induction b t arbitrary: k rule: copy_discard.induct)
  case (1 b t)
  obtain d e b1 u where r: "body_Read 8192 b t = ((d, e), b1, u)" by (metis prod.exhaust)
  obtain j where j: "read_upto l s (k + j) b1 u" "d = take j t" "e = None \<and> int k < l \<longrightarrow> j > 0"
    using body_Read_upto [OF "1.prems"(1) r] by auto
  have t: "t = drop k s" "b = \<lparr>bd_i = int k, bd_l = l\<rparr>" "k \<le> length s" using "1.prems"(1) by (simp_all add: read_upto_def)
  have kj: "int (k + j) \<le> l" using j(1) "1.prems"(2) by (auto simp: read_upto_def)
  show ?case
  proof (cases e)
    case (Some x)
    have "int k = l \<or> t = []"
      using r Some t "1.prems"(2) by (auto simp: body_Read_def bufio_Read_def Let_def split: if_splits)
    moreover have "u = t" if "int k = l" using r t that by (auto simp: body_Read_def)
    moreover have "u = []" if "t = []" using j(1) t that by (simp add: read_upto_def)
    ultimately show ?thesis
      using r Some t "1.prems"(2) by (subst copy_discard.simps) auto
  next
    case None
    then have "j > 0" using j(3) r t by (auto simp: body_Read_def split: if_splits)
    then have "length u < length t \<or> t = []" using j(1) t by (auto simp: read_upto_def)
    moreover have "\<not> t = []" using None r t by (auto simp: body_Read_def bufio_Read_def Let_def split: if_splits)
    ultimately show ?thesis
      using "1.IH" [OF r [symmetric] refl None] j(1) kj r None by (subst copy_discard.simps) simp
  qed
qed

lemma body_reads_and_close:
  assumes "body_reads ms \<lparr>bd_i = 0, bd_l = l\<rparr> s = (d, b, t)"
  shows "\<exists>k. d = take k s \<and> t = drop k s \<and> int k \<le> max 0 l" "snd (body_Close b t) = drop (nat l) s"
proof -
  have "read_upto l s 0 \<lparr>bd_i = 0, bd_l = l\<rparr> s" by (simp add: read_upto_def)
  from body_reads_upto [OF this assms] obtain k where k: "read_upto l s k b t" "d = take k s" by auto
  then show "\<exists>k. d = take k s \<and> t = drop k s \<and> int k \<le> max 0 l" by (auto simp: read_upto_def)
  show "snd (body_Close b t) = drop (nat l) s"
    using k(1) copy_discard_upto [OF k(1)] by (auto simp: body_Close_def read_upto_def)
qed

text \<open>
  C37. The body ends where the next request begins: whatever sizes a handler reads the body in, it gets
  a prefix of the input that is never longer than the content length, and after \<open>Close\<close> exactly the
  bytes of the body have been consumed, so that a pipelined request starts at its first byte.
\<close>

theorem body_ends_at_content_length:
  assumes "body_reads ms \<lparr>bd_i = 0, bd_l = l\<rparr> s = (d, b, t)"
  shows "\<exists>k. d = take k s \<and> t = drop k s \<and> int k \<le> max 0 l \<and> snd (body_Close b t) = drop (nat l) s"
  using body_reads_and_close [OF assms] by blast

theorem body_ends_at_content_length_witness:
  "\<exists>k. ''ab'' = take k ''abcGET'' \<and> ''cGET'' = drop k ''abcGET'' \<and> int k \<le> max 0 3 \<and>
     snd (body_Close \<lparr>bd_i = 2, bd_l = 3\<rparr> ''cGET'') = drop (nat 3) ''abcGET''"
  using body_ends_at_content_length [of "[1, 1]" 3 "''abcGET''" "''ab''" "\<lparr>bd_i = 2, bd_l = 3\<rparr>" "''cGET''"]
  by (simp add: body_Read_def bufio_Read_def)

subsection \<open>Requests one behind the other\<close>

interpretation rq: codec "request_ok urlParse" request_bytes "read_one urlParse" "request_view urlParse" for urlParse
proof
  fix x s
  assume ok: "request_ok urlParse x"
  obtain m u p hs d where x: "x = (m, u, p, hs, d)" by (metis prod.exhaust)
  obtain url where url: "urlParse u = Inr url" using ok by (auto simp: x split: sum.splits)
  have h: "hset_all [] hs = hs" using ok hset_all_append [of "[]" hs] by (simp add: x)
  have "ReadFastRequest urlParse [] (request_bytes x @ s) = make_request m url p hs (d @ s)"
    using ReadFastRequest_rendered [where urlParse = urlParse, OF _ _ _ url, of m p hs "[]" "d @ s"] ok
    by (simp add: x h)
  also have "\<dots> = Ret (Inr (request_view urlParse x), d @ s)"
  proof -
    have "\<exists>hv. first_value hs ''Host'' = Ret hv \<and> (case hv of None \<Rightarrow> [] | Some v \<Rightarrow> v) = hget hs ''Host''"
      using ok by (cases "map_of hs ''Host''"; cases "the (map_of hs ''Host'')") (simp_all add: x first_value_def hget_def)
    moreover have "\<exists>cv. first_value hs ''Content-Length'' = Ret cv \<and>
        (case cv of None \<Rightarrow> 0 | Some v \<Rightarrow> parse_int0 v) = int (length d)"
      using ok by (cases "map_of hs ''Content-Length''"; cases "the (map_of hs ''Content-Length'')") (simp_all add: x first_value_def)
    ultimately show ?thesis using url by (auto simp: x make_request_def Let_def)
  qed
  finally show "read_one urlParse (request_bytes x @ s) = Some (request_view urlParse x, s)"
    using body_reads_and_close(2) [of "[]" "int (length d)" "d @ s"] by (simp add: read_one_def x)
qed



subsection \<open>The header pool\<close>

lemma hdel_all: "foldl (\<lambda>m key. hdel m (canon key)) h ks = filter (\<lambda>(k, _). k \<notin> canon ` set ks) h"
  by (induction ks arbitrary: h) (auto simp: hdel_def intro!: filter_cong)

lemma reqFreeHeader_filter: "reqFreeHeader canon h = filter (\<lambda>(k, _). k \<notin> canon ` fst ` set h) h"
  by (simp add: reqFreeHeader_def hdel_all image_image)

lemma reqFreeHeader_clean:
  assumes "\<And>k. k \<in> fst ` set h \<Longrightarrow> canon k = k"
  shows "reqFreeHeader canon h = []"
  using assms by (force simp: reqFreeHeader_filter filter_empty_conv image_iff)

lemma map_of_filter_keys: "P k \<Longrightarrow> map_of (filter (\<lambda>(k, _). P k) h) k = map_of h k"
  by (induction h) auto

text \<open>
  Headers of one client show up in the request of another: a header that a client has sent under a
  name that is not in canonical form survives \<open>FreeRequest\<close>, which deletes the canonical form, and is
  in the header of the next request that gets the map from the pool, unless that request sets it.
\<close>

lemma foreign_headers_leak:
  assumes "map_of (Header r1) k = Some vs" "k \<notin> canon ` fst ` set (Header r1)"
    and "word_ok m" "word_ok u" "word_ok p" "urlParse u = Inr url" "list_all hdr_ok hs" "k \<notin> fst ` set hs"
    and "ReadFastRequest urlParse (fst (FreeRequest canon r1)) (render_request m u p hs @ s) = Ret (Inr r2, t)"
  shows "map_of (Header r2) k = Some vs"
proof -
  let ?h = "hset_all (reqFreeHeader canon (Header r1)) hs"
  have "make_request m url p ?h s = Ret (Inr r2, t)"
    using ReadFastRequest_rendered [where urlParse = urlParse, OF assms(3-7)] assms(9) by (simp add: FreeRequest_def)
  then have "Header r2 = ?h"
    by (auto simp: make_request_def go_bind_eq_Ret Let_def)
  moreover have "map_of ?h k = map_of (reqFreeHeader canon (Header r1)) k"
    by (rule map_of_hset_all_other [OF assms(8)])
  moreover have "\<dots> = Some vs"
    unfolding reqFreeHeader_filter
    using map_of_filter_keys [of "\<lambda>k. k \<notin> canon ` fst ` set (Header r1)" k "Header r1"] assms(1,2) by simp
  ultimately show ?thesis by simp
qed

definition demo_canon :: "string \<Rightarrow> string" where
  "demo_canon k = (if k = ''x-token'' then ''X-Token'' else k)"

definition demo_request :: "http_header \<Rightarrow> string request" where
  "demo_request h =
     \<lparr>Method = ''GET'', URL = ''/'', Proto = ''HTTP/1.1'', Header = h, Host = [], ContentLength = 0,
      Body = \<lparr>bd_i = 0, bd_l = 0\<rparr>\<rparr>"

theorem foreign_headers_leak_witness:
  "\<exists>r2. ReadFastRequest demo_url (fst (FreeRequest demo_canon (demo_request [(''x-token'', [''secret''])])))
        (render_request ''POST'' ''/'' ''HTTP/1.1'' [] @ []) = Ret (Inr r2, []) \<and>
     map_of (Header r2) ''x-token'' = Some [''secret'']"
proof -
  let ?r1 = "demo_request [(''x-token'', [''secret''])]"
  have w: "word_ok ''POST''" "word_ok ''/''" "word_ok ''HTTP/1.1''" by code_simp+
  have u: "demo_url ''/'' = Inr ''/''" by (simp add: demo_url_def)
  have h: "list_all hdr_ok []" by simp
  have f: "reqFreeHeader demo_canon [(''x-token'', [''secret''])] = [(''x-token'', [''secret''])]" by code_simp
  have m: "map_of (Header ?r1) ''x-token'' = Some [''secret'']" "''x-token'' \<notin> demo_canon ` fst ` set (Header ?r1)"
    by (simp_all add: demo_request_def demo_canon_def)
  let ?r2 = "?r1\<lparr>Method := ''POST''\<rparr>"
  have r: "ReadFastRequest demo_url (fst (FreeRequest demo_canon ?r1)) (render_request ''POST'' ''/'' ''HTTP/1.1'' [] @ []) =
      Ret (Inr ?r2, [])"
    unfolding ReadFastRequest_rendered [where urlParse = demo_url, OF w u h]
    by (simp add: FreeRequest_def demo_request_def f make_request_def first_value_def)
  have n: "''x-token'' \<notin> fst ` set ([] :: http_header)" by simp
  have "map_of (Header ?r2) ''x-token'' = Some [''secret'']"
    by (rule foreign_headers_leak [where urlParse = demo_url, OF m w u h n r])
  with r show ?thesis by blast
qed

subsection \<open>Requests in several pieces\<close>

text \<open>
  A request that has not arrived completely is thrown away: when the input ends in the header, in
  the middle of a line or between two lines, the reader has consumed everything and returns \<open>EOF\<close>, so
  that what arrives next is read as the beginning of a request.
\<close>

lemma incomplete_request_is_lost:
  assumes "word_ok m" "word_ok u" "word_ok p" "urlParse u = Inr url" "list_all hdr_ok hs"
    and "LF \<notin> set x" "x = [] \<or> hd x \<noteq> CHR '' ''"
  shows "ReadFastRequest urlParse pooled (request_line m u p @ render_headers hs @ x) = Ret (Inl EOF, [])"
proof -
  have e: "read_headers h [] = Ret (Inl EOF, [])" for h
    by (subst read_headers.simps) (simp add: readLine_def)
  have "read_headers h x = Ret (Inl EOF, [])" for h
  proof (cases x)
    case Nil
    then show ?thesis by (simp add: e)
  next
    case (Cons c y)
    have "takeWhile (\<lambda>c. c \<noteq> LF) x = x" using assms(6) by (auto simp: takeWhile_eq_all_conv)
    then have "readLine x = ((x, None), [])" using Cons by (simp add: readLine_def)
    then show ?thesis
      using Cons assms(7) by (subst read_headers.simps) (simp add: e)
  qed
  then show ?thesis
    using read_request_line(1) [OF assms(1-3), of "render_headers hs @ x"] read_request_line(2) [OF assms(1-3)] assms(4,5)
    by (simp add: ReadFastRequest_def read_header_lines)
qed

theorem incomplete_request_is_lost_witness:
  "ReadFastRequest demo_url [] (request_line ''GET'' ''/'' ''HTTP/1.1'' @ render_headers [(''Host'', [''h''])] @ ''Accept: tex'') =
     Ret (Inl EOF, [])"
proof -
  have w: "word_ok ''GET''" "word_ok ''/''" "word_ok ''HTTP/1.1''" by code_simp+
  have u: "demo_url ''/'' = Inr ''/''" by (simp add: demo_url_def)
  have h: "list_all hdr_ok [(''Host'', [''h''])]" by code_simp
  have x: "LF \<notin> set ''Accept: tex''" by code_simp
  show ?thesis
    by (rule incomplete_request_is_lost [where urlParse = demo_url, OF w u h x]) simp
qed

end
