(* ===== verification/HttpServer.thy ===== *)
theory HttpServer
  imports HttpFraming HttpRequest Utils
begin

text \<open>
  The HTTP server: the event handler of \<open>gkhttp/http_server.go\<close>, which composes the request reader,
  the application's handler and the response writer, the operations of \<open>Server\<close> and those of the gin
  adapter in \<open>gkhttp/gkgin.go\<close>. The options of servers are objects with an address, because servers
  without options share one of them.
\<close>

section \<open>The event handler\<close>

text \<open>
  The connection as the handler of an event sees it: the input that can be read and the output so far;
  the header map that goes back to the request pool.
\<close>

record track =
  tr_in :: bytes
  tr_out :: bytes
  tr_freed :: "http_header option"

text \<open>What a call of \<open>ServeHTTP\<close> works on: the request, its unread input and the response.\<close>

type_synonym 'u http_call = "'u request \<times> bytes \<times> response"

text \<open>
  The surroundings of \<open>OnTrack\<close>: the tables of package net/http, the URL parser, its request reader
  and the body it makes, canonical header names, the application and what the three pools return.
\<close>

record 'u track_env =
  te_http :: http_env
  te_urlParse :: "string \<Rightarrow> error + 'u"
  te_netRead :: "bytes \<Rightarrow> (error + 'u request) \<times> bytes"
  te_netClose :: "body \<Rightarrow> bytes \<Rightarrow> body \<times> bytes"
  te_handler :: "('u http_call \<Rightarrow> 'u http_call go) option"
  te_doFast :: bool
  te_reqHeader :: http_header
  te_resHeader :: http_header
  te_buffer :: bytes

definition read_request :: "'u track_env \<Rightarrow> bytes \<Rightarrow> ((error + 'u request) \<times> bytes) go" where
  "read_request E s =
     (if te_doFast E then ReadFastRequest (te_urlParse E) (te_reqHeader E) s else Ret (te_netRead E s))"

text \<open>\<open>FinishRequest\<close> closes the body, unless the response has been finished before.\<close>

definition finish_call :: "'u track_env \<Rightarrow> 'u http_call \<Rightarrow> 'u http_call go" where
  "finish_call E = (\<lambda>(req, s, res).
     go_bind (resp_FinishRequest (te_http E) res) (\<lambda>res1.
       if handlerDone res then Ret (req, s, res1)
       else (case (if te_doFast E then body_Close (Body req) s else te_netClose E (Body req) s) of
               (b, t) \<Rightarrow> Ret (req\<lparr>Body := b\<rparr>, t, res1))))"

definition OnTrack :: "'u track_env \<Rightarrow> track \<Rightarrow> (nerror \<times> track) go" where
  "OnTrack E c =
     (case te_handler E of
        None \<Rightarrow> Ret (Some (NewError ''[HttpServer] no handler was found!''), c)
      | Some serveHTTP \<Rightarrow>
          go_bind (read_request E (tr_in c)) (\<lambda>(r, s).
            case r of
              Inl e \<Rightarrow> Ret (Some e, c\<lparr>tr_in := s\<rparr>)
            | Inr req \<Rightarrow>
                go_bind (serveHTTP (req, s, NewResponse (Method req) (te_buffer E) (te_resHeader E))) (\<lambda>call.
                go_bind (finish_call E call) (\<lambda>(req1, t, res).
                  Ret (None, c\<lparr>tr_in := t, tr_out := tr_out c @ rw_out res,
                       tr_freed := (if te_doFast E then Some (fst (FreeRequest (canonical (te_http E)) req1)) else tr_freed c)\<rparr>)))))"

text \<open>The other methods of the handler do nothing.\<close>

definition gk_OnAccept :: nerror where "gk_OnAccept = None"
definition gk_OnOpen :: "bytes option \<times> nerror" where "gk_OnOpen = (None, None)"
definition gk_OnClose :: nerror where "gk_OnClose = None"

section \<open>Servers\<close>

record tls_config =
  NextProtos :: "string list"
  Certificates :: "string list"
  GetCertificate :: bool

text \<open>
  \<open>Opts\<close> embeds a pointer to the engine's options, which may be nil; of these the server uses the TLS
  configuration.
\<close>

record http_opts =
  o_Options :: "tls_config option option"
  DoFast :: bool

type_synonym opts_heap = "nat \<Rightarrow> http_opts"

definition nullOpts :: nat where "nullOpts = 0"

record server =
  sv_handler :: bool
  sv_listener :: "GkListener option"
  sv_options :: "nat option"

text \<open>The network, the certificate store, \<open>engine.Serve\<close> with its listener and options, and \<open>engine.Stop\<close>.\<close>

record server_env =
  se_listen :: "string \<Rightarrow> string \<Rightarrow> error + GkListener"
  se_loadX509 :: "string \<Rightarrow> string \<Rightarrow> error + string"
  se_engine :: "GkListener option \<Rightarrow> tls_config option \<Rightarrow> nerror go"
  se_stop :: "unit go"

definition NewHttpServer :: "bool \<Rightarrow> nat option list \<Rightarrow> server" where
  "NewHttpServer handler opts =
     \<lparr>sv_handler = handler, sv_listener = None,
      sv_options = (if opts \<noteq> [] \<and> hd opts \<noteq> None then hd opts else Some nullOpts)\<rparr>"

definition sv_Listen :: "server_env \<Rightarrow> string \<Rightarrow> string \<Rightarrow> server \<Rightarrow> nerror \<times> server" where
  "sv_Listen E network address sv =
     (case se_listen E network address of
        Inl e \<Rightarrow> (Some e, sv\<lparr>sv_listener := None\<rparr>)
      | Inr l \<Rightarrow> (None, sv\<lparr>sv_listener := Some l\<rparr>))"

definition sv_Close :: "server_env \<Rightarrow> server \<Rightarrow> unit go" where
  "sv_Close E sv = se_stop E"

definition AdoptOneListener :: "netlistener \<Rightarrow> server \<Rightarrow> nerror \<times> server" where
  "AdoptOneListener ln sv =
     (case AdaptListener ln of
        Inl e \<Rightarrow> (Some e, sv\<lparr>sv_listener := None\<rparr>)
      | Inr l \<Rightarrow> (None, sv\<lparr>sv_listener := Some l\<rparr>))"

definition defaultNetwork :: string where "defaultNetwork = ''tcp''"
definition defaultAddr :: string where "defaultAddr = ''127.0.0.1:8081''"

text \<open>\<open>Serve\<close> drops the error of the default \<open>Listen\<close>. The engine reads its options through the pointer.\<close>

definition sv_Serve :: "server_env \<Rightarrow> opts_heap \<Rightarrow> server \<Rightarrow> (nerror \<times> server) go" where
  "sv_Serve E H sv =
     (let sv1 = (if sv_listener sv = None then snd (sv_Listen E defaultNetwork defaultAddr sv) else sv);
          sv2 = (if sv_options sv1 = None then sv1\<lparr>sv_options := Some nullOpts\<rparr> else sv1) in
      case o_Options (H (the (sv_options sv2))) of
        None \<Rightarrow> Panic
      | Some tls \<Rightarrow> go_bind (se_engine E (sv_listener sv2) tls) (\<lambda>e. Ret (e, sv2)))"

definition set_tls :: "nat \<Rightarrow> tls_config \<Rightarrow> opts_heap \<Rightarrow> opts_heap" where
  "set_tls a c H = H(a := (H a)\<lparr>o_Options := Some (Some c)\<rparr>)"

definition ServeTLS :: "server_env \<Rightarrow> string \<Rightarrow> string \<Rightarrow> opts_heap \<Rightarrow> server \<Rightarrow> (nerror \<times> opts_heap \<times> server) go" where
  "ServeTLS E certFile keyFile H sv =
     (case sv_options sv of
        None \<Rightarrow> Panic
      | Some a \<Rightarrow>
          (case o_Options (H a) of
             None \<Rightarrow> Panic
           | Some tls \<Rightarrow>
               (let config = (case tls of None \<Rightarrow> \<lparr>NextProtos = [], Certificates = [], GetCertificate = False\<rparr> | Some c \<Rightarrow> c);
                    config1 = (if \<not> StrSliceContains (NextProtos config) ''http/1.1''
                               then config\<lparr>NextProtos := NextProtos config @ [''http/1.1'']\<rparr> else config);
                    hasCert = (Certificates config1 \<noteq> [] \<or> GetCertificate config1) in
                if \<not> hasCert \<or> certFile \<noteq> [] \<or> keyFile \<noteq> []
                then (case se_loadX509 E certFile keyFile of
                        Inl e \<Rightarrow> Ret (Some e, set_tls a (config1\<lparr>Certificates := [[]]\<rparr>) H, sv)
                      | Inr cert \<Rightarrow>
                          (let H1 = set_tls a (config1\<lparr>Certificates := [cert]\<rparr>) H in
                           go_bind (sv_Serve E H1 sv) (\<lambda>(e, sv1). Ret (e, H1, sv1))))
                else (let H1 = set_tls a config1 H in
                      go_bind (sv_Serve E H1 sv) (\<lambda>(e, sv1). Ret (e, H1, sv1))))))"

definition ListenAndServe :: "server_env \<Rightarrow> string \<Rightarrow> string \<Rightarrow> string list \<Rightarrow> opts_heap \<Rightarrow> server \<Rightarrow>
    (nerror \<times> opts_heap \<times> server) go" where
  "ListenAndServe E network address certs H sv =
     (case sv_Listen E network address sv of
        (Some e, sv1) \<Rightarrow> Ret (Some e, H, sv1)
      | (None, sv1) \<Rightarrow>
          if length certs > 1 then ServeTLS E (certs ! 0) (certs ! 1) H sv1
          else go_bind (sv_Serve E H sv1) (\<lambda>(e, sv2). Ret (e, H, sv2)))"

section \<open>The gin adapter\<close>

record gkgin =
  g_Server :: "server option"
  g_options :: "nat option"

definition NewGin :: "nat option list \<Rightarrow> gkgin" where
  "NewGin opts = \<lparr>g_Server = None, g_options = (if opts \<noteq> [] then hd opts else None)\<rparr>"

definition SetOptions :: "nat option \<Rightarrow> gkgin \<Rightarrow> gkgin" where
  "SetOptions o1 g = g\<lparr>g_options := o1\<rparr>"

definition initServer :: "gkgin \<Rightarrow> gkgin" where
  "initServer g = (case g_Server g of None \<Rightarrow> g\<lparr>g_Server := Some (NewHttpServer True [g_options g])\<rparr> | Some _ \<Rightarrow> g)"

definition gin_Close :: "server_env \<Rightarrow> gkgin \<Rightarrow> unit go" where
  "gin_Close E g = (case g_Server g of None \<Rightarrow> Ret () | Some sv \<Rightarrow> sv_Close E sv)"

text \<open>A method call on the server pointer; the methods of a nil server dereference it.\<close>

definition on_server :: "(server \<Rightarrow> ('r \<times> server) go) \<Rightarrow> gkgin \<Rightarrow> ('r \<times> gkgin) go" where
  "on_server f g =
     (case g_Server g of None \<Rightarrow> Panic | Some sv \<Rightarrow> go_bind (f sv) (\<lambda>(r, sv1). Ret (r, g\<lparr>g_Server := Some sv1\<rparr>)))"

definition gin_Listen :: "server_env \<Rightarrow> string \<Rightarrow> string \<Rightarrow> gkgin \<Rightarrow> (nerror \<times> gkgin) go" where
  "gin_Listen E network address g = on_server (\<lambda>sv. Ret (sv_Listen E network address sv)) (initServer g)"

definition gin_AdoptOneListener :: "netlistener \<Rightarrow> gkgin \<Rightarrow> (nerror \<times> gkgin) go" where
  "gin_AdoptOneListener ln g = on_server (\<lambda>sv. Ret (AdoptOneListener ln sv)) (initServer g)"

definition gin_listen :: "server_env \<Rightarrow> string list \<Rightarrow> gkgin \<Rightarrow> (nerror \<times> gkgin) go" where
  "gin_listen E addr g =
     (case addr of
        [] \<Rightarrow> Ret (None, g)
      | a # _ \<Rightarrow> gin_Listen E (if 5 \<le> length a \<and> drop (length a - 5) a = ''.sock'' then ''unix'' else ''tcp'') a g)"

definition tls_call :: "server_env \<Rightarrow> string \<Rightarrow> string \<Rightarrow> opts_heap \<Rightarrow> server \<Rightarrow> ((nerror \<times> opts_heap) \<times> server) go" where
  "tls_call E certFile keyFile H sv =
     go_bind (ServeTLS E certFile keyFile H sv) (\<lambda>(e, H1, sv1). Ret ((e, H1), sv1))"

definition gin_Serve :: "server_env \<Rightarrow> opts_heap \<Rightarrow> gkgin \<Rightarrow> (nerror \<times> gkgin) go" where
  "gin_Serve E H g = on_server (sv_Serve E H) (initServer g)"

definition gin_ServeTLS :: "server_env \<Rightarrow> string \<Rightarrow> string \<Rightarrow> opts_heap \<Rightarrow> gkgin \<Rightarrow> ((nerror \<times> opts_heap) \<times> gkgin) go" where
  "gin_ServeTLS E certFile keyFile H g = on_server (tls_call E certFile keyFile H) (initServer g)"

definition gin_RunTLS :: "server_env \<Rightarrow> string \<Rightarrow> string \<Rightarrow> string \<Rightarrow> opts_heap \<Rightarrow> gkgin \<Rightarrow> ((nerror \<times> opts_heap) \<times> gkgin) go" where
  "gin_RunTLS E addr certFile keyFile H g =
     go_bind (gin_listen E [addr] g) (\<lambda>(e, g1).
       case e of Some x \<Rightarrow> Ret ((Some x, H), g1) | None \<Rightarrow> on_server (tls_call E certFile keyFile H) g1)"

definition gin_RunListener :: "server_env \<Rightarrow> netlistener \<Rightarrow> opts_heap \<Rightarrow> gkgin \<Rightarrow> (nerror \<times> gkgin) go" where
  "gin_RunListener E ln H g =
     go_bind (gin_AdoptOneListener ln g) (\<lambda>(e, g1).
       case e of Some x \<Rightarrow> Ret (Some x, g1) | None \<Rightarrow> on_server (sv_Serve E H) g1)"

definition gin_Run :: "server_env \<Rightarrow> string list \<Rightarrow> opts_heap \<Rightarrow> gkgin \<Rightarrow> (nerror \<times> gkgin) go" where
  "gin_Run E addr H g =
     go_bind (gin_listen E addr g) (\<lambda>(e, g1).
       case e of Some x \<Rightarrow> Ret (Some x, g1) | None \<Rightarrow> on_server (sv_Serve E H) g1)"

section \<open>Properties\<close>

text \<open>A handler that reads its body in the given pieces and then writes the given pieces.\<close>

definition io_handler :: "http_env \<Rightarrow> nat list \<Rightarrow> bytes list \<Rightarrow> 'u http_call \<Rightarrow> 'u http_call go" where
  "io_handler H ms ds = (\<lambda>(req, s, res).
     case body_reads ms (Body req) s of
       (d, b, t) \<Rightarrow> go_bind (resp_writes H ds res) (\<lambda>res1. Ret (req\<lparr>Body := b\<rparr>, t, res1)))"

text \<open>
  One event, one request, one response: the server has a handler that reads the body in any pieces
  and writes an answer that fits into the buffer, and the input begins with a well-formed request of
  the fast format whose \<open>Content-Length\<close> is the length of its body. \<open>OnTrack\<close> then returns nil, the
  output grows by exactly the head and the body of the answer, and exactly the request and its body are
  consumed: a second request that has arrived with the first one stays unread until the next event.
\<close>

lemma one_request_per_event:
  assumes "te_doFast E" "te_reqHeader E = []" "te_handler E = Some (io_handler (te_http E) ms ds)"
    and "word_ok m" "word_ok u" "word_ok p" "te_urlParse E u = Inr url" "list_all hdr_ok hs" "distinct (map fst hs)"
    and "first_value hs ''Host'' = Ret hv" "first_value hs ''Content-Length'' = Ret (Some cv)"
    and "parse_int0 cv = int (length body)" "m \<noteq> ''HEAD''"
    and "no_framing (te_resHeader E)" "length (concat ds) \<le> length (te_buffer E)"
    and "tr_in c = render_request m u p hs @ body @ rest"
  shows "\<exists>c1. OnTrack E c = Ret (None, c1) \<and> tr_in c1 = rest \<and>
     tr_out c1 = tr_out c @ head_of (te_http E) (te_resHeader E) (show_nat (length (concat ds)))
       (sniffed (te_http E) (te_resHeader E) (concat ds)) [] @ concat ds"
proof -
  let ?H = "te_http E"
  let ?b0 = "\<lparr>bd_i = 0, bd_l = int (length body)\<rparr>"
  define req where "req = \<lparr>Method = m, URL = url, Proto = p, Header = hs, Host = (case hv of None \<Rightarrow> [] | Some v \<Rightarrow> v),
      ContentLength = int (length body), Body = ?b0\<rparr>"
  have read: "read_request E (tr_in c) = Ret (Inr req, body @ rest)"
    using ReadFastRequest_rendered [where urlParse = "te_urlParse E", OF assms(4-8), of "[]" "body @ rest"]
      hset_all_append [of "[]" hs] assms(1,2,9-12,16)
    by (simp add: read_request_def make_request_def req_def Let_def)
  obtain d b t where bd: "body_reads ms ?b0 (body @ rest) = (d, b, t)" by (metis prod.exhaust)
  have close: "snd (body_Close b t) = rest"
    using body_reads_and_close [OF bd] by simp
  obtain r1 r2 where w: "resp_writes ?H ds (NewResponse m (te_buffer E) (te_resHeader E)) = Ret r1"
      "resp_FinishRequest ?H r1 = Ret r2" "\<not> handlerDone r1"
      "rw_out r2 = head_of ?H (te_resHeader E) (show_nat (length (concat ds)))
         (sniffed ?H (te_resHeader E) (concat ds)) [] @ concat ds"
    using writes_and_finish [OF assms(14,15), of ?H m] assms(13) by auto
  have "finish_call E (req\<lparr>Body := b\<rparr>, t, r1) = Ret (req\<lparr>Body := fst (body_Close b t)\<rparr>, rest, r2)"
    using w(2,3) assms(1) close by (auto simp: finish_call_def split: prod.split)
  moreover have "io_handler ?H ms ds (req, body @ rest, NewResponse m (te_buffer E) (te_resHeader E)) =
      Ret (req\<lparr>Body := b\<rparr>, t, r1)"
    using bd w(1) by (simp add: io_handler_def req_def)
  moreover have "Method req = m" by (simp add: req_def)
  ultimately show ?thesis
    using read assms(1,3) w(4) by (simp add: OnTrack_def)
qed

definition demo_track :: "string track_env" where
  "demo_track =
     \<lparr>te_http = demo_http, te_urlParse = demo_url, te_netRead = (\<lambda>s. (Inl EOF, s)), te_netClose = (\<lambda>b s. (b, s)),
      te_handler = Some (io_handler demo_http [2, 5] [''hel'', ''lo'']), te_doFast = True, te_reqHeader = [],
      te_resHeader = [], te_buffer = ''0123456789''\<rparr>"

definition demo_conn :: track where
  "demo_conn =
     \<lparr>tr_in = render_request ''POST'' ''/'' ''HTTP/1.1'' [(''Content-Length'', [''3''])] @ ''xyz'' @ ''GET /next'',
      tr_out = ''earlier'', tr_freed = None\<rparr>"

theorem one_request_per_event_witness:
  "\<exists>c1. OnTrack demo_track demo_conn = Ret (None, c1) \<and> tr_in c1 = ''GET /next'' \<and>
     tr_out c1 = ''earlier'' @ head_of demo_http [] (show_nat 5) ''text/plain'' [] @ ''hello''"
proof -
  let ?hs = "[(''Content-Length'', [''3''])]"
  have e: "te_doFast demo_track" "te_reqHeader demo_track = []" "te_http demo_track = demo_http"
      "te_handler demo_track = Some (io_handler (te_http demo_track) [2, 5] [''hel'', ''lo''])"
      "te_urlParse demo_track ''/'' = Inr ''/''" "te_resHeader demo_track = []" "te_buffer demo_track = ''0123456789''"
    by (simp_all add: demo_track_def demo_url_def)
  have w: "word_ok ''POST''" "word_ok ''/''" "word_ok ''HTTP/1.1''" by code_simp+
  have h: "list_all hdr_ok ?hs" "distinct (map fst ?hs)" by code_simp+
  have v: "first_value ?hs ''Host'' = Ret None" "first_value ?hs ''Content-Length'' = Ret (Some ''3'')"
    by (simp_all add: first_value_def)
  have n: "parse_int0 ''3'' = int (length ''xyz'')" by code_simp
  have m: "''POST'' \<noteq> ''HEAD''" by simp
  have f: "no_framing (te_resHeader demo_track)" by (simp add: e no_framing_def hget_def)
  have c: "concat [''hel'', ''lo''] = ''hello''" "length ''hello'' = 5" by simp_all
  have l: "length (concat [''hel'', ''lo'']) \<le> length (te_buffer demo_track)" by (simp add: e)
  have i: "tr_in demo_conn = render_request ''POST'' ''/'' ''HTTP/1.1'' ?hs @ ''xyz'' @ ''GET /next''"
    by (simp add: demo_conn_def)
  have o: "sniffed demo_http [] ''hello'' = ''text/plain''" "tr_out demo_conn = ''earlier''"
    by (simp_all add: sniffed_def hget_def demo_http_def demo_conn_def)
  show ?thesis
    using one_request_per_event [OF e(1,2,4) w e(5) h v n m f l i] unfolding c o e .
qed

text \<open>
  Servers without options share them: a server that was made without options and is asked to serve
  TLS puts its configuration into the options that every such server uses, so that a second server made
  without options, asked to serve plainly, hands the first one's TLS configuration to its engine.
\<close>

lemma default_options_are_shared:
  assumes "o_Options (H nullOpts) = Some None" "se_loadX509 E cert key = Inr c"
    and "ServeTLS E cert key H (NewHttpServer True []) = Ret (e, H1, sv1)"
    and "se_listen E network address = Inr l"
  shows "ListenAndServe E network address [] H1 (NewHttpServer True []) =
     go_bind (se_engine E (Some l) (Some \<lparr>NextProtos = [''http/1.1''], Certificates = [c], GetCertificate = False\<rparr>))
       (\<lambda>e2. Ret (e2, H1, (NewHttpServer True [])\<lparr>sv_listener := Some l\<rparr>))"
proof -
  let ?c = "\<lparr>NextProtos = [''http/1.1''], Certificates = [c], GetCertificate = False\<rparr>"
  have "H1 = set_tls nullOpts ?c H"
    using assms(1-3) by (auto simp: ServeTLS_def NewHttpServer_def Let_def go_bind_eq_Ret)
  then have "o_Options (H1 nullOpts) = Some (Some ?c)"
    by (simp add: set_tls_def)
  then show ?thesis
    using assms(4) by (simp add: ListenAndServe_def sv_Listen_def sv_Serve_def NewHttpServer_def Let_def)
      (cases "se_engine E (Some l) (Some ?c)"; simp)
qed

definition demo_listener :: GkListener where
  "demo_listener = \<lparr>gl_fd = -1, gl_file = Some \<lparr>fnum = 5, fclosed = False\<rparr>, gl_addr = None, gl_isUDP = False\<rparr>"

text \<open>An engine that reports whether it was given a TLS configuration.\<close>

definition demo_server_env :: server_env where
  "demo_server_env =
     \<lparr>se_listen = (\<lambda>_ _. Inr demo_listener), se_loadX509 = (\<lambda>_ _. Inr ''cert''),
      se_engine = (\<lambda>_ tls. Ret (if tls = None then None else Some (NewError ''tls''))), se_stop = Ret ()\<rparr>"

theorem default_options_are_shared_witness:
  "ListenAndServe demo_server_env ''tcp'' '':80'' []
     (set_tls nullOpts \<lparr>NextProtos = [''http/1.1''], Certificates = [''cert''], GetCertificate = False\<rparr>
        (\<lambda>_. \<lparr>o_Options = Some None, DoFast = False\<rparr>)) (NewHttpServer True []) =
   Ret (Some (NewError ''tls''),
     set_tls nullOpts \<lparr>NextProtos = [''http/1.1''], Certificates = [''cert''], GetCertificate = False\<rparr>
        (\<lambda>_. \<lparr>o_Options = Some None, DoFast = False\<rparr>),
     (NewHttpServer True [])\<lparr>sv_listener := Some demo_listener\<rparr>)"
proof -
  let ?H = "\<lambda>_ :: nat. \<lparr>o_Options = Some None, DoFast = False\<rparr>"
  let ?H1 = "set_tls nullOpts \<lparr>NextProtos = [''http/1.1''], Certificates = [''cert''], GetCertificate = False\<rparr> ?H"
  have h: "o_Options (?H nullOpts) = Some None" by simp
  have c: "se_loadX509 demo_server_env ''cert'' ''key'' = Inr ''cert''"
      "se_listen demo_server_env ''tcp'' '':80'' = Inr demo_listener"
    by (simp_all add: demo_server_env_def)
  have "ServeTLS demo_server_env ''cert'' ''key'' ?H (NewHttpServer True []) =
      Ret (Some (NewError ''tls''), ?H1, (NewHttpServer True [])\<lparr>sv_listener := Some demo_listener\<rparr>)"
    by (simp add: ServeTLS_def NewHttpServer_def Let_def demo_server_env_def sv_Serve_def sv_Listen_def set_tls_def)
  from default_options_are_shared [OF h c(1) this c(2)] show ?thesis
    by (simp add: demo_server_env_def)
qed

text \<open>
  \<open>Run\<close> of a new gin adapter without an address dereferences a nil server, and with an address it
  listens on a Unix socket exactly when the address ends in \<open>.sock\<close>.
\<close>

lemma run_without_address_panics: "gin_Run E [] H (NewGin opts) = Panic"
  by (simp add: gin_Run_def gin_listen_def NewGin_def on_server_def)

lemma run_with_address_serves:
  assumes "se_listen E (if 5 \<le> length a \<and> drop (length a - 5) a = ''.sock'' then ''unix'' else ''tcp'') a = Inr l"
    and "o_Options (H nullOpts) = Some tls"
  shows "gin_Run E [a] H (NewGin []) =
     go_bind (se_engine E (Some l) tls) (\<lambda>e. Ret (e, \<lparr>g_Server = Some ((NewHttpServer True [])\<lparr>sv_listener := Some l\<rparr>), g_options = None\<rparr>))"
  using assms
  by (cases "se_engine E (Some l) tls")
    (simp_all add: gin_Run_def gin_listen_def gin_Listen_def NewGin_def on_server_def initServer_def sv_Listen_def
      sv_Serve_def NewHttpServer_def Let_def)

end
