(* ===== verification/WakeQueue.thy ===== *)
theory WakeQueue
  imports Wakeup TaskQueue
begin

text \<open>
  The wake-up protocol over the lock-free queues themselves: the two task queues of
  \<open>poll/poll.go\<close> are systems of \<open>LockFreeQueue\<close>, in which the goroutines that add tasks and the poll
  goroutine take the atomic steps of \<open>Enqueue\<close>, \<open>Dequeue\<close> and \<open>IsEmpty\<close> one at a time. Every step is a
  step of \<open>Wakeup\<close> or none, so what is proved there over lists holds over the queues.
\<close>

section \<open>State and steps\<close>

text \<open>
  A goroutine is outside, inside \<open>Enqueue\<close> of the priority queue (or the other), before its
  compare-and-swap, or before its \<open>Trigger\<close>. Goroutine \<open>i\<close> of each queue is adder \<open>i\<close>; the last one is
  the poll goroutine.
\<close>

datatype iadder = IOut | IEnq bool | ICounted | IWon

record 't impl =
  pq :: "'t qsys"
  oq :: "'t qsys"
  iran :: "'t list"
  itrig :: int
  icounter :: nat
  iadders :: "iadder list"
  ipc :: loop_pc

definition queue_of :: "bool \<Rightarrow> 't impl \<Rightarrow> 't qsys" where
  "queue_of p c = (if p then pq c else oq c)"

definition set_queue :: "bool \<Rightarrow> 't qsys \<Rightarrow> 't impl \<Rightarrow> 't impl" where
  "set_queue p s c = (if p then c\<lparr>pq := s\<rparr> else c\<lparr>oq := s\<rparr>)"

definition poll_id :: "'t impl \<Rightarrow> nat" where
  "poll_id c = length (iadders c)"

definition q_call :: "nat \<Rightarrow> 't call \<Rightarrow> 't qsys \<Rightarrow> 't qsys" where
  "q_call i k s = (case start k (shared s) of (q', p') \<Rightarrow> s\<lparr>shared := q', pcs := (pcs s)[i := p']\<rparr>)"

definition q_run :: "nat \<Rightarrow> 't qsys \<Rightarrow> 't qsys" where
  "q_run i s = (case tstep (shared s) (pcs s ! i) of (l, q', p') \<Rightarrow> s\<lparr>shared := q', pcs := (pcs s)[i := p']\<rparr>)"

text \<open>What the poll goroutine does with the result of a call, when there is one.\<close>

definition after_prior :: "bool list \<Rightarrow> 't pc \<Rightarrow> 't impl \<Rightarrow> 't impl" where
  "after_prior rest p c =
     (case p of Finished (DeqDone (Some t)) \<Rightarrow> c\<lparr>iran := iran c @ [t]\<rparr>
      | Finished (DeqDone None) \<Rightarrow> c\<lparr>ipc := DrainTasks MaxTasks rest\<rparr>
      | _ \<Rightarrow> c)"

definition after_task :: "nat \<Rightarrow> bool list \<Rightarrow> 't pc \<Rightarrow> 't impl \<Rightarrow> 't impl" where
  "after_task k rest p c =
     (case p of Finished (DeqDone (Some t)) \<Rightarrow> c\<lparr>iran := iran c @ [t], ipc := DrainTasks k rest\<rparr>
      | Finished (DeqDone None) \<Rightarrow> c\<lparr>ipc := StoreZero rest\<rparr>
      | _ \<Rightarrow> c)"

definition after_look :: "loop_pc \<Rightarrow> bool list \<Rightarrow> 't pc \<Rightarrow> 't impl \<Rightarrow> 't impl" where
  "after_look next rest p c =
     (case p of Finished (EmptyDone b) \<Rightarrow> c\<lparr>ipc := (if b then next else Rearm rest)\<rparr> | _ \<Rightarrow> c)"

inductive cstep :: "bool \<Rightarrow> 't impl \<Rightarrow> 't impl \<Rightarrow> bool" for blk where
  enq_call: "i < length (iadders c) \<Longrightarrow> iadders c ! i = IOut \<Longrightarrow>
    cstep blk c ((set_queue p (q_call i (Enqueue t) (queue_of p c)) c)\<lparr>iadders := (iadders c)[i := IEnq p]\<rparr>)"
| enq_run: "i < length (iadders c) \<Longrightarrow> iadders c ! i = IEnq p \<Longrightarrow> s' = q_run i (queue_of p c) \<Longrightarrow>
    cstep blk c ((set_queue p s' c)\<lparr>iadders :=
      (iadders c)[i := if pcs s' ! i = Finished EnqDone then ICounted else IEnq p]\<rparr>)"
| icas_won: "i < length (iadders c) \<Longrightarrow> iadders c ! i = ICounted \<Longrightarrow> itrig c = 0 \<Longrightarrow>
    cstep blk c (c\<lparr>itrig := 1, iadders := (iadders c)[i := IWon]\<rparr>)"
| icas_lost: "i < length (iadders c) \<Longrightarrow> iadders c ! i = ICounted \<Longrightarrow> itrig c \<noteq> 0 \<Longrightarrow>
    cstep blk c (c\<lparr>iadders := (iadders c)[i := IOut]\<rparr>)"
| itrigger: "i < length (iadders c) \<Longrightarrow> iadders c ! i = IWon \<Longrightarrow>
    cstep blk c (c\<lparr>icounter := icounter c + 1, iadders := (iadders c)[i := IOut]\<rparr>)"
| ievents: "ipc c = Waiting tr \<Longrightarrow> evs \<noteq> [] \<Longrightarrow> length (filter id evs) \<le> 1 \<Longrightarrow>
    (True \<in> set evs \<longrightarrow> icounter c > 0) \<Longrightarrow> cstep blk c (c\<lparr>ipc := Batch evs tr\<rparr>)"
| ibatch_end: "ipc c = Batch [] tr \<Longrightarrow> cstep blk c (c\<lparr>ipc := Waiting tr\<rparr>)"
| ievent_wake: "ipc c = Batch (True # rest) tr \<Longrightarrow>
    cstep blk c (c\<lparr>icounter := 0, ipc := Callback True rest (rest = [])\<rparr>)"
| ievent_conn: "ipc c = Batch (False # rest) tr \<Longrightarrow>
    cstep blk c (c\<lparr>ipc := Callback False rest (rest = [] \<and> tr)\<rparr>)"
| icall_idle: "ipc c = Callback ev rest False \<Longrightarrow>
    cstep blk c (c\<lparr>icounter := (if ev \<and> \<not> blk then 0 else icounter c), ipc := Batch rest False\<rparr>)"
| icall_drain: "ipc c = Callback ev rest True \<Longrightarrow>
    cstep blk c (c\<lparr>icounter := (if ev \<and> \<not> blk then 0 else icounter c), ipc := DrainPrior rest\<rparr>)"
| prior_call: "ipc c = DrainPrior rest \<Longrightarrow> at_rest (pcs (pq c) ! poll_id c) \<Longrightarrow>
    cstep blk c (c\<lparr>pq := q_call (poll_id c) Dequeue (pq c)\<rparr>)"
| prior_run: "ipc c = DrainPrior rest \<Longrightarrow> \<not> at_rest (pcs (pq c) ! poll_id c) \<Longrightarrow> s' = q_run (poll_id c) (pq c) \<Longrightarrow>
    cstep blk c (after_prior rest (pcs s' ! poll_id c) (c\<lparr>pq := s'\<rparr>))"
| task_limit: "ipc c = DrainTasks 0 rest \<Longrightarrow> cstep blk c (c\<lparr>ipc := StoreZero rest\<rparr>)"
| task_call: "ipc c = DrainTasks (Suc k) rest \<Longrightarrow> at_rest (pcs (oq c) ! poll_id c) \<Longrightarrow>
    cstep blk c (c\<lparr>oq := q_call (poll_id c) Dequeue (oq c)\<rparr>)"
| task_run: "ipc c = DrainTasks (Suc k) rest \<Longrightarrow> \<not> at_rest (pcs (oq c) ! poll_id c) \<Longrightarrow> s' = q_run (poll_id c) (oq c) \<Longrightarrow>
    cstep blk c (after_task k rest (pcs s' ! poll_id c) (c\<lparr>oq := s'\<rparr>))"
| istop: "ipc c = StoreZero rest \<Longrightarrow> cstep blk c (c\<lparr>ipc := Ended\<rparr>)"
| istore_zero: "ipc c = StoreZero rest \<Longrightarrow> cstep blk c (c\<lparr>itrig := 0, ipc := LookTasks rest\<rparr>)"
| look_tasks_call: "ipc c = LookTasks rest \<Longrightarrow> at_rest (pcs (oq c) ! poll_id c) \<Longrightarrow>
    cstep blk c (c\<lparr>oq := q_call (poll_id c) IsEmpty (oq c)\<rparr>)"
| look_tasks_run: "ipc c = LookTasks rest \<Longrightarrow> \<not> at_rest (pcs (oq c) ! poll_id c) \<Longrightarrow> s' = q_run (poll_id c) (oq c) \<Longrightarrow>
    cstep blk c (after_look (LookPrior rest) rest (pcs s' ! poll_id c) (c\<lparr>oq := s'\<rparr>))"
| look_prior_call: "ipc c = LookPrior rest \<Longrightarrow> at_rest (pcs (pq c) ! poll_id c) \<Longrightarrow>
    cstep blk c (c\<lparr>pq := q_call (poll_id c) IsEmpty (pq c)\<rparr>)"
| look_prior_run: "ipc c = LookPrior rest \<Longrightarrow> \<not> at_rest (pcs (pq c) ! poll_id c) \<Longrightarrow> s' = q_run (poll_id c) (pq c) \<Longrightarrow>
    cstep blk c (after_look (Batch rest False) rest (pcs s' ! poll_id c) (c\<lparr>pq := s'\<rparr>))"
| irearm: "ipc c = Rearm rest \<Longrightarrow> cstep blk c
    (if itrig c = 0 then c\<lparr>itrig := 1, ipc := Signal rest\<rparr> else c\<lparr>ipc := Batch rest False\<rparr>)"
| isignal: "ipc c = Signal rest \<Longrightarrow> cstep blk c (c\<lparr>icounter := icounter c + 1, ipc := Batch rest tr\<rparr>)"
| ifatal: "ipc c = Batch rest tr \<or> ipc c = Waiting tr \<Longrightarrow> cstep blk c (c\<lparr>ipc := Ended\<rparr>)"

definition init_impl :: "nat \<Rightarrow> 't impl" where
  "init_impl n = \<lparr>pq = init_sys (Suc n), oq = init_sys (Suc n), iran = [], itrig = 0, icounter = 0,
     iadders = replicate n IOut, ipc = Waiting False\<rparr>"

section \<open>One queue with a single consumer\<close>

fun enqueuing :: "'t pc \<Rightarrow> bool" where
  "enqueuing (Enq_load_tail n) = True"
| "enqueuing (Enq_load_next n ta) = True"
| "enqueuing (Enq_check n ta x) = True"
| "enqueuing (Enq_link n ta) = True"
| "enqueuing (Enq_help n ta x) = True"
| "enqueuing (Enq_swing n ta) = True"
| "enqueuing Enq_count = True"
| "enqueuing p = False"

text \<open>Only the consumer moves \<open>Head\<close>, so the head it has loaded is still \<open>Head\<close>.\<close>

fun consuming :: "addr \<Rightarrow> 't pc \<Rightarrow> bool" where
  "consuming hp Deq_load_head = True"
| "consuming hp (Deq_load_tail a) = (a = hp)"
| "consuming hp (Deq_load_next a b) = (a = hp)"
| "consuming hp (Deq_check a b x) = (a = hp)"
| "consuming hp (Deq_help b x) = True"
| "consuming hp (Deq_value a x) = (a = hp)"
| "consuming hp (Deq_swing a x v) = (a = hp)"
| "consuming hp (Deq_count v) = (v \<noteq> None)"
| "consuming hp p = False"

definition queue_ok :: "(nat \<Rightarrow> bool) \<Rightarrow> nat \<Rightarrow> 't qsys \<Rightarrow> bool" where
  "queue_ok enq n s \<longleftrightarrow> represents s (snapshot (shared s)) \<and> None \<notin> set (snapshot (shared s)) \<and>
     length (pcs s) = Suc n \<and>
     (\<forall>i<n. if enq i then enqueuing (pcs s ! i) else at_rest (pcs s ! i)) \<and>
     (\<forall>i<n. \<forall>a. owned (pcs s ! i) = Some a \<longrightarrow> Value (heap (shared s) a) \<noteq> None)"

datatype 't found = Busy | Got 't | SawNil

fun deq_view :: "'t pc \<Rightarrow> 't found" where
  "deq_view (Deq_count (Some v)) = Got v"
| "deq_view (Deq_check a b None) = (if a = b then SawNil else Busy)"
| "deq_view p = Busy"


lemma tstep_values: "tstep q p = (l, q', p') \<Longrightarrow> Value (heap q' a) = Value (heap q a)"
  by (cases p) (auto simp: cas_defs split: if_splits option.splits)

lemma start_values:
  "start k q = (q', p') \<Longrightarrow> a \<noteq> brk q \<or> k = Dequeue \<or> k = IsEmpty \<Longrightarrow> Value (heap q' a) = Value (heap q a)"
  by (cases k) auto

lemma tstep_enq:
  assumes "enqueuing p" and "tstep q p = (l, q', p')"
  shows "Head q' = Head q \<and>
    (p' = Finished EnqDone \<and> l = Tau \<and> pending p = 1 \<or>
     enqueuing p' \<and> (owned p' = owned p \<or> owned p' = None) \<and>
       (l = Tau \<and> pending p' = pending p \<or>
        (\<exists>n. owned p = Some n \<and> l = LinEnq (Value (heap q n))) \<and> pending p = 0 \<and> pending p' = 1))"
  using assms by (cases p) (auto simp: cas_defs split: if_splits option.splits)

lemma tstep_deq:
  assumes "consuming (Head q) p" and "tstep q p = (l, q', p')" and "p' \<noteq> Crashed" and "l \<noteq> LinDeq None"
  shows "case deq_view p of
      Got v \<Rightarrow> p' = Finished (DeqDone (Some v)) \<and> l = Tau
    | SawNil \<Rightarrow> p' = Finished (DeqDone None) \<and> l = Tau
    | Busy \<Rightarrow> consuming (Head q') p' \<and>
        (case deq_view p' of Got v \<Rightarrow> l = LinDeq (Some v) | SawNil \<Rightarrow> l = LinNil | Busy \<Rightarrow> l = Tau)"
proof (cases p)
  case (Deq_load_next a b)
  then show ?thesis using assms by (cases "Next (heap q a)") auto
next
  case (Deq_check a b x)
  then show ?thesis using assms by (cases x) (auto split: if_splits)
next
  case (Deq_value a x)
  then show ?thesis using assms by (cases x) auto
next
  case (Deq_swing a x v)
  then show ?thesis using assms by (cases v) (auto simp: cas_Head_def)
next
  case (Deq_count v)
  then show ?thesis using assms by (cases v) auto
qed (use assms in \<open>auto simp: cas_defs split: if_splits\<close>)

lemma q_run_step:
  assumes "i < length (pcs s)" and "\<not> at_rest (pcs s ! i)" and "tstep (shared s) (pcs s ! i) = (l, q', p')"
    and "represents s (snapshot (shared s))"
  shows "q_run i s = s\<lparr>shared := q', pcs := (pcs s)[i := p']\<rparr>" "represents (q_run i s) (snapshot q')"
    "lin l (snapshot (shared s)) (snapshot q')" "p' \<noteq> Crashed"
proof -
  show q: "q_run i s = s\<lparr>shared := q', pcs := (pcs s)[i := p']\<rparr>" using assms(3) by (simp add: q_run_def)
  have "qstep s l (q_run i s)" unfolding q by (rule qstep.run [OF assms(1-3)])
  then obtain vs where vs: "represents (q_run i s) vs" "lin l (snapshot (shared s)) vs"
    using represents_step assms(4) by blast
  then have "vs = snapshot q'" using represents_snapshot [OF vs(1)] by (simp add: q)
  then show r: "represents (q_run i s) (snapshot q')" "lin l (snapshot (shared s)) (snapshot q')" using vs by simp_all
  obtain ch h t where "sys_inv ch h t (q_run i s)" using r(1) by (auto simp: represents_def)
  then have "\<forall>j<length (pcs (q_run i s)). pc_ok ch h t (shared (q_run i s)) (pcs (q_run i s) ! j)"
    by (simp add: sys_inv_def)
  then show "p' \<noteq> Crashed" using assms(1) by (fastforce simp: q)
qed

lemma q_call_step:
  assumes "i < length (pcs s)" and "at_rest (pcs s ! i)" and "start k (shared s) = (q', p')"
    and "represents s (snapshot (shared s))"
  shows "q_call i k s = s\<lparr>shared := q', pcs := (pcs s)[i := p']\<rparr>" "represents (q_call i k s) (snapshot q')"
    "snapshot q' = snapshot (shared s)"
proof -
  show q: "q_call i k s = s\<lparr>shared := q', pcs := (pcs s)[i := p']\<rparr>" using assms(3) by (simp add: q_call_def)
  have "qstep s Tau (q_call i k s)" unfolding q by (rule qstep.call [OF assms(1-3)])
  then obtain vs where vs: "represents (q_call i k s) vs" "lin Tau (snapshot (shared s)) vs"
    using represents_step assms(4) by blast
  then have "vs = snapshot q'" using represents_snapshot [OF vs(1)] by (simp add: q)
  then show "represents (q_call i k s) (snapshot q')" "snapshot q' = snapshot (shared s)" using vs by simp_all
qed

lemma owned_allocated:
  assumes "represents s vs" and "i < length (pcs s)" and "owned (pcs s ! i) = Some a"
  shows "a < brk (shared s)"
  using assms by (auto simp: represents_def sys_inv_def own_ok_def fresh_def)


lemma queue_ok_update:
  assumes "queue_ok enq n s" and "i \<le> n" and "represents s' (snapshot (shared s'))"
    and "None \<notin> set (snapshot (shared s'))" and "pcs s' = (pcs s)[i := p]"
    and "i < n \<Longrightarrow> if e then enqueuing p else at_rest p"
    and "\<And>a. a < brk (shared s) \<Longrightarrow> Value (heap (shared s') a) = Value (heap (shared s) a)"
    and "i < n \<Longrightarrow> owned p = None \<or> owned p = owned (pcs s ! i) \<or> (\<exists>a. owned p = Some a \<and> Value (heap (shared s') a) \<noteq> None)"
  shows "queue_ok (if i < n then enq(i := e) else enq) n s'"
  unfolding queue_ok_def
proof (intro conjI allI impI)
  have old: "length (pcs s) = Suc n" "represents s (snapshot (shared s))"
      "\<And>j. j < n \<Longrightarrow> if enq j then enqueuing (pcs s ! j) else at_rest (pcs s ! j)"
      "\<And>j a. j < n \<Longrightarrow> owned (pcs s ! j) = Some a \<Longrightarrow> Value (heap (shared s) a) \<noteq> None"
    using assms(1) by (auto simp: queue_ok_def)
  show "length (pcs s') = Suc n" by (simp add: assms(5) old(1))
  fix j assume j: "j < n"
  show "if (if i < n then enq(i := e) else enq) j then enqueuing (pcs s' ! j) else at_rest (pcs s' ! j)"
    using assms(2,6) old(1) old(3) [OF j] j by (auto simp: assms(5) nth_list_update)
  fix a assume a: "owned (pcs s' ! j) = Some a"
  have keep: "Value (heap (shared s') a) \<noteq> None" if "owned (pcs s ! j) = Some a"
    using old(4) [OF j that] assms(7) owned_allocated [OF old(2) _ that] old(1) j by simp
  show "Value (heap (shared s') a) \<noteq> None"
    using a assms(8) keep j old(1) by (cases "j = i") (auto simp: assms(5) nth_list_update)
qed (use assms(3,4) in simp_all)

lemma enq_call_ok:
  fixes t
  assumes "queue_ok enq n s" and "i < n" and "\<not> enq i"
  defines "s' \<equiv> q_call i (Enqueue t) s"
  shows "queue_ok (enq(i := True)) n s'" "snapshot (shared s') = snapshot (shared s)"
    "Head (shared s') = Head (shared s)" "pending (pcs s' ! i) = 0" "j \<noteq> i \<Longrightarrow> pcs s' ! j = pcs s ! j"
proof -
  have old: "i < length (pcs s)" "at_rest (pcs s ! i)" "represents s (snapshot (shared s))"
    using assms(1-3) by (auto simp: queue_ok_def)
  obtain q' p' where st: "start (Enqueue t) (shared s) = (q', p')" by fastforce
  note c = q_call_step [OF old(1,2) st old(3), folded s'_def]
  then show "snapshot (shared s') = snapshot (shared s)" "Head (shared s') = Head (shared s)" "pending (pcs s' ! i) = 0"
      "j \<noteq> i \<Longrightarrow> pcs s' ! j = pcs s ! j"
    using st old(1) by auto
  show "queue_ok (enq(i := True)) n s'"
    using queue_ok_update [OF assms(1), of i s' p' True] c st assms(1,2) start_values [OF st]
    by (auto simp: queue_ok_def)
qed

lemma enq_run_ok:
  assumes "queue_ok enq n s" and "i < n" and "enq i"
  defines "s' \<equiv> q_run i s"
  shows "Head (shared s') = Head (shared s)" "j \<noteq> i \<Longrightarrow> pcs s' ! j = pcs s ! j"
    "pcs s' ! i = Finished EnqDone \<and> queue_ok (enq(i := False)) n s' \<and> snapshot (shared s') = snapshot (shared s) \<and>
       pending (pcs s ! i) = 1 \<or>
     enqueuing (pcs s' ! i) \<and> queue_ok enq n s' \<and>
       (snapshot (shared s') = snapshot (shared s) \<and> pending (pcs s' ! i) = pending (pcs s ! i) \<or>
        (\<exists>v. snapshot (shared s') = snapshot (shared s) @ [v]) \<and> pending (pcs s ! i) = 0 \<and> pending (pcs s' ! i) = 1)"
proof -
  have old: "i < length (pcs s)" "enqueuing (pcs s ! i)" "represents s (snapshot (shared s))"
      "None \<notin> set (snapshot (shared s))" "\<And>a. owned (pcs s ! i) = Some a \<Longrightarrow> Value (heap (shared s) a) \<noteq> None"
    using assms(1-3) by (auto simp: queue_ok_def)
  have nr: "\<not> at_rest (pcs s ! i)" using old(2) by (cases "pcs s ! i") auto
  obtain l q' p' where st: "tstep (shared s) (pcs s ! i) = (l, q', p')" by (cases "tstep (shared s) (pcs s ! i)") auto
  note c = q_run_step [OF old(1) nr st old(3), folded s'_def]
  note e = tstep_enq [OF old(2) st]
  have s': "pcs s' = (pcs s)[i := p']" "shared s' = q'" "pcs s' ! i = p'" using c(1) old(1) by simp_all
  show "Head (shared s') = Head (shared s)" "j \<noteq> i \<Longrightarrow> pcs s' ! j = pcs s ! j"
    using e s' by simp_all
  have upd: "queue_ok (enq(i := b)) n s'"
    if "if b then enqueuing p' else at_rest p'" "None \<notin> set (snapshot q')" "owned p' = owned (pcs s ! i) \<or> owned p' = None" for b
    using queue_ok_update [OF assms(1), of i s' p' b] c(2) s' tstep_values [OF st] that assms(2) by auto
  have "enq(i := True) = enq" using assms(3) by (simp add: fun_eq_iff)
  show "pcs s' ! i = Finished EnqDone \<and> queue_ok (enq(i := False)) n s' \<and> snapshot (shared s') = snapshot (shared s) \<and>
       pending (pcs s ! i) = 1 \<or>
     enqueuing (pcs s' ! i) \<and> queue_ok enq n s' \<and>
       (snapshot (shared s') = snapshot (shared s) \<and> pending (pcs s' ! i) = pending (pcs s ! i) \<or>
        (\<exists>v. snapshot (shared s') = snapshot (shared s) @ [v]) \<and> pending (pcs s ! i) = 0 \<and> pending (pcs s' ! i) = 1)"
  proof (rule disjE [OF conjunct2 [OF e]])
    assume f: "p' = Finished EnqDone \<and> l = Tau \<and> pending (pcs s ! i) = 1"
    then have "snapshot q' = snapshot (shared s)" using c(3) by simp
    then show ?thesis using f upd [of False] old(4) s'(2,3) by simp
  next
    assume f: "enqueuing p' \<and> (owned p' = owned (pcs s ! i) \<or> owned p' = None) \<and>
       (l = Tau \<and> pending p' = pending (pcs s ! i) \<or>
        (\<exists>n. owned (pcs s ! i) = Some n \<and> l = LinEnq (Value (heap (shared s) n))) \<and> pending (pcs s ! i) = 0 \<and> pending p' = 1)"
    then have q': "None \<notin> set (snapshot q')" using c(3) old(4,5) by fastforce
    then have "queue_ok enq n s'" using upd [of True] f \<open>enq(i := True) = enq\<close> by simp
    then show ?thesis using f c(3) s'(2,3) by fastforce
  qed
qed

lemma poll_call_ok:
  assumes "queue_ok enq n s" and "at_rest (pcs s ! n)" and "k = Dequeue \<or> k = IsEmpty"
  defines "s' \<equiv> q_call n k s"
  shows "queue_ok enq n s'" "shared s' = shared s" "pcs s' ! n = (if k = Dequeue then Deq_load_head else Empty_load)"
    "j \<noteq> n \<Longrightarrow> pcs s' ! j = pcs s ! j"
proof -
  have old: "n < length (pcs s)" "represents s (snapshot (shared s))" "None \<notin> set (snapshot (shared s))"
    using assms(1) by (auto simp: queue_ok_def)
  obtain p' where st: "start k (shared s) = (shared s, p')" "p' = (if k = Dequeue then Deq_load_head else Empty_load)"
    using assms(3) by auto
  note c = q_call_step [OF old(1) assms(2) st(1) old(2), folded s'_def]
  then show "shared s' = shared s" "pcs s' ! n = (if k = Dequeue then Deq_load_head else Empty_load)"
      "j \<noteq> n \<Longrightarrow> pcs s' ! j = pcs s ! j"
    using st(2) old(1) by auto
  show "queue_ok enq n s'"
    using queue_ok_update [OF assms(1), of n s' p'] c old(3) by simp
qed

lemma poll_run_ok:
  assumes "queue_ok enq n s" and "consuming (Head (shared s)) (pcs s ! n)"
  defines "s' \<equiv> q_run n s"
  shows "queue_ok enq n s'" "j \<noteq> n \<Longrightarrow> pcs s' ! j = pcs s ! j"
    "case deq_view (pcs s ! n) of
       Got v \<Rightarrow> pcs s' ! n = Finished (DeqDone (Some v)) \<and> snapshot (shared s') = snapshot (shared s)
     | SawNil \<Rightarrow> pcs s' ! n = Finished (DeqDone None) \<and> snapshot (shared s') = snapshot (shared s)
     | Busy \<Rightarrow> consuming (Head (shared s')) (pcs s' ! n) \<and>
         (case deq_view (pcs s' ! n) of
            Got v \<Rightarrow> snapshot (shared s) = Some v # snapshot (shared s')
          | SawNil \<Rightarrow> snapshot (shared s) = [] \<and> snapshot (shared s') = []
          | Busy \<Rightarrow> snapshot (shared s') = snapshot (shared s))"
proof -
  have old: "n < length (pcs s)" "represents s (snapshot (shared s))" "None \<notin> set (snapshot (shared s))"
    using assms(1) by (auto simp: queue_ok_def)
  have nr: "\<not> at_rest (pcs s ! n)" using assms(2) by (cases "pcs s ! n") auto
  obtain l q' p' where st: "tstep (shared s) (pcs s ! n) = (l, q', p')" by (cases "tstep (shared s) (pcs s ! n)") auto
  note c = q_run_step [OF old(1) nr st old(2), folded s'_def]
  have l: "l \<noteq> LinDeq None" using c(3) old(3) by auto
  note d = tstep_deq [OF assms(2) st c(4) l]
  have enq: "l \<noteq> LinEnq v" for v using st assms(2) by (cases "pcs s ! n") (auto simp: cas_defs split: if_splits option.splits)
  have s': "pcs s' = (pcs s)[n := p']" "shared s' = q'" "pcs s' ! n = p'" using c(1) old(1) by simp_all
  show "j \<noteq> n \<Longrightarrow> pcs s' ! j = pcs s ! j" using s' by simp
  have "None \<notin> set (snapshot q')" using c(3) old(3) enq by (cases l) auto
  then show "queue_ok enq n s'"
    using queue_ok_update [OF assms(1), of n s' p'] c(2) s' tstep_values [OF st] by simp
  show "case deq_view (pcs s ! n) of
       Got v \<Rightarrow> pcs s' ! n = Finished (DeqDone (Some v)) \<and> snapshot (shared s') = snapshot (shared s)
     | SawNil \<Rightarrow> pcs s' ! n = Finished (DeqDone None) \<and> snapshot (shared s') = snapshot (shared s)
     | Busy \<Rightarrow> consuming (Head (shared s')) (pcs s' ! n) \<and>
         (case deq_view (pcs s' ! n) of
            Got v \<Rightarrow> snapshot (shared s) = Some v # snapshot (shared s')
          | SawNil \<Rightarrow> snapshot (shared s) = [] \<and> snapshot (shared s') = []
          | Busy \<Rightarrow> snapshot (shared s') = snapshot (shared s))"
    using d c(3) unfolding s'(2,3) by (auto split: found.splits)
qed


lemma queue_ok_cong: "(\<And>j. j < n \<Longrightarrow> enq j = enq' j) \<Longrightarrow> queue_ok enq n s = queue_ok enq' n s"
  by (simp add: queue_ok_def)

lemma pending_enqueuing: "enqueuing p \<Longrightarrow> pending p = 0 \<or> pending p = 1"
  by (cases p) auto

lemma at_rest_facts: "at_rest p \<Longrightarrow> pending p = 0 \<and> deq_view p = Busy"
  by (cases p) auto

lemma sum_pending:
  assumes "queue_ok enq n s"
  shows "sum_list (map pending (pcs s)) =
    int (length (filter (\<lambda>i. enq i \<and> pending (pcs s ! i) = 1) [0..<n])) + pending (pcs s ! n)"
proof -
  have len: "length (pcs s) = Suc n" using assms by (simp add: queue_ok_def)
  have each: "pending (pcs s ! i) = (if enq i \<and> pending (pcs s ! i) = 1 then 1 else 0)" if "i < n" for i
    using assms that pending_enqueuing [of "pcs s ! i"] at_rest_facts [of "pcs s ! i"]
    by (auto simp: queue_ok_def split: if_splits)
  have "sum_list (map (\<lambda>i. pending (pcs s ! i)) [0..<n]) =
      sum_list (map (\<lambda>i. if enq i \<and> pending (pcs s ! i) = 1 then 1 else 0) [0..<n])"
    by (rule arg_cong [of _ _ sum_list], rule map_cong [OF refl]) (use each in simp)
  also have "\<dots> = int (length (filter (\<lambda>i. enq i \<and> pending (pcs s ! i) = 1) [0..<n]))"
    by (induction "[0..<n]" rule: rev_induct) (auto simp: sum_list_triv of_bool_def simp flip: sum_list_map_filter')
  finally show ?thesis
    by (subst map_nth [of "pcs s", symmetric]) (simp add: len comp_def)
qed

lemma word32_of_int_0: "\<bar>d\<bar> < 2 ^ 32 \<Longrightarrow> (of_int d :: 32 word) = 0 \<longleftrightarrow> d = 0"
  using dvd_imp_le_int [of d "2 ^ 32"] by (auto simp: word_of_int_eq_0_iff)

text \<open>With fewer than \<open>2 ^ 31\<close> goroutines and values, the counter is 0 exactly when every value is uncounted.\<close>

lemma look_exact:
  assumes "queue_ok enq n s" and "pending (pcs s ! n) = 0"
    and "length (snapshot (shared s)) < 2 ^ 31" and "n < 2 ^ 31"
  shows "Length (shared s) = 0 \<longleftrightarrow>
    length (snapshot (shared s)) = length (filter (\<lambda>i. enq i \<and> pending (pcs s ! i) = 1) [0..<n])"
proof -
  let ?u = "length (filter (\<lambda>i. enq i \<and> pending (pcs s ! i) = 1) [0..<n])"
  let ?d = "int (length (snapshot (shared s))) - int ?u"
  obtain ch h t where inv: "sys_inv ch h t s" and it: "snapshot (shared s) = items ch h (shared s)"
    using assms(1) by (auto simp: queue_ok_def represents_def)
  have "Length (shared s) = of_int ?d"
    using inv sum_pending [OF assms(1)] assms(2) by (simp add: sys_inv_def it)
  moreover have "?u < 2 ^ 31" using assms(4) length_filter_le [of _ "[0..<n]"] by (rule_tac le_less_trans) auto
  then have "\<bar>?d\<bar> < 2 ^ 32" using assms(3) by simp
  then have "(of_int ?d :: 32 word) = 0 \<longleftrightarrow> ?d = 0" by (rule word32_of_int_0)
  ultimately show ?thesis by simp
qed

section \<open>The abstraction\<close>

definition abs_adder :: "'t impl \<Rightarrow> nat \<Rightarrow> adder" where
  "abs_adder c i =
     (case iadders c ! i of
        IOut \<Rightarrow> Out
      | IEnq p \<Rightarrow> if pending (pcs (queue_of p c) ! i) = 1 then Linked p else Out
      | ICounted \<Rightarrow> Counted
      | IWon \<Rightarrow> Won)"

text \<open>
  A task counts as run when it has been removed; a loop over a queue counts as done when its last
  \<open>Dequeue\<close> has seen the queue empty.
\<close>

fun loop_view :: "'t found \<Rightarrow> 't found \<Rightarrow> loop_pc \<Rightarrow> loop_pc \<times> 't list" where
  "loop_view a b (DrainPrior rest) =
     (case a of Got v \<Rightarrow> (DrainPrior rest, [v]) | SawNil \<Rightarrow> (DrainTasks MaxTasks rest, []) | Busy \<Rightarrow> (DrainPrior rest, []))"
| "loop_view a b (DrainTasks (Suc k) rest) =
     (case b of Got v \<Rightarrow> (DrainTasks k rest, [v]) | SawNil \<Rightarrow> (StoreZero rest, []) | Busy \<Rightarrow> (DrainTasks (Suc k) rest, []))"
| "loop_view a b p = (p, [])"

definition view_of :: "'t impl \<Rightarrow> loop_pc \<times> 't list" where
  "view_of c = loop_view (deq_view (pcs (pq c) ! poll_id c)) (deq_view (pcs (oq c) ! poll_id c)) (ipc c)"

definition abs_impl :: "'t impl \<Rightarrow> 't wake" where
  "abs_impl c = \<lparr>prior = map the (snapshot (shared (pq c))), ordinary = map the (snapshot (shared (oq c))),
     ran = iran c @ snd (view_of c), toTrig = itrig c, counter = icounter c,
     adders = map (abs_adder c) [0..<length (iadders c)], pc = fst (view_of c)\<rparr>"

fun drains_prior :: "loop_pc \<Rightarrow> bool" where
  "drains_prior (DrainPrior rest) = True"
| "drains_prior p = False"

fun drains_tasks :: "loop_pc \<Rightarrow> bool" where
  "drains_tasks (DrainTasks (Suc k) rest) = True"
| "drains_tasks p = False"

fun looks_prior :: "loop_pc \<Rightarrow> bool" where
  "looks_prior (LookPrior rest) = True"
| "looks_prior p = False"

fun looks_tasks :: "loop_pc \<Rightarrow> bool" where
  "looks_tasks (LookTasks rest) = True"
| "looks_tasks p = False"

definition poll_in :: "bool \<Rightarrow> bool \<Rightarrow> addr \<Rightarrow> 't pc \<Rightarrow> bool" where
  "poll_in drains looks hp p \<longleftrightarrow> at_rest p \<or> drains \<and> consuming hp p \<or> looks \<and> p = Empty_load"

definition impl_ok :: "'t impl \<Rightarrow> bool" where
  "impl_ok c \<longleftrightarrow>
     queue_ok (\<lambda>i. iadders c ! i = IEnq True) (poll_id c) (pq c) \<and>
     queue_ok (\<lambda>i. iadders c ! i = IEnq False) (poll_id c) (oq c) \<and>
     poll_in (drains_prior (ipc c)) (looks_prior (ipc c)) (Head (shared (pq c))) (pcs (pq c) ! poll_id c) \<and>
     poll_in (drains_tasks (ipc c)) (looks_tasks (ipc c)) (Head (shared (oq c))) (pcs (oq c) ! poll_id c)"

definition fits :: "'t impl \<Rightarrow> bool" where
  "fits c \<longleftrightarrow> length (iadders c) < 2 ^ 31 \<and> length (snapshot (shared (pq c))) < 2 ^ 31 \<and>
     length (snapshot (shared (oq c))) < 2 ^ 31"


section \<open>The simulation\<close>

lemma loop_view_busy [simp]: "loop_view Busy Busy p = (p, [])"
  by (cases "(Busy :: 't found, Busy :: 't found, p)" rule: loop_view.cases) auto

lemma poll_in_rest: "poll_in d l hp p \<Longrightarrow> \<not> d \<Longrightarrow> deq_view p = Busy"
  using at_rest_facts by (auto simp: poll_in_def)

lemma poll_in_rest': "poll_in False False hp p = at_rest p"
  by (simp add: poll_in_def)

text \<open>Steps of the poll goroutine outside the queues.\<close>

lemma abs_control:
  assumes "impl_ok c" and "\<not> drains_prior (ipc c)" and "\<not> drains_tasks (ipc c)"
    and "pq c' = pq c" and "oq c' = oq c" and "iadders c' = iadders c" and "iran c' = iran c"
  shows "abs_impl c' = (abs_impl c)\<lparr>toTrig := itrig c', counter := icounter c', pc := ipc c'\<rparr>"
proof -
  have busy: "deq_view (pcs (pq c) ! poll_id c) = Busy" "deq_view (pcs (oq c) ! poll_id c) = Busy"
    using assms(1-3) poll_in_rest by (auto simp: impl_ok_def)
  have id: "poll_id c' = poll_id c" using assms(6) by (simp add: poll_id_def)
  have "abs_adder c' i = abs_adder c i" for i
    using assms(4-6) by (simp add: abs_adder_def queue_of_def split: iadder.split)
  then show ?thesis
    using assms busy id by (simp add: abs_impl_def view_of_def)
qed

lemma ok_control:
  assumes "impl_ok c" and "pq c' = pq c" and "oq c' = oq c" and "iadders c' = iadders c"
    and "\<not> drains_prior (ipc c)" "\<not> drains_tasks (ipc c)" "\<not> looks_prior (ipc c)" "\<not> looks_tasks (ipc c)"
  shows "impl_ok c'"
  using assms by (auto simp: impl_ok_def poll_id_def poll_in_def)

text \<open>Steps of an adder: its entry changes, and one queue may.\<close>

lemma abs_adder_step:
  assumes "i < length (iadders c)" and "iadders c' = (iadders c)[i := a]"
    and "\<And>q j. j \<noteq> i \<Longrightarrow> j \<le> poll_id c \<Longrightarrow> pcs (queue_of q c') ! j = pcs (queue_of q c) ! j"
    and "iran c' = iran c" and "ipc c' = ipc c"
  shows "abs_impl c' = (abs_impl c)\<lparr>prior := map the (snapshot (shared (pq c'))), ordinary := map the (snapshot (shared (oq c'))),
     toTrig := itrig c', counter := icounter c', adders := (adders (abs_impl c))[i := abs_adder c' i]\<rparr>"
proof -
  have id: "poll_id c' = poll_id c" "i < poll_id c" using assms(1,2) by (simp_all add: poll_id_def)
  have poll: "pcs (pq c') ! poll_id c = pcs (pq c) ! poll_id c" "pcs (oq c') ! poll_id c = pcs (oq c) ! poll_id c"
    using assms(3) [of "poll_id c" True] assms(3) [of "poll_id c" False] id(2) by (simp_all add: queue_of_def)
  have "abs_adder c' j = abs_adder c j" if "j \<noteq> i" "j < length (iadders c)" for j
    using that assms(2) assms(3) [of j] by (simp add: abs_adder_def poll_id_def split: iadder.split)
  then have "map (abs_adder c') [0..<length (iadders c')] = (map (abs_adder c) [0..<length (iadders c)])[i := abs_adder c' i]"
    using assms(1,2) by (intro nth_equalityI) (auto simp: nth_list_update)
  then show ?thesis using poll id assms(4,5) by (simp add: abs_impl_def view_of_def)
qed

definition follows :: "bool \<Rightarrow> 't impl \<Rightarrow> 't impl \<Rightarrow> bool" where
  "follows blk c c' \<longleftrightarrow> impl_ok c' \<and> (abs_impl c' = abs_impl c \<or> wstep blk (abs_impl c) (abs_impl c'))"

lemma abs_adders: "i < length (iadders c) \<Longrightarrow> adders (abs_impl c) ! i = abs_adder c i"
  "length (adders (abs_impl c)) = length (iadders c)"
  by (simp_all add: abs_impl_def)

lemma abs_lists:
  "prior (abs_impl c) = map the (snapshot (shared (pq c)))" "ordinary (abs_impl c) = map the (snapshot (shared (oq c)))"
  "toTrig (abs_impl c) = itrig c" "counter (abs_impl c) = icounter c"
  by (simp_all add: abs_impl_def)

lemma sim_adder_out:
  assumes "impl_ok c" and "i < length (iadders c)" and "iadders c' = (iadders c)[i := a]"
    and "\<And>p. iadders c ! i \<noteq> IEnq p" and "\<And>p. a \<noteq> IEnq p"
    and "pq c' = pq c" and "oq c' = oq c" and "iran c' = iran c" and "ipc c' = ipc c"
  shows "impl_ok c'" "abs_impl c' = (abs_impl c)\<lparr>toTrig := itrig c', counter := icounter c',
     adders := (adders (abs_impl c))[i := abs_adder c' i]\<rparr>"
proof -
  have enq: "(iadders c' ! j = IEnq p) = (iadders c ! j = IEnq p)" for j p
    using assms(2-5) by (cases "j = i") auto
  then show "impl_ok c'" using assms by (simp add: impl_ok_def poll_id_def)
  have queues: "pcs (queue_of q c') ! j = pcs (queue_of q c) ! j" for q j
    using assms(6,7) by (simp add: queue_of_def)
  show "abs_impl c' = (abs_impl c)\<lparr>toTrig := itrig c', counter := icounter c',
     adders := (adders (abs_impl c))[i := abs_adder c' i]\<rparr>"
    unfolding abs_adder_step [OF assms(2,3) queues assms(8,9)]
    by (rule wake.equality) (simp_all add: assms(6,7) abs_lists)
qed

lemma impl_ok_queue: "impl_ok c \<Longrightarrow> queue_ok (\<lambda>j. iadders c ! j = IEnq p) (poll_id c) (queue_of p c)"
  by (cases p) (simp_all add: impl_ok_def queue_of_def)

text \<open>An adder's step inside one of the queues.\<close>

lemma queue_adder_step:
  assumes ok: "impl_ok c" and i: "i < length (iadders c)"
    and s': "queue_ok (\<lambda>j. (iadders c)[i := a] ! j = IEnq p) (poll_id c) s'" "Head (shared s') = Head (shared (queue_of p c))"
      "\<And>j. j \<noteq> i \<Longrightarrow> pcs s' ! j = pcs (queue_of p c) ! j"
    and a: "iadders c ! i \<noteq> IEnq (\<not> p)" "a \<noteq> IEnq (\<not> p)"
  defines "c' \<equiv> (set_queue p s' c)\<lparr>iadders := (iadders c)[i := a]\<rparr>"
  shows "impl_ok c'" "abs_impl c' = (abs_impl c)\<lparr>
      prior := (if p then map the (snapshot (shared s')) else prior (abs_impl c)),
      ordinary := (if p then ordinary (abs_impl c) else map the (snapshot (shared s'))),
      adders := (adders (abs_impl c))[i := abs_adder c' i]\<rparr>"
proof -
  have sel: "iadders c' = (iadders c)[i := a]" "itrig c' = itrig c" "icounter c' = icounter c" "iran c' = iran c"
      "ipc c' = ipc c" "poll_id c' = poll_id c" "queue_of p c' = s'" "queue_of (\<not> p) c' = queue_of (\<not> p) c"
    by (cases p; simp add: c'_def set_queue_def queue_of_def poll_id_def)+
  have queues: "pcs (queue_of q c') ! j = pcs (queue_of q c) ! j" if "j \<noteq> i" for q j
    using s'(3) [OF that] sel(7,8) by (cases p; cases q) simp_all
  have "(iadders c' ! j = IEnq (\<not> p)) = (iadders c ! j = IEnq (\<not> p))" for j
    using i a by (cases "j = i") (simp_all add: sel(1))
  then have other: "queue_ok (\<lambda>j. iadders c' ! j = IEnq (\<not> p)) (poll_id c) (queue_of (\<not> p) c)"
    using impl_ok_queue [OF ok, of "\<not> p"] by simp
  have "i < poll_id c" using i by (simp add: poll_id_def)
  then show "impl_ok c'"
    using ok other s' sel by (cases p) (simp_all add: impl_ok_def queue_of_def)
  have "abs_impl c' = (abs_impl c)\<lparr>prior := map the (snapshot (shared (pq c'))), ordinary := map the (snapshot (shared (oq c'))),
      toTrig := itrig c', counter := icounter c', adders := (adders (abs_impl c))[i := abs_adder c' i]\<rparr>"
    by (rule abs_adder_step [OF i sel(1) queues sel(4,5)])
  then show "abs_impl c' = (abs_impl c)\<lparr>
      prior := (if p then map the (snapshot (shared s')) else prior (abs_impl c)),
      ordinary := (if p then ordinary (abs_impl c) else map the (snapshot (shared s'))),
      adders := (adders (abs_impl c))[i := abs_adder c' i]\<rparr>"
    using sel(7,8) by (cases p) (auto simp: abs_lists sel(2,3) queue_of_def)
qed

lemma sim_enq_call:
  assumes ok: "impl_ok c" and i: "i < length (iadders c)" "iadders c ! i = IOut"
  shows "follows blk c ((set_queue p (q_call i (Enqueue t) (queue_of p c)) c)\<lparr>iadders := (iadders c)[i := IEnq p]\<rparr>)"
    (is "follows blk c ?c")
proof -
  let ?e = "\<lambda>j. iadders c ! j = IEnq p" and ?s = "q_call i (Enqueue t) (queue_of p c)"
  have q: "queue_ok ?e (poll_id c) (queue_of p c)" "i < poll_id c"
    using i(1) impl_ok_queue [OF ok] by (simp_all add: poll_id_def)
  have no: "\<not> ?e i" using i by simp
  note k = enq_call_ok [OF q no, where t = t]
  have upd: "queue_ok (\<lambda>j. (iadders c)[i := IEnq p] ! j = IEnq p) (poll_id c) ?s"
    using k(1) i by (subst queue_ok_cong [where enq' = "?e(i := True)"]) (auto simp: poll_id_def nth_list_update)
  note step = queue_adder_step [OF ok i(1) upd k(3,5)]
  have out: "abs_adder ?c i = Out" "adders (abs_impl c) ! i = Out"
    using k(4) i abs_adders(1) [OF i(1)] by (cases p; simp add: abs_adder_def set_queue_def queue_of_def)+
  have "abs_impl ?c = abs_impl c"
    unfolding step(2) [simplified i(2), simplified] k(2)
    using out by (intro wake.equality) (cases p; simp add: abs_lists queue_of_def list_update_same_conv abs_adders(2) i(1))+
  then show ?thesis using step(1) i(2) by (simp add: follows_def)
qed

lemma sim_enq_run:
  assumes ok: "impl_ok c" and i: "i < length (iadders c)" "iadders c ! i = IEnq p"
  defines "s' \<equiv> q_run i (queue_of p c)"
  shows "follows blk c ((set_queue p s' c)\<lparr>iadders := (iadders c)[i := if pcs s' ! i = Finished EnqDone then ICounted else IEnq p]\<rparr>)"
proof -
  let ?e = "\<lambda>j. iadders c ! j = IEnq p" and ?q = "queue_of p c"
  have q: "queue_ok ?e (poll_id c) ?q" "i < poll_id c"
    using i(1) impl_ok_queue [OF ok] by (simp_all add: poll_id_def)
  have yes: "?e i" using i by simp
  note k = enq_run_ok [OF q yes, folded s'_def]
  have neq: "iadders c ! i \<noteq> IEnq (\<not> p)" using i by simp
  have len: "length (adders (abs_impl c)) = length (iadders c)" by (rule abs_adders(2))
  have old: "adders (abs_impl c) ! i = (if pending (pcs ?q ! i) = 1 then Linked p else Out)"
    using abs_adders(1) [OF i(1)] i(2) by (simp add: abs_adder_def)
  show ?thesis
  proof (cases "pcs s' ! i = Finished EnqDone")
    case True
    let ?c = "(set_queue p s' c)\<lparr>iadders := (iadders c)[i := ICounted]\<rparr>"
    have f: "queue_ok (?e(i := False)) (poll_id c) s'" "snapshot (shared s') = snapshot (shared ?q)" "pending (pcs ?q ! i) = 1"
      using k(3) True by auto
    have upd: "queue_ok (\<lambda>j. (iadders c)[i := ICounted] ! j = IEnq p) (poll_id c) s'"
      using f(1) i by (subst queue_ok_cong [where enq' = "?e(i := False)"]) (auto simp: poll_id_def nth_list_update)
    note step = queue_adder_step [OF ok i(1) upd k(1,2) neq]
    have "abs_adder ?c i = Counted" using i by (simp add: abs_adder_def)
    then have "abs_impl ?c = (abs_impl c)\<lparr>adders := (adders (abs_impl c))[i := Counted]\<rparr>"
      unfolding step(2) [simplified] f(2) by (intro wake.equality) (cases p; simp add: abs_lists queue_of_def)+
    moreover have "wstep blk (abs_impl c) ((abs_impl c)\<lparr>adders := (adders (abs_impl c))[i := Counted]\<rparr>)"
      by (rule wstep.count) (use i old f(3) len in auto)
    ultimately show ?thesis using step(1) True by (simp add: follows_def)
  next
    case False
    let ?c = "(set_queue p s' c)\<lparr>iadders := (iadders c)[i := IEnq p]\<rparr>"
    have f: "queue_ok ?e (poll_id c) s'" "snapshot (shared s') = snapshot (shared ?q) \<and> pending (pcs s' ! i) = pending (pcs ?q ! i) \<or>
        (\<exists>v. snapshot (shared s') = snapshot (shared ?q) @ [v]) \<and> pending (pcs ?q ! i) = 0 \<and> pending (pcs s' ! i) = 1"
      using k(3) False by auto
    have same: "(iadders c)[i := IEnq p] = iadders c" using i by (simp add: list_update_same_conv)
    have "queue_ok (\<lambda>j. (iadders c)[i := IEnq p] ! j = IEnq p) (poll_id c) s'" using f(1) unfolding same .
    note step = queue_adder_step [OF ok i(1) this k(1,2) neq]
    have new: "abs_adder ?c i = (if pending (pcs s' ! i) = 1 then Linked p else Out)"
      using i by (cases p) (simp_all add: abs_adder_def set_queue_def queue_of_def)
    from f(2) have "abs_impl ?c = abs_impl c \<or> wstep blk (abs_impl c) (abs_impl ?c)"
    proof
      assume a: "snapshot (shared s') = snapshot (shared ?q) \<and> pending (pcs s' ! i) = pending (pcs ?q ! i)"
      then have "adders (abs_impl c) ! i = abs_adder ?c i" using new old by simp
      then have "abs_impl ?c = abs_impl c"
        unfolding step(2) [simplified] conjunct1 [OF a]
        by (intro wake.equality) (cases p; simp add: abs_lists queue_of_def list_update_same_conv len i(1))+
      then show ?thesis ..
    next
      assume a: "(\<exists>v. snapshot (shared s') = snapshot (shared ?q) @ [v]) \<and> pending (pcs ?q ! i) = 0 \<and> pending (pcs s' ! i) = 1"
      then obtain v where v: "snapshot (shared s') = snapshot (shared ?q) @ [v]" "abs_adder ?c i = Linked p"
          "adders (abs_impl c) ! i = Out" using new old by auto
      show ?thesis
      proof (cases p)
        case True
        have "abs_impl ?c = (abs_impl c)\<lparr>prior := prior (abs_impl c) @ [the v], adders := (adders (abs_impl c))[i := Linked True]\<rparr>"
          unfolding step(2) [simplified] v using True by (simp add: abs_lists queue_of_def)
        then show ?thesis using wstep.add_prior [of i "abs_impl c" blk "the v"] v(3) len i(1) by simp
      next
        case False
        have "abs_impl ?c = (abs_impl c)\<lparr>ordinary := ordinary (abs_impl c) @ [the v], adders := (adders (abs_impl c))[i := Linked False]\<rparr>"
          unfolding step(2) [simplified] v using False by (simp add: abs_lists queue_of_def)
        then show ?thesis using wstep.add_task [of i "abs_impl c" blk "the v"] v(3) len i(1) by simp
      qed
    qed
    then show ?thesis using step(1) False by (simp add: follows_def)
  qed
qed


text \<open>The poll goroutine's steps inside a queue leave the adders as they are.\<close>

lemma poll_step:
  assumes ok: "impl_ok c" and sel: "queue_of p c' = s'" "queue_of (\<not> p) c' = queue_of (\<not> p) c" "iadders c' = iadders c"
    and s': "queue_ok (\<lambda>j. iadders c ! j = IEnq p) (poll_id c) s'"
      "\<And>j. j \<noteq> poll_id c \<Longrightarrow> pcs s' ! j = pcs (queue_of p c) ! j"
    and ins: "poll_in (drains_prior (ipc c')) (looks_prior (ipc c')) (Head (shared (pq c'))) (pcs (pq c') ! poll_id c)"
      "poll_in (drains_tasks (ipc c')) (looks_tasks (ipc c')) (Head (shared (oq c'))) (pcs (oq c') ! poll_id c)"
  shows "impl_ok c'" "adders (abs_impl c') = adders (abs_impl c)" "poll_id c' = poll_id c"
proof -
  show id: "poll_id c' = poll_id c" by (simp add: poll_id_def sel(3))
  show "impl_ok c'"
    using impl_ok_queue [OF ok, of p] impl_ok_queue [OF ok, of "\<not> p"] sel s'(1) ins
    by (cases p) (simp_all add: impl_ok_def queue_of_def id)
  have "pcs (queue_of q c') ! j = pcs (queue_of q c) ! j" if "j < poll_id c" for q j
    using s'(2) [of j] sel(1,2) that by (cases p; cases q) simp_all
  then show "adders (abs_impl c') = adders (abs_impl c)"
    by (auto simp: abs_impl_def abs_adder_def sel(3) poll_id_def split: iadder.split)
qed

lemma consuming_not_rest: "consuming hp p \<Longrightarrow> \<not> at_rest p \<and> p \<noteq> Empty_load"
  by (cases p) auto

lemma consuming_after: "consuming hp p \<Longrightarrow> after_prior rest p c = c \<and> after_task k rest p c = c"
  by (cases p) (auto simp: after_prior_def after_task_def)

lemma abs_more: "ran (abs_impl c) = iran c @ snd (view_of c)" "pc (abs_impl c) = fst (view_of c)"
  by (simp_all add: abs_impl_def)

lemma sim_prior_call:
  assumes ok: "impl_ok c" and at: "ipc c = DrainPrior rest" "at_rest (pcs (pq c) ! poll_id c)"
  shows "follows blk c (c\<lparr>pq := q_call (poll_id c) Dequeue (pq c)\<rparr>)"
proof -
  let ?s = "q_call (poll_id c) Dequeue (pq c)" and ?c = "c\<lparr>pq := q_call (poll_id c) Dequeue (pq c)\<rparr>"
  have q: "queue_ok (\<lambda>j. iadders c ! j = IEnq True) (poll_id c) (pq c)" using ok by (simp add: impl_ok_def)
  note k = poll_call_ok [OF q at(2), of Dequeue, simplified]
  have oq: "poll_in False False (Head (shared (oq c))) (pcs (oq c) ! poll_id c)" using ok at(1) by (simp add: impl_ok_def)
  have step: "impl_ok ?c" "adders (abs_impl ?c) = adders (abs_impl c)" "poll_id ?c = poll_id c"
    by (rule poll_step [OF ok, of True _ ?s]; use k at(1) oq in \<open>simp add: queue_of_def poll_in_def\<close>)+
  have "view_of ?c = view_of c" using at k at_rest_facts [OF at(2)] by (simp add: view_of_def step(3))
  then have "abs_impl ?c = abs_impl c" using step(2) k by (intro wake.equality) (simp_all add: abs_lists abs_more)
  then show ?thesis using step(1) by (simp add: follows_def)
qed

lemma sim_prior_run:
  assumes ok: "impl_ok c" and at: "ipc c = DrainPrior rest" "\<not> at_rest (pcs (pq c) ! poll_id c)"
  defines "s' \<equiv> q_run (poll_id c) (pq c)"
  shows "follows blk c (after_prior rest (pcs s' ! poll_id c) (c\<lparr>pq := s'\<rparr>))" (is "follows blk c ?c")
proof -
  have q: "queue_ok (\<lambda>j. iadders c ! j = IEnq True) (poll_id c) (pq c)"
      "consuming (Head (shared (pq c))) (pcs (pq c) ! poll_id c)"
    using ok at by (auto simp: impl_ok_def poll_in_def)
  note k = poll_run_ok [OF q, folded s'_def]
  have oq: "at_rest (pcs (oq c) ! poll_id c)" using ok at(1) by (simp add: impl_ok_def poll_in_def)
  have sel: "queue_of True ?c = s'" "queue_of (\<not> True) ?c = queue_of (\<not> True) c" "iadders ?c = iadders c"
      "itrig ?c = itrig c" "icounter ?c = icounter c"
    by (simp_all add: after_prior_def queue_of_def split: pc.split result.split option.split)
  have "at_rest (pcs s' ! poll_id c) \<or> consuming (Head (shared s')) (pcs s' ! poll_id c)"
    using k(3) by (auto split: found.splits)
  then have in_or_out: "at_rest (pcs s' ! poll_id c) \<or> consuming (Head (shared s')) (pcs s' ! poll_id c) \<and> ?c = c\<lparr>pq := s'\<rparr>"
    using consuming_after [of "Head (shared s')" "pcs s' ! poll_id c"] by blast
  have ins: "poll_in (drains_prior (ipc ?c)) (looks_prior (ipc ?c)) (Head (shared (pq ?c))) (pcs (pq ?c) ! poll_id c)"
      "poll_in (drains_tasks (ipc ?c)) (looks_tasks (ipc ?c)) (Head (shared (oq ?c))) (pcs (oq ?c) ! poll_id c)"
    using sel(1,2) oq at(1) in_or_out unfolding queue_of_def by (auto simp: poll_in_def)
  note step = poll_step [OF ok sel(1-3) _ _ ins, simplified queue_of_def, simplified, OF k(1,2)]
  have lists: "prior (abs_impl ?c) = map the (snapshot (shared s'))" "ordinary (abs_impl ?c) = ordinary (abs_impl c)"
      "toTrig (abs_impl ?c) = toTrig (abs_impl c)" "counter (abs_impl ?c) = counter (abs_impl c)"
    using sel by (simp_all add: abs_lists queue_of_def)
  have busy: "deq_view (pcs (oq c) ! poll_id c) = Busy" using at_rest_facts [OF oq] by simp
  have "abs_impl ?c = abs_impl c \<or> wstep blk (abs_impl c) (abs_impl ?c)"
  proof (cases "deq_view (pcs (pq c) ! poll_id c)")
    case SawNil
    then have "pcs s' ! poll_id c = Finished (DeqDone None)" "snapshot (shared s') = snapshot (shared (pq c))"
      using k(3) by simp_all
    then have "abs_impl ?c = abs_impl c"
      using SawNil at(1) lists step(2,3) busy
      by (intro wake.equality) (simp_all add: abs_lists abs_more view_of_def after_prior_def MaxTasks_def)
    then show ?thesis ..
  next
    case (Got v)
    then have "pcs s' ! poll_id c = Finished (DeqDone (Some v))" "snapshot (shared s') = snapshot (shared (pq c))"
      using k(3) by simp_all
    then have "abs_impl ?c = abs_impl c"
      using Got at(1) lists step(2,3) busy
      by (intro wake.equality) (simp_all add: abs_lists abs_more view_of_def after_prior_def)
    then show ?thesis ..
  next
    case Busy
    then have r: "consuming (Head (shared s')) (pcs s' ! poll_id c)"
        "case deq_view (pcs s' ! poll_id c) of
           Got v \<Rightarrow> snapshot (shared (pq c)) = Some v # snapshot (shared s')
         | SawNil \<Rightarrow> snapshot (shared (pq c)) = [] \<and> snapshot (shared s') = []
         | Busy \<Rightarrow> snapshot (shared s') = snapshot (shared (pq c))"
      using k(3) by simp_all
    have c: "?c = c\<lparr>pq := s'\<rparr>"
      using consuming_after [OF r(1)] by simp
    have old: "pc (abs_impl c) = DrainPrior rest" "ran (abs_impl c) = iran c"
      using Busy at(1) by (simp_all add: abs_more view_of_def)
    show ?thesis
    proof (cases "deq_view (pcs s' ! poll_id c)")
      case n: Busy
      then have "abs_impl ?c = abs_impl c"
        using Busy at(1) lists step(2,3) r(2)
        by (intro wake.equality) (simp_all add: abs_lists abs_more view_of_def c)
      then show ?thesis ..
    next
      case n: (Got v)
      then have "prior (abs_impl c) = v # map the (snapshot (shared s'))" using r(2) by (simp add: abs_lists)
      moreover have "abs_impl ?c = (abs_impl c)\<lparr>prior := map the (snapshot (shared s')), ran := ran (abs_impl c) @ [v]\<rparr>"
        using n old at(1) lists step(2,3) by (intro wake.equality) (simp_all add: abs_more view_of_def c)
      ultimately show ?thesis using wstep.prior_next [OF old(1)] by metis
    next
      case n: SawNil
      then have e: "prior (abs_impl c) = []" "map the (snapshot (shared s')) = []" using r(2) by (simp_all add: abs_lists)
      moreover have "abs_impl ?c = (abs_impl c)\<lparr>pc := DrainTasks MaxTasks rest\<rparr>"
        using n old at(1) lists step(2,3) e by (intro wake.equality) (simp_all add: abs_more view_of_def c)
      ultimately show ?thesis using wstep.prior_done [OF old(1) e(1), of blk] by simp
    qed
  qed
  then show ?thesis using step(1) by (simp add: follows_def)
qed

lemma sim_task_call:
  assumes ok: "impl_ok c" and at: "ipc c = DrainTasks (Suc k) rest" "at_rest (pcs (oq c) ! poll_id c)"
  shows "follows blk c (c\<lparr>oq := q_call (poll_id c) Dequeue (oq c)\<rparr>)"
proof -
  let ?s = "q_call (poll_id c) Dequeue (oq c)" and ?c = "c\<lparr>oq := q_call (poll_id c) Dequeue (oq c)\<rparr>"
  have q: "queue_ok (\<lambda>j. iadders c ! j = IEnq False) (poll_id c) (oq c)" using ok by (simp add: impl_ok_def)
  note k = poll_call_ok [OF q at(2), of Dequeue, simplified]
  have pq: "poll_in False False (Head (shared (pq c))) (pcs (pq c) ! poll_id c)" using ok at(1) by (simp add: impl_ok_def)
  have step: "impl_ok ?c" "adders (abs_impl ?c) = adders (abs_impl c)" "poll_id ?c = poll_id c"
    by (rule poll_step [OF ok, of False _ ?s]; use k at(1) pq in \<open>simp add: queue_of_def poll_in_def\<close>)+
  have "view_of ?c = view_of c" using at k at_rest_facts [OF at(2)] by (simp add: view_of_def step(3))
  then have "abs_impl ?c = abs_impl c" using step(2) k by (intro wake.equality) (simp_all add: abs_lists abs_more)
  then show ?thesis using step(1) by (simp add: follows_def)
qed

lemma sim_task_run:
  assumes ok: "impl_ok c" and at: "ipc c = DrainTasks (Suc k) rest" "\<not> at_rest (pcs (oq c) ! poll_id c)"
  defines "s' \<equiv> q_run (poll_id c) (oq c)"
  shows "follows blk c (after_task k rest (pcs s' ! poll_id c) (c\<lparr>oq := s'\<rparr>))" (is "follows blk c ?c")
proof -
  have q: "queue_ok (\<lambda>j. iadders c ! j = IEnq False) (poll_id c) (oq c)"
      "consuming (Head (shared (oq c))) (pcs (oq c) ! poll_id c)"
    using ok at by (auto simp: impl_ok_def poll_in_def)
  note k = poll_run_ok [OF q, folded s'_def]
  have pq: "at_rest (pcs (pq c) ! poll_id c)" using ok at(1) by (simp add: impl_ok_def poll_in_def)
  have sel: "queue_of False ?c = s'" "queue_of (\<not> False) ?c = queue_of (\<not> False) c" "iadders ?c = iadders c"
      "itrig ?c = itrig c" "icounter ?c = icounter c"
    by (simp_all add: after_task_def queue_of_def split: pc.split result.split option.split)
  have "at_rest (pcs s' ! poll_id c) \<or> consuming (Head (shared s')) (pcs s' ! poll_id c)"
    using k(3) by (auto split: found.splits)
  then have in_or_out: "at_rest (pcs s' ! poll_id c) \<or> consuming (Head (shared s')) (pcs s' ! poll_id c) \<and> ?c = c\<lparr>oq := s'\<rparr>"
    using consuming_after [of "Head (shared s')" "pcs s' ! poll_id c"] by blast
  have ins: "poll_in (drains_prior (ipc ?c)) (looks_prior (ipc ?c)) (Head (shared (pq ?c))) (pcs (pq ?c) ! poll_id c)"
      "poll_in (drains_tasks (ipc ?c)) (looks_tasks (ipc ?c)) (Head (shared (oq ?c))) (pcs (oq ?c) ! poll_id c)"
    using sel(1,2) pq at(1) in_or_out unfolding queue_of_def by (auto simp: poll_in_def)
  note step = poll_step [OF ok sel(1-3) _ _ ins, simplified queue_of_def, simplified, OF k(1,2)]
  have lists: "prior (abs_impl ?c) = prior (abs_impl c)" "ordinary (abs_impl ?c) = map the (snapshot (shared s'))"
      "toTrig (abs_impl ?c) = toTrig (abs_impl c)" "counter (abs_impl ?c) = counter (abs_impl c)"
    using sel by (simp_all add: abs_lists queue_of_def)
  have busy: "deq_view (pcs (pq c) ! poll_id c) = Busy" using at_rest_facts [OF pq] by simp
  have "abs_impl ?c = abs_impl c \<or> wstep blk (abs_impl c) (abs_impl ?c)"
  proof (cases "deq_view (pcs (oq c) ! poll_id c)")
    case SawNil
    then have "pcs s' ! poll_id c = Finished (DeqDone None)" "snapshot (shared s') = snapshot (shared (oq c))"
      using k(3) by simp_all
    then have "abs_impl ?c = abs_impl c"
      using SawNil at(1) lists step(2,3) busy
      by (intro wake.equality) (simp_all add: abs_lists abs_more view_of_def after_task_def)
    then show ?thesis ..
  next
    case (Got v)
    then have "pcs s' ! poll_id c = Finished (DeqDone (Some v))" "snapshot (shared s') = snapshot (shared (oq c))"
      using k(3) by simp_all
    then have "abs_impl ?c = abs_impl c"
      using Got at(1) lists step(2,3) busy
      by (intro wake.equality) (simp_all add: abs_lists abs_more view_of_def after_task_def)
    then show ?thesis ..
  next
    case Busy
    then have r: "consuming (Head (shared s')) (pcs s' ! poll_id c)"
        "case deq_view (pcs s' ! poll_id c) of
           Got v \<Rightarrow> snapshot (shared (oq c)) = Some v # snapshot (shared s')
         | SawNil \<Rightarrow> snapshot (shared (oq c)) = [] \<and> snapshot (shared s') = []
         | Busy \<Rightarrow> snapshot (shared s') = snapshot (shared (oq c))"
      using k(3) by simp_all
    have c: "?c = c\<lparr>oq := s'\<rparr>"
      using consuming_after [OF r(1)] by simp
    have old: "pc (abs_impl c) = DrainTasks (Suc k) rest" "ran (abs_impl c) = iran c"
      using Busy at(1) by (simp_all add: abs_more view_of_def)
    show ?thesis
    proof (cases "deq_view (pcs s' ! poll_id c)")
      case n: Busy
      then have "abs_impl ?c = abs_impl c"
        using Busy at(1) lists step(2,3) r(2)
        by (intro wake.equality) (simp_all add: abs_lists abs_more view_of_def c)
      then show ?thesis ..
    next
      case n: (Got v)
      then have "ordinary (abs_impl c) = v # map the (snapshot (shared s'))" using r(2) by (simp add: abs_lists)
      moreover have "abs_impl ?c = (abs_impl c)\<lparr>ordinary := map the (snapshot (shared s')), ran := ran (abs_impl c) @ [v], pc := DrainTasks k rest\<rparr>"
        using n old at(1) lists step(2,3) by (intro wake.equality) (simp_all add: abs_more view_of_def c)
      ultimately show ?thesis using wstep.tasks_next [OF old(1)] by metis
    next
      case n: SawNil
      then have e: "ordinary (abs_impl c) = []" "map the (snapshot (shared s')) = []" using r(2) by (simp_all add: abs_lists)
      moreover have "abs_impl ?c = (abs_impl c)\<lparr>pc := StoreZero rest\<rparr>"
        using n old at(1) lists step(2,3) e by (intro wake.equality) (simp_all add: abs_more view_of_def c)
      ultimately show ?thesis using wstep.tasks_done [OF old(1), of blk] e(1) by simp
    qed
  qed
  then show ?thesis using step(1) by (simp add: follows_def)
qed

lemma poll_look_ok:
  assumes "queue_ok enq n s" and "pcs s ! n = Empty_load"
  defines "s' \<equiv> q_run n s"
  shows "queue_ok enq n s'" "shared s' = shared s" "pcs s' ! n = Finished (EmptyDone (Length (shared s) = 0))"
    "j \<noteq> n \<Longrightarrow> pcs s' ! j = pcs s ! j"
proof -
  have old: "n < length (pcs s)" "represents s (snapshot (shared s))" "None \<notin> set (snapshot (shared s))"
      "\<not> at_rest (pcs s ! n)"
    using assms(1,2) by (auto simp: queue_ok_def)
  have st: "tstep (shared s) (pcs s ! n) = (Tau, shared s, Finished (EmptyDone (Length (shared s) = 0)))"
    using assms(2) by simp
  note c = q_run_step [OF old(1,4) st old(2), folded s'_def]
  then show "shared s' = shared s" "pcs s' ! n = Finished (EmptyDone (Length (shared s) = 0))"
      "j \<noteq> n \<Longrightarrow> pcs s' ! j = pcs s ! j"
    using old(1) by auto
  show "queue_ok enq n s'"
    using queue_ok_update [OF assms(1), of n s'] c old(3) by simp
qed

lemma uncounted_abs:
  "uncounted p (abs_impl c) =
     length (filter (\<lambda>i. iadders c ! i = IEnq p \<and> pending (pcs (queue_of p c) ! i) = 1) [0..<poll_id c])"
proof -
  have "(abs_adder c i = Linked p) = (iadders c ! i = IEnq p \<and> pending (pcs (queue_of p c) ! i) = 1)" for i
    by (cases "iadders c ! i"; cases p) (auto simp: abs_adder_def)
  then show ?thesis by (simp add: uncounted_def abs_impl_def filter_map comp_def poll_id_def)
qed

text \<open>What \<open>IsEmpty\<close> reads is what the abstract protocol looks at.\<close>

lemma look_abs:
  assumes "impl_ok c" and "fits c" and "pcs (queue_of p c) ! poll_id c = Empty_load"
  shows "Length (shared (queue_of p c)) = 0 \<longleftrightarrow> seen_empty p (abs_impl c)"
proof -
  have "length (snapshot (shared (queue_of p c))) < 2 ^ 31" "poll_id c < 2 ^ 31"
    using assms(2) by (auto simp: fits_def queue_of_def poll_id_def)
  moreover have "length (snapshot (shared (queue_of p c))) = length (if p then prior (abs_impl c) else ordinary (abs_impl c))"
    by (simp add: abs_lists queue_of_def)
  ultimately show ?thesis
    using look_exact [OF impl_ok_queue [OF assms(1), of p]] assms(3) by (simp add: seen_empty_def uncounted_abs)
qed

lemma view_idle:
  assumes "impl_ok c" and "\<not> drains_prior (ipc c)" and "\<not> drains_tasks (ipc c)"
  shows "view_of c = (ipc c, [])"
proof -
  have "deq_view (pcs (pq c) ! poll_id c) = Busy" "deq_view (pcs (oq c) ! poll_id c) = Busy"
    using assms poll_in_rest by (auto simp: impl_ok_def)
  then show ?thesis by (simp add: view_of_def)
qed

lemma sim_look_call:
  assumes ok: "impl_ok c" and at: "if p then looks_prior (ipc c) else looks_tasks (ipc c)"
    "at_rest (pcs (queue_of p c) ! poll_id c)"
  shows "follows blk c (set_queue p (q_call (poll_id c) IsEmpty (queue_of p c)) c)"
proof -
  let ?s = "q_call (poll_id c) IsEmpty (queue_of p c)" and ?c = "set_queue p (q_call (poll_id c) IsEmpty (queue_of p c)) c"
  note k = poll_call_ok [OF impl_ok_queue [OF ok] at(2), of IsEmpty, simplified]
  have sel: "queue_of p ?c = ?s" "queue_of (\<not> p) ?c = queue_of (\<not> p) c" "iadders ?c = iadders c" "ipc ?c = ipc c"
      "itrig ?c = itrig c" "icounter ?c = icounter c" "iran ?c = iran c"
    by (cases p; simp add: set_queue_def queue_of_def)+
  have nd: "\<not> drains_prior (ipc c)" "\<not> drains_tasks (ipc c)" using at(1) by (cases "ipc c"; simp split: if_splits)+
  have rest: "poll_in (drains_prior (ipc c)) (looks_prior (ipc c)) (Head (shared (pq c))) (pcs (pq c) ! poll_id c)"
      "poll_in (drains_tasks (ipc c)) (looks_tasks (ipc c)) (Head (shared (oq c))) (pcs (oq c) ! poll_id c)"
    using ok by (simp_all add: impl_ok_def)
  have ins: "poll_in (drains_prior (ipc ?c)) (looks_prior (ipc ?c)) (Head (shared (pq ?c))) (pcs (pq ?c) ! poll_id c)"
      "poll_in (drains_tasks (ipc ?c)) (looks_tasks (ipc ?c)) (Head (shared (oq ?c))) (pcs (oq ?c) ! poll_id c)"
    using sel at(1) rest k by (cases p; auto simp: poll_in_def queue_of_def)+
  note step = poll_step [OF ok sel(1-3) k(1,4) ins]
  have "abs_impl ?c = abs_impl c"
    using step(2) k(2) sel view_idle [OF ok nd] view_idle [OF step(1)] nd
    by (intro wake.equality) (cases p; simp add: abs_lists abs_more queue_of_def)+
  then show ?thesis using step(1) by (simp add: follows_def)
qed

lemma sim_look_run:
  assumes ok: "impl_ok c" and fits: "fits c" and at: "\<not> at_rest (pcs (queue_of p c) ! poll_id c)"
    and loop: "if p then ipc c = LookPrior rest \<and> next = Batch rest False else ipc c = LookTasks rest \<and> next = LookPrior rest"
  defines "s' \<equiv> q_run (poll_id c) (queue_of p c)"
  shows "follows blk c (after_look next rest (pcs s' ! poll_id c) (set_queue p s' c))" (is "follows blk c ?c")
proof -
  have e: "pcs (queue_of p c) ! poll_id c = Empty_load"
    using ok at loop by (cases p) (auto simp: impl_ok_def queue_of_def poll_in_def)
  note k = poll_look_ok [OF impl_ok_queue [OF ok] e, folded s'_def]
  let ?b = "seen_empty p (abs_impl c)"
  have b: "pcs s' ! poll_id c = Finished (EmptyDone ?b)" using k(3) look_abs [OF ok fits e] by simp
  have c: "?c = (set_queue p s' c)\<lparr>ipc := if ?b then next else Rearm rest\<rparr>" by (simp add: b after_look_def)
  have sel: "queue_of p ?c = s'" "queue_of (\<not> p) ?c = queue_of (\<not> p) c" "iadders ?c = iadders c"
      "itrig ?c = itrig c" "icounter ?c = icounter c" "iran ?c = iran c"
    unfolding c by (cases p; simp add: set_queue_def queue_of_def)+
  have ipc: "ipc ?c = (if ?b then next else Rearm rest)" unfolding c by simp
  have nd: "\<not> drains_prior (ipc c)" "\<not> drains_tasks (ipc c)" "\<not> drains_prior (ipc ?c)" "\<not> drains_tasks (ipc ?c)"
    using loop unfolding ipc by (auto split: if_splits)
  have other: "at_rest (pcs (queue_of (\<not> p) c) ! poll_id c)"
    using ok loop by (cases p) (auto simp: impl_ok_def queue_of_def poll_in_def)
  have "at_rest (pcs (pq ?c) ! poll_id c)" "at_rest (pcs (oq ?c) ! poll_id c)"
    using sel(1,2) b other by (cases p; simp add: queue_of_def)+
  then have ins: "poll_in (drains_prior (ipc ?c)) (looks_prior (ipc ?c)) (Head (shared (pq ?c))) (pcs (pq ?c) ! poll_id c)"
      "poll_in (drains_tasks (ipc ?c)) (looks_tasks (ipc ?c)) (Head (shared (oq ?c))) (pcs (oq ?c) ! poll_id c)"
    by (simp_all add: poll_in_def)
  note step = poll_step [OF ok sel(1-3) k(1,4) ins]
  have abs: "abs_impl ?c = (abs_impl c)\<lparr>pc := if ?b then next else Rearm rest\<rparr>"
    using step(2) k(2) sel view_idle [OF ok nd(1,2)] view_idle [OF step(1) nd(3,4)] ipc
    by (intro wake.equality) (cases p; simp add: abs_lists abs_more queue_of_def)+
  have old: "pc (abs_impl c) = ipc c" using view_idle [OF ok nd(1,2)] by (simp add: abs_more)
  have "wstep blk (abs_impl c) (abs_impl ?c)"
    unfolding abs using loop old wstep.look_prior [of "abs_impl c" rest blk] wstep.look_tasks [of "abs_impl c" rest blk]
    by (cases p; cases "seen_empty p (abs_impl c)") simp_all
  then show ?thesis using step(1) by (simp add: follows_def)
qed

text \<open>A step of the poll goroutine between the queues is the abstract step.\<close>

lemma sim_control:
  fixes c :: "'t impl"
  assumes ok: "impl_ok c" and c': "pq c' = pq c" "oq c' = oq c" "iadders c' = iadders c" "iran c' = iran c"
    and out: "\<not> drains_prior (ipc c)" "\<not> drains_tasks (ipc c)" "\<not> looks_prior (ipc c)" "\<not> looks_tasks (ipc c)"
    and step: "\<And>s :: 't wake. ipc c = pc s \<Longrightarrow> itrig c = toTrig s \<Longrightarrow> icounter c = counter s \<Longrightarrow>
      wstep blk s (s\<lparr>toTrig := itrig c', counter := icounter c', pc := ipc c'\<rparr>)"
  shows "follows blk c c'"
proof -
  have "wstep blk (abs_impl c) (abs_impl c')"
    unfolding abs_control [OF ok out(1,2) c']
    by (rule step) (simp_all add: abs_lists abs_more view_idle [OF ok out(1,2)])
  then show ?thesis using ok_control [OF ok c'(1-3) out] by (simp add: follows_def)
qed

lemma sim_adder:
  fixes c :: "'t impl"
  assumes ok: "impl_ok c" and i: "i < length (iadders c)"
    and c': "pq c' = pq c" "oq c' = oq c" "iadders c' = (iadders c)[i := a]" "iran c' = iran c" "ipc c' = ipc c"
    and out: "\<And>p. iadders c ! i \<noteq> IEnq p" "\<And>p. a \<noteq> IEnq p"
    and step: "\<And>s :: 't wake. i < length (adders s) \<Longrightarrow> adders s ! i = abs_adder c i \<Longrightarrow> itrig c = toTrig s \<Longrightarrow> icounter c = counter s \<Longrightarrow>
      wstep blk s (s\<lparr>toTrig := itrig c', counter := icounter c', adders := (adders s)[i := abs_adder c' i]\<rparr>)"
  shows "follows blk c c'"
proof -
  note a = sim_adder_out [OF ok i c'(3) out c'(1,2,4,5)]
  have "wstep blk (abs_impl c) (abs_impl c')"
    unfolding a(2) by (rule step) (simp_all add: abs_adders i abs_lists)
  then show ?thesis using a(1) by (simp add: follows_def)
qed

text \<open>Every step keeps the invariant and is a step of \<open>Wakeup\<close> or none.\<close>

lemma wake_same:
  fixes s :: "'t wake"
  shows "s\<lparr>toTrig := toTrig s\<rparr> = s" "s\<lparr>counter := counter s\<rparr> = s" "s\<lparr>pc := pc s\<rparr> = s"
  by simp_all

lemma wstep_to: "wstep blk s s' \<Longrightarrow> s' = s'' \<Longrightarrow> wstep blk s s''"
  by simp

lemma cstep_follows: "cstep blk c c' \<Longrightarrow> impl_ok c \<Longrightarrow> fits c \<Longrightarrow> follows blk c c'"
proof (induction rule: cstep.induct)
  case (enq_call i c p t)
  then show ?case by (intro sim_enq_call)
next
  case (enq_run i c p s')
  then show ?case using sim_enq_run [of c i p blk] by simp
next
  case (icas_won i c)
  then show ?case
    by (intro sim_adder [of c i _ IWon]) (auto simp: abs_adder_def intro: wstep.cas_won [where i = i])
next
  case (icas_lost i c)
  then show ?case
    by (intro sim_adder [of c i _ IOut]) (auto simp: abs_adder_def intro: wstep.cas_lost [where i = i])
next
  case (itrigger i c)
  then show ?case
    by (intro sim_adder [of c i _ IOut]) (auto simp: abs_adder_def intro: wstep.trigger [where i = i, simplified])
next
  case (prior_call c rest)
  then show ?case by (intro sim_prior_call)
next
  case (prior_run c rest s')
  then show ?case using sim_prior_run [of c rest blk] by simp
next
  case (task_call c k rest)
  then show ?case by (intro sim_task_call)
next
  case (task_run c k rest s')
  then show ?case using sim_task_run [of c k rest blk] by simp
next
  case (look_tasks_call c rest)
  then show ?case using sim_look_call [of c False blk] by (simp add: set_queue_def queue_of_def)
next
  case (look_tasks_run c rest s')
  then show ?case using sim_look_run [of c False rest _ blk] by (simp add: set_queue_def queue_of_def)
next
  case (look_prior_call c rest)
  then show ?case using sim_look_call [of c True blk] by (simp add: set_queue_def queue_of_def)
next
  case (look_prior_run c rest s')
  then show ?case using sim_look_run [of c True rest _ blk] by (simp add: set_queue_def queue_of_def)
next
  case (ievents c tr evs)
  then show ?case by (intro sim_control) (auto intro: wstep_to [OF wstep.events])
next
  case (ibatch_end c tr)
  then show ?case by (intro sim_control) (auto intro: wstep_to [OF wstep.batch_end])
next
  case (ievent_wake c rest tr)
  then show ?case by (intro sim_control) (auto intro: wstep_to [OF wstep.event_wake])
next
  case (ievent_conn c rest tr)
  then show ?case by (intro sim_control) (auto intro: wstep_to [OF wstep.event_conn])
next
  case (icall_idle c ev rest)
  then show ?case by (intro sim_control) (auto intro: wstep_to [OF wstep.call_idle])
next
  case (icall_drain c ev rest)
  then show ?case by (intro sim_control) (auto intro: wstep_to [OF wstep.call_drain])
next
  case (task_limit c rest)
  then show ?case by (intro sim_control) (auto intro: wstep_to [OF wstep.tasks_done])
next
  case (istop c rest)
  then show ?case by (intro sim_control) (auto intro: wstep_to [OF wstep.stop])
next
  case (istore_zero c rest)
  then show ?case by (intro sim_control) (auto intro: wstep_to [OF wstep.store_zero])
next
  case (irearm c rest)
  then show ?case by (intro sim_control) (auto intro: wstep_to [OF wstep.rearm])
next
  case (isignal c rest tr)
  then show ?case by (intro sim_control) (auto intro: wstep_to [OF wstep.signal])
next
  case (ifatal c rest tr)
  then show ?case by (intro sim_control) (auto intro: wstep_to [OF wstep.fatal])
qed

section \<open>The initial state\<close>

lemma init_snapshot: "snapshot (shared (init_sys (Suc n))) = []"
  using represents_snapshot [OF represents_init] by (rule sym)

lemma init_queue_ok: "queue_ok (\<lambda>i. False) n (init_sys (Suc n))"
  using represents_init [of "Suc n"]
  by (simp add: queue_ok_def init_snapshot) (simp add: init_sys_def nth_Cons')

lemma init_queues:
  "pq (init_impl n) = init_sys (Suc n)" "oq (init_impl n) = init_sys (Suc n)"
  "iadders (init_impl n) = replicate n IOut" "ipc (init_impl n) = Waiting False" "poll_id (init_impl n) = n"
  by (simp_all add: init_impl_def poll_id_def)

lemma init_pcs: "i \<le> n \<Longrightarrow> pcs (init_sys (Suc n)) ! i = Idle"
  by (simp add: init_sys_def del: replicate.simps)

lemma init_adders_ok: "queue_ok (\<lambda>i. replicate n IOut ! i = IEnq p) n (init_sys (Suc n))"
  by (rule queue_ok_cong [THEN iffD1, OF _ init_queue_ok]) simp

lemma init_impl_ok: "impl_ok (init_impl n)"
  by (simp add: impl_ok_def init_queues init_pcs poll_in_def init_adders_ok)

lemma abs_init: "abs_impl (init_impl n) = init_wake n"
  by (simp add: abs_impl_def init_queues init_wake_def view_of_def init_pcs init_snapshot)
    (simp add: init_impl_def abs_adder_def list_eq_iff_nth_eq)

lemma abs_wake_last: "wake_last (ipc c) \<Longrightarrow> wake_last (pc (abs_impl c))"
  by (cases "(deq_view (pcs (pq c) ! poll_id c), deq_view (pcs (oq c) ! poll_id c), ipc c)" rule: loop_view.cases)
    (auto simp: abs_impl_def view_of_def split: found.splits)

section \<open>Runs\<close>

definition fit_step :: "bool \<Rightarrow> 't impl \<Rightarrow> 't impl \<Rightarrow> bool" where
  "fit_step blk c c' \<longleftrightarrow> cstep blk c c' \<and> fits c"

text \<open>Runs in which the event descriptor is the last event of every batch that has it.\<close>

definition good_cstep :: "bool \<Rightarrow> 't impl \<Rightarrow> 't impl \<Rightarrow> bool" where
  "good_cstep blk c c' \<longleftrightarrow> fit_step blk c c' \<and> wake_last (ipc c')"

lemma fit_step_follows: "fit_step blk c c' \<Longrightarrow> impl_ok c \<Longrightarrow> follows blk c c'"
  by (simp add: fit_step_def cstep_follows)

text \<open>
  C3. Runs of the wake-up protocol over the two lock-free queues, taking the atomic steps of
  \<open>Enqueue\<close>, \<open>Dequeue\<close> and \<open>IsEmpty\<close> one at a time in any interleaving of any number of adding goroutines
  with the poll goroutine, are runs of the protocol over two lists: each atomic step is one step of the abstract
  protocol or changes nothing in it, as long as there are fewer than \<open>2 ^ 31\<close> goroutines and queued tasks,
  so that the 32-bit task counters cannot read 0 after wrapping around.
\<close>

theorem impl_refines:
  assumes "(fit_step blk)\<^sup>*\<^sup>* (init_impl n) c"
  shows "impl_ok c \<and> (wstep blk)\<^sup>*\<^sup>* (init_wake n) (abs_impl c)"
  using assms
proof (induction rule: rtranclp_induct)
  case base
  show ?case by (simp add: init_impl_ok abs_init)
next
  case (step c c')
  then show ?case
    using fit_step_follows [of blk c c'] by (auto simp: follows_def intro: rtranclp.rtrancl_into_rtrancl)
qed

lemma good_refines:
  assumes "(good_cstep blk)\<^sup>*\<^sup>* (init_impl n) c"
  shows "impl_ok c \<and> (good_step blk)\<^sup>*\<^sup>* (init_wake n) (abs_impl c)"
  using assms
proof (induction rule: rtranclp_induct)
  case base
  show ?case by (simp add: init_impl_ok abs_init)
next
  case (step c c')
  then have "follows blk c c'" "wake_last (ipc c')" by (simp_all add: good_cstep_def fit_step_follows)
  moreover have "wake_last (pc (abs_impl c'))" using abs_wake_last [OF \<open>wake_last (ipc c')\<close>] .
  ultimately show ?case
    using step.IH by (auto simp: follows_def good_step_def intro: rtranclp.rtrancl_into_rtrancl)
qed

lemma all_out_abs: "set (iadders c) \<subseteq> {IOut} \<Longrightarrow> i < length (iadders c) \<Longrightarrow> abs_adder c i = Out"
  by (drule (1) subsetD [OF _ nth_mem]) (simp add: abs_adder_def)

text \<open>
  C4. No task is stranded in the queues themselves: after any interleaving of the atomic steps of the
  adding goroutines and the poll goroutine in which the event descriptor comes last in its batches,
  whenever the loop waits in the kernel, no \<open>AddTask\<close> or \<open>AddPriorTask\<close> is under way and a task is in
  either lock-free queue, the event descriptor is readable, so the wait ends at once.
\<close>

theorem impl_no_task_stranded:
  assumes "(good_cstep blk)\<^sup>*\<^sup>* (init_impl n) c" and "ipc c = Waiting tr" and "set (iadders c) \<subseteq> {IOut}"
  shows "snapshot (shared (pq c)) = [] \<and> snapshot (shared (oq c)) = [] \<or> icounter c > 0"
proof -
  have "pc (abs_impl c) = Waiting tr" using assms(2) by (simp add: abs_impl_def view_of_def)
  moreover have "\<not> some_adder (\<lambda>a. a \<noteq> Out) (abs_impl c)"
    using all_out_abs [OF assms(3)] by (auto simp: some_adder_def abs_impl_def)
  ultimately have "prior (abs_impl c) = [] \<and> ordinary (abs_impl c) = [] \<or> counter (abs_impl c) > 0"
    by (intro no_task_stranded [of blk n]) (simp_all add: good_refines [OF assms(1)])
  then show ?thesis by (simp add: abs_impl_def)
qed

section \<open>A run\<close>

text \<open>One goroutine adds a task while the loop waits.\<close>

definition adding :: "bool \<Rightarrow> addr \<Rightarrow> nat pc \<Rightarrow> nat impl" where
  "adding linked tail p = \<lparr>pq = \<lparr>shared = \<lparr>heap = (heap NewQueue)(0 := \<lparr>Value = None, Next = if linked then Some 1 else None\<rparr>,
       1 := \<lparr>Value = Some 7, Next = None\<rparr>), brk = 2, Head = 0, Tail = tail, Length = 0\<rparr>, pcs = [p, Idle]\<rparr>,
     oq = init_sys 2, iran = [], itrig = 0, icounter = 0, iadders = [IEnq True], ipc = Waiting False\<rparr>"

lemma adding_snapshots:
  "snapshot (shared (pq (adding linked tail p))) = (if linked then [Some 7] else [])"
  "snapshot (shared (oq (adding linked tail p))) = []"
  by (simp_all add: adding_def snapshot_def init_sys_def NewQueue_def eval_nat_numeral)

lemma adding_fits: "fits (adding linked tail p)"
  by (simp add: fits_def adding_snapshots) (simp add: adding_def)

lemma adding_step:
  assumes "tstep (shared (pq (adding linked tail p))) p = (l, shared (pq (adding linked' tail' p')), p')"
    and "p' \<noteq> Finished EnqDone"
  shows "good_cstep blk (adding linked tail p) (adding linked' tail' p')"
  unfolding good_cstep_def fit_step_def
proof (intro conjI adding_fits)
  have "q_run 0 (pq (adding linked tail p)) = pq (adding linked' tail' p')"
    using assms(1) by (simp add: q_run_def adding_def split: prod.splits)
  then show "cstep blk (adding linked tail p) (adding linked' tail' p')"
    using cstep.enq_run [of 0 "adding linked tail p" True _ blk] assms(2)
    by (simp add: queue_of_def set_queue_def) (simp add: adding_def)
qed (simp add: adding_def)

lemma adding_start: "good_cstep blk (init_impl 1) (adding False 0 (Enq_load_tail 1))"
proof -
  have "fits (init_impl 1 :: nat impl)" by (simp add: fits_def init_queues init_snapshot)
  then show ?thesis
    using cstep.enq_call [of 0 "init_impl 1 :: nat impl" blk True 7]
    by (simp add: good_cstep_def fit_step_def adding_def init_impl_def set_queue_def queue_of_def
        q_call_def init_sys_def NewQueue_def numeral_2_eq_2 fun_upd_def if_distrib cong: if_cong)
qed

lemma adding_reached: "(good_cstep blk)\<^sup>*\<^sup>* (init_impl 1) (adding True 1 Enq_count)"
proof -
  let ?s = "\<lambda>c c'. good_cstep blk c c'"
  have "?s (adding False 0 (Enq_load_tail 1)) (adding False 0 (Enq_load_next 1 0))"
    "?s (adding False 0 (Enq_load_next 1 0)) (adding False 0 (Enq_check 1 0 None))"
    "?s (adding False 0 (Enq_check 1 0 None)) (adding False 0 (Enq_link 1 0))"
    "?s (adding False 0 (Enq_link 1 0)) (adding True 0 (Enq_swing 1 0))"
    "?s (adding True 0 (Enq_swing 1 0)) (adding True 1 Enq_count)"
    by (rule adding_step; force simp: adding_def cas_defs NewQueue_def)+
  with adding_start show ?thesis by (meson rtranclp.rtrancl_into_rtrancl rtranclp.rtrancl_refl)
qed

definition counted :: "nat impl" where
  "counted = (adding True 1 Enq_count)\<lparr>pq := q_run 0 (pq (adding True 1 Enq_count)), iadders := [ICounted]\<rparr>"

definition readable :: "nat impl" where
  "readable = counted\<lparr>itrig := 1, icounter := 1, iadders := [IOut]\<rparr>"

lemma counted_snapshots: "snapshot (shared (pq counted)) = [Some 7]" "snapshot (shared (oq counted)) = []"
  by (simp_all add: counted_def adding_def q_run_def snapshot_def init_sys_def NewQueue_def eval_nat_numeral)

lemma readable_reached: "(good_cstep blk)\<^sup>*\<^sup>* (init_impl 1) readable"
proof -
  let ?c = "adding True 1 Enq_count" and ?w = "counted\<lparr>itrig := 1, iadders := [IWon]\<rparr>"
  have "good_cstep blk ?c counted"
    using cstep.enq_run [of 0 ?c True "q_run 0 (pq ?c)" blk] adding_fits [of True 1 Enq_count]
    by (simp add: good_cstep_def fit_step_def queue_of_def set_queue_def)
      (simp add: counted_def adding_def q_run_def)
  moreover have "good_cstep blk counted ?w"
    using cstep.icas_won [of 0 counted blk] counted_snapshots
    by (simp add: good_cstep_def fit_step_def fits_def) (simp add: counted_def adding_def)
  moreover have "good_cstep blk ?w readable"
    using cstep.itrigger [of 0 ?w blk] counted_snapshots
    by (simp add: good_cstep_def fit_step_def fits_def readable_def) (simp add: counted_def adding_def)
  ultimately show ?thesis using adding_reached by (meson rtranclp.rtrancl_into_rtrancl)
qed

lemma good_fit: "(good_cstep blk)\<^sup>*\<^sup>* c c' \<Longrightarrow> (fit_step blk)\<^sup>*\<^sup>* c c'"
  by (rule rtranclp_mono [THEN predicate2D, rotated]) (auto simp: good_cstep_def)

theorem impl_refines_witness:
  "impl_ok readable \<and> (wstep False)\<^sup>*\<^sup>* (init_wake 1) (abs_impl readable)"
  by (rule impl_refines [OF good_fit [OF readable_reached]])

theorem impl_no_task_stranded_witness:
  "snapshot (shared (pq readable)) = [] \<and> snapshot (shared (oq readable)) = [] \<or> icounter readable > 0"
  by (rule impl_no_task_stranded [OF readable_reached [of False], of False])
    (simp_all add: readable_def counted_def adding_def)

end
