(* ===== verification/BufioWriter.thy ===== *)
theory BufioWriter
  imports Conn
begin

text \<open>
  The buffered writer that \<open>InitContext\<close> of \<open>conn/conn_context.go\<close> puts in front of a connection:
  \<open>bufio.Writer\<close> of Go's standard library over the \<open>Write\<close> of the connection or of an adapter. The
  buffer keeps its identity, because the asynchronous adapter queues slices of it.
\<close>

lemma go_bind_eq_Blocked: "go_bind m f = Blocked \<longleftrightarrow> m = Blocked \<or> (\<exists>x. m = Ret x \<and> f x = Blocked)"
  by (cases m) auto

section \<open>The writer\<close>

record bufw =
  bw_buf :: bytes
  bw_n :: int
  bw_err :: nerror

text \<open>What the writer hands on is a slice of its own buffer, or of the caller's data.\<close>

datatype piece = OfBuffer bytes | OfCaller bytes

fun piece_bytes :: "piece \<Rightarrow> bytes" where
  "piece_bytes (OfBuffer d) = d"
| "piece_bytes (OfCaller d) = d"

type_synonym 's wr_op = "piece \<Rightarrow> 's \<Rightarrow> ((int \<times> nerror) \<times> 's) go"

definition ErrShortWrite :: error where "ErrShortWrite = NewError ''short write''"

definition NewWriterSize :: "nat \<Rightarrow> bufw" where
  "NewWriterSize sz = \<lparr>bw_buf = replicate (if sz = 0 then 4096 else sz) (CHR 0x00), bw_n = 0, bw_err = None\<rparr>"

definition Available :: "bufw \<Rightarrow> int" where
  "Available w = int (length (bw_buf w)) - bw_n w"

definition pending :: "bufw \<Rightarrow> bytes" where
  "pending w = take (nat (bw_n w)) (bw_buf w)"

text \<open>The slice expressions \<open>buf[:n]\<close> and \<open>buf[n:]\<close> are in bounds.\<close>

definition in_buf :: "bufw \<Rightarrow> bool" where
  "in_buf w \<longleftrightarrow> 0 \<le> bw_n w \<and> bw_n w \<le> int (length (bw_buf w))"

definition bw_Flush :: "'s wr_op \<Rightarrow> bufw \<Rightarrow> 's \<Rightarrow> (nerror \<times> bufw \<times> 's) go" where
  "bw_Flush wr w s =
     (if bw_err w \<noteq> None then Ret (bw_err w, w, s)
      else if bw_n w = 0 then Ret (None, w, s)
      else if \<not> in_buf w then Panic
      else go_bind (wr (OfBuffer (pending w)) s) (\<lambda>((n, e), s1).
        case (if n < bw_n w \<and> e = None then Some ErrShortWrite else e) of
          None \<Rightarrow> Ret (None, w\<lparr>bw_n := 0\<rparr>, s1)
        | Some x \<Rightarrow>
            Ret (Some x,
              w\<lparr>bw_buf := (if 0 < n \<and> n < bw_n w then copy_mem 0 (drop (nat n) (pending w)) (bw_buf w) else bw_buf w),
                bw_n := bw_n w - n, bw_err := Some x\<rparr>, s1)))"

text \<open>The bytes of \<open>p\<close> that fit are copied behind what is buffered.\<close>

definition fill_up :: "bytes \<Rightarrow> bufw \<Rightarrow> bufw" where
  "fill_up p w =
     (let k = min (length p) (nat (Available w)) in
      w\<lparr>bw_buf := copy_mem (nat (bw_n w)) (take k p) (bw_buf w), bw_n := bw_n w + int k\<rparr>)"

text \<open>
  The loop of \<open>Write\<close> and \<open>WriteString\<close>: while the data do not fit, fill the buffer and flush it;
  \<open>Write\<close> hands the data on directly when nothing is buffered. \<open>None\<close> is a loop that does not end.
\<close>

partial_function (option) bw_loop :: "'s wr_op \<Rightarrow> bool \<Rightarrow> bytes \<Rightarrow> int \<Rightarrow> bufw \<Rightarrow> 's \<Rightarrow>
    (bytes \<times> int \<times> bufw \<times> 's) go option" where
  "bw_loop wr direct p nn w s =
     (if \<not> (int (length p) > Available w \<and> bw_err w = None) then Some (Ret (p, nn, w, s))
      else if bw_n w = 0 \<and> direct
      then (case wr (OfCaller p) s of
              Panic \<Rightarrow> Some Panic
            | Blocked \<Rightarrow> Some Blocked
            | Ret ((n, e), s1) \<Rightarrow>
                if n < 0 \<or> n > int (length p) then Some Panic
                else bw_loop wr direct (drop (nat n) p) (nn + n) (w\<lparr>bw_err := e\<rparr>) s1)
      else if \<not> in_buf w then Some Panic
      else (case bw_Flush wr (fill_up p w) s of
              Panic \<Rightarrow> Some Panic
            | Blocked \<Rightarrow> Some Blocked
            | Ret (_, w1, s1) \<Rightarrow>
                bw_loop wr direct (drop (nat (Available w)) p) (nn + int (min (length p) (nat (Available w)))) w1 s1))"

definition bw_put :: "'s wr_op \<Rightarrow> bool \<Rightarrow> bytes \<Rightarrow> bufw \<Rightarrow> 's \<Rightarrow> ((int \<times> nerror) \<times> bufw \<times> 's) go" where
  "bw_put wr direct p w s =
     (case bw_loop wr direct p 0 w s of
        None \<Rightarrow> Blocked
      | Some r \<Rightarrow> go_bind r (\<lambda>(p1, nn, w1, s1).
          if bw_err w1 \<noteq> None then Ret ((nn, bw_err w1), w1, s1)
          else Ret ((nn + int (length p1), None), fill_up p1 w1, s1)))"

definition bw_Write :: "'s wr_op \<Rightarrow> bytes \<Rightarrow> bufw \<Rightarrow> 's \<Rightarrow> ((int \<times> nerror) \<times> bufw \<times> 's) go" where
  "bw_Write wr = bw_put wr True"

definition bw_WriteString :: "'s wr_op \<Rightarrow> bytes \<Rightarrow> bufw \<Rightarrow> 's \<Rightarrow> ((int \<times> nerror) \<times> bufw \<times> 's) go" where
  "bw_WriteString wr = bw_put wr False"

definition bw_WriteByte :: "'s wr_op \<Rightarrow> char \<Rightarrow> bufw \<Rightarrow> 's \<Rightarrow> (nerror \<times> bufw \<times> 's) go" where
  "bw_WriteByte wr ch w s =
     (if bw_err w \<noteq> None then Ret (bw_err w, w, s)
      else go_bind (if Available w \<le> 0 then bw_Flush wr w s else Ret (None, w, s)) (\<lambda>(e, w1, s1).
        if e \<noteq> None then Ret (bw_err w1, w1, s1)
        else if \<not> in_buf w1 \<or> Available w1 \<le> 0 then Panic
        else Ret (None, fill_up [ch] w1, s1)))"

datatype bw_call = BWrite bytes | BWriteString bytes | BWriteByte char | BFlush

fun call_bytes :: "bw_call \<Rightarrow> bytes" where
  "call_bytes (BWrite p) = p"
| "call_bytes (BWriteString p) = p"
| "call_bytes (BWriteByte ch) = [ch]"
| "call_bytes BFlush = []"

fun bw_do :: "'s wr_op \<Rightarrow> bw_call \<Rightarrow> bufw \<Rightarrow> 's \<Rightarrow> (nerror \<times> bufw \<times> 's) go" where
  "bw_do wr (BWrite p) w s = go_bind (bw_Write wr p w s) (\<lambda>((n, e), w1, s1). Ret (e, w1, s1))"
| "bw_do wr (BWriteString p) w s = go_bind (bw_WriteString wr p w s) (\<lambda>((n, e), w1, s1). Ret (e, w1, s1))"
| "bw_do wr (BWriteByte ch) w s = bw_WriteByte wr ch w s"
| "bw_do wr BFlush w s = bw_Flush wr w s"

text \<open>A sequence of calls whose results are ignored, as the response writer ignores most of them.\<close>

fun bw_calls :: "'s wr_op \<Rightarrow> bw_call list \<Rightarrow> bufw \<Rightarrow> 's \<Rightarrow> (bufw \<times> 's) go" where
  "bw_calls wr [] w s = Ret (w, s)"
| "bw_calls wr (k # ks) w s = go_bind (bw_do wr k w s) (\<lambda>(e, w1, s1). bw_calls wr ks w1 s1)"

section \<open>Over a writer that keeps what it takes\<close>

definition bw_ok :: "bufw \<Rightarrow> bool" where
  "bw_ok w \<longleftrightarrow> bw_buf w \<noteq> [] \<and> (bw_err w = None \<longrightarrow> in_buf w)"

lemma in_buf_Available: "in_buf w \<longleftrightarrow> 0 \<le> bw_n w \<and> 0 \<le> Available w"
  by (auto simp: in_buf_def Available_def)

lemma fill_up_alt:
  "fill_up p w = (let q = take (nat (Available w)) p in
     w\<lparr>bw_buf := copy_mem (nat (bw_n w)) q (bw_buf w), bw_n := bw_n w + int (length q)\<rparr>)"
  by (simp add: fill_up_def Let_def min_def)

lemma fill_up_facts:
  assumes "in_buf w"
  shows "in_buf (fill_up p w)" "pending (fill_up p w) = pending w @ take (nat (Available w)) p"
    "bw_err (fill_up p w) = bw_err w" "length (bw_buf (fill_up p w)) = length (bw_buf w)"
    "bw_n (fill_up p w) = bw_n w + min (int (length p)) (Available w)"
proof -
  define q where "q = take (nat (Available w)) p"
  have k: "nat (bw_n w) + length q \<le> length (bw_buf w)"
    using assms by (simp add: q_def in_buf_def Available_def) linarith
  have n: "nat (bw_n w + int (length q)) = nat (bw_n w) + length q"
    using assms by (simp add: in_buf_def nat_add_distrib)
  have f: "fill_up p w = w\<lparr>bw_buf := copy_mem (nat (bw_n w)) q (bw_buf w), bw_n := bw_n w + int (length q)\<rparr>"
    by (simp add: fill_up_alt q_def)
  show "pending (fill_up p w) = pending w @ take (nat (Available w)) p"
    by (simp add: f pending_def n take_copy_mem [OF k] q_def [symmetric])
  show "in_buf (fill_up p w)" "bw_err (fill_up p w) = bw_err w" "length (bw_buf (fill_up p w)) = length (bw_buf w)"
    using k assms by (simp_all add: f in_buf_def)
  show "bw_n (fill_up p w) = bw_n w + min (int (length p)) (Available w)"
    using assms by (auto simp: f q_def in_buf_Available min_def le_nat_iff)
qed

lemma fill_up_ok: "bw_ok w \<Longrightarrow> in_buf w \<Longrightarrow> bw_ok (fill_up p w)"
  using fill_up_facts(1,4) [of w p] by (simp add: bw_ok_def) (metis length_0_conv)

text \<open>
  The interface of the writer below: it takes all it is given, perhaps with an error, or answers
  that it has taken \<open>-1\<close> bytes, after which nothing is known of it.
\<close>

locale sink =
  fixes wr :: "'s wr_op"
    and inv :: "'s \<Rightarrow> bool"
    and got :: "'s \<Rightarrow> bytes"
  assumes wrote: "inv s \<Longrightarrow> wr p s = Ret ((n, e), s1) \<Longrightarrow>
    n = -1 \<or> n = int (length (piece_bytes p)) \<and> inv s1 \<and> got s1 = got s @ piece_bytes p"
begin

lemma Flush_keeps:
  assumes "inv s" "bw_ok w" "bw_Flush wr w s = Ret (e, w1, s1)"
  shows "bw_ok w1 \<and> e = bw_err w1 \<and>
    (bw_err w1 = None \<longrightarrow> bw_err w = None \<and> inv s1 \<and> bw_n w1 = 0 \<and> bw_buf w1 = bw_buf w \<and> got s1 = got s @ pending w)"
proof (cases "bw_err w = None \<and> bw_n w \<noteq> 0")
  case False
  then show ?thesis using assms by (cases "bw_err w") (auto simp: bw_Flush_def pending_def)
next
  case True
  then have i: "in_buf w" using assms(2) by (simp add: bw_ok_def)
  then obtain n e1 where r: "wr (OfBuffer (pending w)) s = Ret ((n, e1), s1)"
    using assms(3) True by (auto simp: bw_Flush_def go_bind_eq_Ret split: option.splits)
  have len: "int (length (pending w)) = bw_n w" using i by (auto simp: pending_def in_buf_def min_def le_nat_iff)
  have "copy_mem 0 d b \<noteq> []" if "b \<noteq> []" for d b :: bytes
    using that length_copy_mem by (metis length_0_conv)
  then show ?thesis
    using wrote [OF assms(1) r] assms(2,3) True i len
    by (auto simp: bw_Flush_def r bw_ok_def in_buf_def split: option.splits if_splits)
qed

text \<open>Every byte given to the loop is handed on, buffered or still to be written.\<close>

lemma loop_keeps:
  "bw_loop wr direct p nn w s = Some (Ret (p1, nn1, w1, s1)) \<Longrightarrow> inv s \<Longrightarrow> bw_ok w \<Longrightarrow>
   bw_ok w1 \<and> (bw_err w1 = None \<longrightarrow>
     bw_err w = None \<and> inv s1 \<and> int (length p1) \<le> Available w1 \<and> nn1 + int (length p1) = nn + int (length p) \<and>
     got s1 @ pending w1 @ p1 = got s @ pending w @ p)"
proof (induction "2 * length p + (if bw_n w = 0 then 0 else 1)" arbitrary: p nn w s rule: less_induct)
  case less
  consider (out) "\<not> (int (length p) > Available w \<and> bw_err w = None)"
    | (direct) "int (length p) > Available w" "bw_err w = None" "bw_n w = 0" "direct"
    | (fill) "int (length p) > Available w" "bw_err w = None" "\<not> (bw_n w = 0 \<and> direct)" by blast
  then show ?case
  proof cases
    case out
    then show ?thesis using less.prems by (auto simp: bw_loop.simps)
  next
    case direct
    then obtain n e s2 where r: "wr (OfCaller p) s = Ret ((n, e), s2)" "0 \<le> n" "n \<le> int (length p)"
        "bw_loop wr direct (drop (nat n) p) (nn + n) (w\<lparr>bw_err := e\<rparr>) s2 = Some (Ret (p1, nn1, w1, s1))"
      using less.prems(1)
      by (subst (asm) bw_loop.simps) (auto split: go.splits prod.splits if_splits)
    have g: "n = int (length p)" "inv s2" "got s2 = got s @ p"
      using wrote [OF less.prems(2) r(1)] r(2) by auto
    have a: "0 \<le> Available w" using direct(3) by (simp add: Available_def)
    have "bw_loop wr direct [] (nn + n) (w\<lparr>bw_err := e\<rparr>) s2 = Some (Ret ([], nn + n, w\<lparr>bw_err := e\<rparr>, s2))"
      using a by (subst bw_loop.simps) (simp add: Available_def)
    then have o: "p1 = []" "nn1 = nn + n" "w1 = w\<lparr>bw_err := e\<rparr>" "s1 = s2" using r(4) g(1) by simp_all
    show ?thesis
      using g o direct less.prems(3) a by (auto simp: bw_ok_def in_buf_def pending_def Available_def)
  next
    case fill
    have i: "in_buf w" using less.prems(3) fill(2) by (simp add: bw_ok_def)
    let ?a = "nat (Available w)" and ?f = "fill_up p w"
    obtain e w2 s2 where r: "bw_Flush wr ?f s = Ret (e, w2, s2)"
        "bw_loop wr direct (drop ?a p) (nn + int (min (length p) ?a)) w2 s2 = Some (Ret (p1, nn1, w1, s1))"
      using less.prems(1) fill i
      by (subst (asm) bw_loop.simps) (auto split: go.splits prod.splits)
    note f = Flush_keeps [OF less.prems(2) fill_up_ok [OF less.prems(3) i] r(1)]
    show ?thesis
    proof (cases "bw_err w2")
      case (Some x)
      then have "w1 = w2" using r(2) by (subst (asm) bw_loop.simps) auto
      then show ?thesis using f Some by simp
    next
      case None
      then have n: "bw_n w2 = 0" "inv s2" "got s2 = got s @ pending ?f" using f by auto
      have "?a > 0 \<or> bw_n w \<noteq> 0" using less.prems(3) i by (auto simp: Available_def bw_ok_def in_buf_def)
      then have "2 * length (drop ?a p) + (if bw_n w2 = 0 then 0 else 1) < 2 * length p + (if bw_n w = 0 then 0 else 1)"
        using n(1) fill(1) i by (auto simp: in_buf_Available)
      from less.hyps [OF this r(2) n(2)] f
      show ?thesis using n fill(1,2) i fill_up_facts(2) [OF i, of p] by (auto simp: pending_def in_buf_Available)
    qed
  qed
qed


text \<open>The loop ends when the writer below always returns.\<close>

lemma loop_returns:
  assumes total: "\<And>p s. inv s \<Longrightarrow> wr p s \<noteq> Blocked"
  shows "inv s \<Longrightarrow> bw_ok w \<Longrightarrow> bw_loop wr direct p nn w s \<noteq> None \<and> bw_loop wr direct p nn w s \<noteq> Some Blocked"
proof (induction "2 * length p + (if bw_n w = 0 then 0 else 1)" arbitrary: p nn w s rule: less_induct)
  case less
  consider (out) "\<not> (int (length p) > Available w \<and> bw_err w = None)"
    | (direct) "int (length p) > Available w" "bw_err w = None" "bw_n w = 0" "direct"
    | (fill) "int (length p) > Available w" "bw_err w = None" "\<not> (bw_n w = 0 \<and> direct)" by blast
  then show ?case
  proof cases
    case out
    then show ?thesis by (subst (1 2) bw_loop.simps) auto
  next
    case direct
    have e: "int 0 > Available (w\<lparr>bw_err := x\<rparr>) \<longleftrightarrow> False" for x using direct(3) by (simp add: Available_def)
    show ?thesis
    proof (cases "wr (OfCaller p) s")
      case (Ret r)
      obtain n x s1 where r: "r = ((n, x), s1)" by (metis prod.exhaust)
      have "n = -1 \<or> n = int (length p)" using wrote [OF less.prems(1) Ret [unfolded r]] by auto
      then show ?thesis
        using direct Ret r e by (subst (1 2) bw_loop.simps) (auto simp: bw_loop.simps [of wr True "[]"])
    qed (use direct total [OF less.prems(1)] in \<open>auto simp: bw_loop.simps\<close>)
  next
    case fill
    have i: "in_buf w" using less.prems(2) fill(2) by (simp add: bw_ok_def)
    let ?a = "nat (Available w)" and ?f = "fill_up p w"
    have nb: "bw_Flush wr ?f s \<noteq> Blocked"
      using total [OF less.prems(1)] by (cases "wr (OfBuffer (pending ?f)) s") (auto simp: bw_Flush_def split: option.splits)
    show ?thesis
    proof (cases "bw_Flush wr ?f s")
      case (Ret r)
      obtain x w2 s2 where r: "r = (x, w2, s2)" by (metis prod.exhaust)
      note f = Flush_keeps [OF less.prems(1) fill_up_ok [OF less.prems(2) i] Ret [unfolded r]]
      have step: "bw_loop wr direct p nn w s = bw_loop wr direct (drop ?a p) (nn + int (min (length p) ?a)) w2 s2"
        using fill i Ret r by (subst bw_loop.simps) auto
      show ?thesis
      proof (cases "bw_err w2")
        case None
        have "?a > 0 \<or> bw_n w \<noteq> 0" using less.prems(2) i by (auto simp: Available_def bw_ok_def in_buf_def)
        then have "2 * length (drop ?a p) + (if bw_n w2 = 0 then 0 else 1) < 2 * length p + (if bw_n w = 0 then 0 else 1)"
          using f None fill(1) i by (auto simp: in_buf_Available)
        from less.hyps [OF this] f None show ?thesis by (simp add: step)
      next
        case (Some y)
        then have "bw_loop wr direct q m w2 s2 = Some (Ret (q, m, w2, s2))" for q m
          by (subst bw_loop.simps) simp
        then show ?thesis by (simp add: step)
      qed
    next
      case Panic
      then have "bw_loop wr direct p nn w s = Some Panic" using fill i by (subst bw_loop.simps) auto
      then show ?thesis by simp
    qed (use nb in simp)
  qed
qed

definition keeps :: "bytes \<Rightarrow> bufw \<Rightarrow> 's \<Rightarrow> bufw \<Rightarrow> 's \<Rightarrow> bool" where
  "keeps d w s w1 s1 \<longleftrightarrow> bw_ok w1 \<and>
     (bw_err w1 = None \<longrightarrow> bw_err w = None \<and> inv s1 \<and> got s1 @ pending w1 = got s @ pending w @ d)"

lemma keeps_trans: "keeps d w s w1 s1 \<Longrightarrow> keeps d1 w1 s1 w2 s2 \<Longrightarrow> keeps (d @ d1) w s w2 s2"
  by (auto simp: keeps_def)

lemma put_keeps:
  assumes "bw_put wr direct p w s = Ret ((n, e), w1, s1)" "inv s" "bw_ok w"
  shows "keeps p w s w1 s1 \<and> e = bw_err w1 \<and> (e = None \<longrightarrow> n = int (length p))"
proof -
  obtain q m w2 where l: "bw_loop wr direct p 0 w s = Some (Ret (q, m, w2, s1))"
      "if bw_err w2 \<noteq> None then ((n, e), w1) = ((m, bw_err w2), w2)
       else ((n, e), w1) = ((m + int (length q), None), fill_up q w2)"
    using assms(1) by (auto simp: bw_put_def go_bind_eq_Ret split: option.splits if_splits)
  note k = loop_keeps [OF l(1) assms(2,3)]
  show ?thesis
  proof (cases "bw_err w2")
    case None
    then have i: "in_buf w2" using k by (simp add: bw_ok_def)
    have "take (nat (Available w2)) q = q" using k None by (simp add: le_nat_iff)
    then show ?thesis
      using k l(2) None fill_up_facts(2,3) [OF i, of q] fill_up_ok [OF _ i] by (auto simp: keeps_def)
  next
    case (Some x)
    then show ?thesis using k l(2) by (auto simp: keeps_def)
  qed
qed

lemma WriteByte_keeps:
  assumes "bw_WriteByte wr ch w s = Ret (e, w1, s1)" "inv s" "bw_ok w"
  shows "keeps [ch] w s w1 s1 \<and> e = bw_err w1"
proof (cases "bw_err w")
  case (Some x)
  then show ?thesis using assms(1,3) by (simp add: bw_WriteByte_def keeps_def) (metis option.distinct(1))
next
  case None
  then obtain e2 w2 where f: "(if Available w \<le> 0 then bw_Flush wr w s else Ret (None, w, s)) = Ret (e2, w2, s1)"
      "if e2 \<noteq> None then (e, w1) = (bw_err w2, w2) else in_buf w2 \<and> Available w2 > 0 \<and> (e, w1) = (None, fill_up [ch] w2)"
    using assms(1) by (auto simp: bw_WriteByte_def go_bind_eq_Ret split: if_splits)
  have k: "bw_ok w2 \<and> e2 = bw_err w2 \<and> (bw_err w2 = None \<longrightarrow> inv s1 \<and> got s1 @ pending w2 = got s @ pending w)"
    using Flush_keeps [OF assms(2,3), of e2 w2 s1] f(1) assms(2,3) None
    by (auto simp: pending_def split: if_splits)
  show ?thesis
  proof (cases e2)
    case None
    then have i: "in_buf w2" "Available w2 > 0" "e = None" "w1 = fill_up [ch] w2" using f(2) by auto
    then have "take (nat (Available w2)) [ch] = [ch]" by simp
    then show ?thesis
      using k None i \<open>bw_err w = None\<close> fill_up_facts(2,3) [OF i(1), of "[ch]"] fill_up_ok [OF _ i(1)]
      by (auto simp: keeps_def)
  qed (use k f(2) in \<open>auto simp: keeps_def\<close>)
qed

lemma do_keeps:
  "bw_do wr k w s = Ret (e, w1, s1) \<Longrightarrow> inv s \<Longrightarrow> bw_ok w \<Longrightarrow> keeps (call_bytes k) w s w1 s1 \<and> e = bw_err w1"
proof (cases k)
  case (BWrite p)
  assume a: "bw_do wr k w s = Ret (e, w1, s1)" "inv s" "bw_ok w"
  then obtain n where "bw_put wr True p w s = Ret ((n, e), w1, s1)"
    using BWrite by (auto simp: go_bind_eq_Ret bw_Write_def)
  from put_keeps [OF this a(2,3)] show ?thesis using BWrite by simp
next
  case (BWriteString p)
  assume a: "bw_do wr k w s = Ret (e, w1, s1)" "inv s" "bw_ok w"
  then obtain n where "bw_put wr False p w s = Ret ((n, e), w1, s1)"
    using BWriteString by (auto simp: go_bind_eq_Ret bw_WriteString_def)
  from put_keeps [OF this a(2,3)] show ?thesis using BWriteString by simp
next
  case (BWriteByte ch)
  then show "bw_do wr k w s = Ret (e, w1, s1) \<Longrightarrow> inv s \<Longrightarrow> bw_ok w \<Longrightarrow> ?thesis"
    using WriteByte_keeps [of ch w s e w1 s1] by simp
next
  case BFlush
  then show "bw_do wr k w s = Ret (e, w1, s1) \<Longrightarrow> inv s \<Longrightarrow> bw_ok w \<Longrightarrow> ?thesis"
    using Flush_keeps [of s w e w1 s1] by (simp add: keeps_def pending_def)
qed

text \<open>An error stays.\<close>

lemma do_after_error: "bw_err w \<noteq> None \<Longrightarrow> bw_do wr k w s = Ret (bw_err w, w, s)"
  by (cases k) (auto simp: bw_Write_def bw_WriteString_def bw_put_def bw_loop.simps bw_WriteByte_def bw_Flush_def)

lemma calls_after_error: "bw_err w \<noteq> None \<Longrightarrow> bw_calls wr ks w s = Ret (w, s)"
  by (induction ks) (simp_all add: do_after_error)

lemma calls_keep:
  "bw_calls wr ks w s = Ret (w1, s1) \<Longrightarrow> inv s \<Longrightarrow> bw_ok w \<Longrightarrow> keeps (concat (map call_bytes ks)) w s w1 s1"
proof (induction ks arbitrary: w s)
  case Nil
  then show ?case by (simp add: keeps_def)
next
  case (Cons k ks)
  then obtain e w2 s2 where d: "bw_do wr k w s = Ret (e, w2, s2)" "bw_calls wr ks w2 s2 = Ret (w1, s1)"
    by (auto simp: go_bind_eq_Ret)
  note k = do_keeps [OF d(1) Cons.prems(2,3), THEN conjunct1]
  show ?case
  proof (cases "bw_err w2")
    case None
    then have "keeps (concat (map call_bytes ks)) w2 s2 w1 s1"
      using Cons.IH [OF d(2)] k by (simp add: keeps_def)
    then show ?thesis using keeps_trans [OF k] by simp
  next
    case (Some x)
    then show ?thesis using calls_after_error [of w2 ks s2] d(2) k by (simp add: keeps_def)
  qed
qed

lemma calls_append: "bw_calls wr (ks @ ls) w s = go_bind (bw_calls wr ks w s) (\<lambda>(w1, s1). bw_calls wr ls w1 s1)"
proof (induction ks arbitrary: w s)
  case (Cons k ks)
  then show ?case by (cases "bw_do wr k w s") (auto split: prod.split)
qed simp

lemma flushed_calls:
  assumes "bw_calls wr (ks @ [BFlush]) w s = Ret (w1, s1)" "inv s" "bw_ok w" "bw_err w1 = None"
  shows "bw_n w1 = 0 \<and> pending w1 = []"
proof -
  obtain w2 s2 e where d: "bw_calls wr ks w s = Ret (w2, s2)" "bw_Flush wr w2 s2 = Ret (e, w1, s1)"
    using assms(1) by (auto simp: calls_append go_bind_eq_Ret)
  then have "bw_err w2 = None" using assms(4) by (cases "bw_err w2") (auto simp: bw_Flush_def)
  then show ?thesis
    using calls_keep [OF d(1) assms(2,3)] Flush_keeps [OF _ _ d(2)] assms(4) by (auto simp: keeps_def pending_def)
qed

end

text \<open>
  A stronger interface: the writer below knows which bytes have really left, and a write that answers \<open>-1\<close>
  has let none go. Then what has left is a prefix of what was given, however the calls end.
\<close>

locale careful_sink = sink wr inv got for wr :: "'s wr_op" and inv :: "'s \<Rightarrow> bool" and got :: "'s \<Rightarrow> bytes" +
  fixes left :: "'s \<Rightarrow> bytes"
  assumes left_got: "inv s \<Longrightarrow> prefix (left s) (got s)"
    and refused: "inv s \<Longrightarrow> wr p s = Ret ((-1, e), s1) \<Longrightarrow> left s1 = left s"
begin

lemma left_more: "inv s \<Longrightarrow> prefix (left s) (got s @ d)"
  using left_got by (simp add: prefix_prefix)

lemma write_left: "inv s \<Longrightarrow> wr p s = Ret ((n, e), s1) \<Longrightarrow> prefix (left s1) (got s @ piece_bytes p)"
proof -
  assume a: "inv s" "wr p s = Ret ((n, e), s1)"
  from wrote [OF this] show ?thesis
  proof
    assume "n = -1"
    then show ?thesis using refused [OF a(1)] a(2) left_more [OF a(1)] by simp
  next
    assume "n = int (length (piece_bytes p)) \<and> inv s1 \<and> got s1 = got s @ piece_bytes p"
    then show ?thesis using left_got [of s1] by simp
  qed
qed

lemma Flush_left:
  assumes "inv s" "bw_Flush wr w s = Ret (e, w1, s1)"
  shows "prefix (left s1) (got s @ pending w)"
proof (cases "bw_err w = None \<and> bw_n w \<noteq> 0 \<and> in_buf w")
  case False
  then have "s1 = s" using assms(2) by (auto simp: bw_Flush_def split: if_splits)
  then show ?thesis using left_more [OF assms(1)] by simp
next
  case True
  then obtain n x where "wr (OfBuffer (pending w)) s = Ret ((n, x), s1)"
    using assms(2) by (auto simp: bw_Flush_def go_bind_eq_Ret split: option.splits)
  from write_left [OF assms(1) this] show ?thesis by simp
qed

lemma kept_left: "keeps d w s w1 s1 \<Longrightarrow> bw_err w1 = None \<Longrightarrow> prefix (left s1) (got s @ pending w @ d)"
  using left_more [of s1 "pending w1"] by (simp add: keeps_def)

lemma loop_left:
  "bw_loop wr direct p nn w s = Some (Ret (p1, nn1, w1, s1)) \<Longrightarrow> inv s \<Longrightarrow> bw_ok w \<Longrightarrow>
   prefix (left s1) (got s @ pending w @ p)"
proof (induction "2 * length p + (if bw_n w = 0 then 0 else 1)" arbitrary: p nn w s rule: less_induct)
  case less
  consider (out) "\<not> (int (length p) > Available w \<and> bw_err w = None)"
    | (direct) "int (length p) > Available w" "bw_err w = None" "bw_n w = 0" "direct"
    | (fill) "int (length p) > Available w" "bw_err w = None" "\<not> (bw_n w = 0 \<and> direct)" by blast
  then show ?case
  proof cases
    case out
    then have "s1 = s" using less.prems(1) by (subst (asm) bw_loop.simps) auto
    then show ?thesis using left_more [OF less.prems(2)] by simp
  next
    case direct
    then obtain n e s2 where r: "wr (OfCaller p) s = Ret ((n, e), s2)" "0 \<le> n"
        "bw_loop wr direct (drop (nat n) p) (nn + n) (w\<lparr>bw_err := e\<rparr>) s2 = Some (Ret (p1, nn1, w1, s1))"
      using less.prems(1)
      by (subst (asm) bw_loop.simps) (auto split: go.splits prod.splits if_splits)
    have "n = int (length p)" using wrote [OF less.prems(2) r(1)] r(2) by auto
    then have "s1 = s2"
      using r(3) direct(3) by (subst (asm) bw_loop.simps) (auto simp: Available_def)
    then show ?thesis using write_left [OF less.prems(2) r(1)] direct(3) by (simp add: pending_def)
  next
    case fill
    have i: "in_buf w" using less.prems(3) fill(2) by (simp add: bw_ok_def)
    let ?a = "nat (Available w)" and ?f = "fill_up p w"
    obtain e w2 s2 where r: "bw_Flush wr ?f s = Ret (e, w2, s2)"
        "bw_loop wr direct (drop ?a p) (nn + int (min (length p) ?a)) w2 s2 = Some (Ret (p1, nn1, w1, s1))"
      using less.prems(1) fill i
      by (subst (asm) bw_loop.simps) (auto split: go.splits prod.splits)
    note f = Flush_keeps [OF less.prems(2) fill_up_ok [OF less.prems(3) i] r(1)]
    have whole: "got s @ pending w @ p = (got s @ pending ?f) @ drop ?a p" by (simp add: fill_up_facts(2) [OF i])
    show ?thesis
    proof (cases "bw_err w2")
      case (Some x)
      then have "s1 = s2" using r(2) by (subst (asm) bw_loop.simps) auto
      then show ?thesis using Flush_left [OF less.prems(2) r(1)] unfolding whole by (simp del: append_assoc add: prefix_prefix)
    next
      case None
      then have n: "bw_n w2 = 0" "inv s2" "got s2 = got s @ pending ?f" using f by auto
      have "?a > 0 \<or> bw_n w \<noteq> 0" using less.prems(3) i by (auto simp: Available_def bw_ok_def in_buf_def)
      then have "2 * length (drop ?a p) + (if bw_n w2 = 0 then 0 else 1) < 2 * length p + (if bw_n w = 0 then 0 else 1)"
        using n(1) fill(1) i by (auto simp: in_buf_Available)
      from less.hyps [OF this r(2) n(2)] f n show ?thesis unfolding whole by (simp add: pending_def)
    qed
  qed
qed

lemma put_left:
  assumes "bw_put wr direct p w s = Ret (r, w1, s1)" "inv s" "bw_ok w"
  shows "prefix (left s1) (got s @ pending w @ p)"
  using assms loop_left [OF _ assms(2,3)]
  by (auto simp: bw_put_def go_bind_eq_Ret split: option.splits if_splits)

lemma WriteByte_left:
  assumes "bw_WriteByte wr ch w s = Ret (e, w1, s1)" "inv s" "bw_ok w"
  shows "prefix (left s1) (got s @ pending w @ [ch])"
proof -
  have "prefix (left s2) (got s @ pending w @ [ch])" if "bw_Flush wr w s = Ret (x, w2, s2)" for x w2 s2
    using prefix_prefix [OF Flush_left [OF assms(2) that], of "[ch]"] by simp
  then show ?thesis
    using assms(1) left_more [OF assms(2)] by (auto simp: bw_WriteByte_def go_bind_eq_Ret split: if_splits)
qed

lemma do_left:
  assumes "bw_do wr k w s = Ret (e, w1, s1)" "inv s" "bw_ok w"
  shows "prefix (left s1) (got s @ pending w @ call_bytes k)"
  using assms put_left [OF _ assms(2,3)] WriteByte_left [OF _ assms(2,3)] Flush_left [OF assms(2), of w e w1 s1]
  by (cases k) (auto simp: go_bind_eq_Ret bw_Write_def bw_WriteString_def)

lemma calls_left:
  "bw_calls wr ks w s = Ret (w1, s1) \<Longrightarrow> inv s \<Longrightarrow> bw_ok w \<Longrightarrow>
   prefix (left s1) (got s @ pending w @ concat (map call_bytes ks))"
proof (induction ks arbitrary: w s)
  case Nil
  then show ?case using left_more by simp
next
  case (Cons k ks)
  then obtain e w2 s2 where d: "bw_do wr k w s = Ret (e, w2, s2)" "bw_calls wr ks w2 s2 = Ret (w1, s1)"
    by (auto simp: go_bind_eq_Ret)
  note k = do_keeps [OF d(1) Cons.prems(2,3), THEN conjunct1]
  show ?case
  proof (cases "bw_err w2")
    case None
    then have "inv s2" "bw_ok w2" "got s2 @ pending w2 = got s @ pending w @ call_bytes k" using k by (simp_all add: keeps_def)
    then show ?thesis using Cons.IH [OF d(2)] by simp (metis append_assoc)
  next
    case (Some x)
    then have "s1 = s2" using calls_after_error [of w2 ks s2] d(2) by simp
    then show ?thesis
      using prefix_prefix [OF do_left [OF d(1) Cons.prems(2,3)], of "concat (map call_bytes ks)"] by simp
  qed
qed

end

section \<open>Over a connection\<close>

definition conn_sink :: "('cb, 'ob, 'rb, 'sa, 'k, 'w) conn_env \<Rightarrow> ('cb, 'ob, 'rb, 'sa, 'k, 'w) conn wr_op" where
  "conn_sink E p c = conn_Write E (piece_bytes p) c"

definition conn_live :: "('cb, 'ob, 'rb, 'sa, 'k, 'w) conn_env \<Rightarrow> ('k \<Rightarrow> int \<Rightarrow> bytes) \<Rightarrow> ('ob \<Rightarrow> bytes) \<Rightarrow>
    ('cb, 'ob, 'rb, 'sa, 'k, 'w) conn \<Rightarrow> bool" where
  "conn_live E S cont c \<longleftrightarrow> posix (kernel_of E) S \<and> elastic_ok (out_of E) cont \<and> \<not> IsUDP c"

lemma conn_write_IsUDP: "conn_write E d c = Ret ((n, e), c1) \<Longrightarrow> n \<noteq> -1 \<Longrightarrow> IsUDP c1 = IsUDP c"
  by (auto simp: conn_write_def buffer_out_def on_poll_def Let_def go_bind_eq_Ret
      split: if_splits option.splits prod.splits)

interpretation cs: sink "conn_sink E" "conn_live E S cont" "stream S cont" for E S cont
proof
  fix c p n e c1
  assume l: "conn_live E S cont c" and w: "conn_sink E p c = Ret ((n, e), c1)"
  then have "conn_write E (piece_bytes p) c = Ret ((n, e), c1)" by (simp add: conn_sink_def conn_Write_def conn_live_def)
  from conn_write_cases [OF _ _ this, of S cont] conn_write_IsUDP [OF this] l
  show "n = -1 \<or> n = int (length (piece_bytes p)) \<and> conn_live E S cont c1 \<and> stream S cont c1 = stream S cont c @ piece_bytes p"
    by (auto simp: conn_live_def)
qed

text \<open>
  A write that closes the connection has let nothing go: nothing was buffered, the kernel has refused the data,
  and the handler's \<open>OnClose\<close> sends nothing on the descriptor.
\<close>

definition close_silent :: "('cb, 'ob, 'rb, 'sa, 'k, 'w) conn_env \<Rightarrow> ('k \<Rightarrow> int \<Rightarrow> bytes) \<Rightarrow> int \<Rightarrow> bool" where
  "close_silent E S fd \<longleftrightarrow> (\<forall>c. S (ckern (snd (onClose E c))) fd = S (ckern c) fd)"

lemma Close_sends_nothing:
  assumes "posix (kernel_of E) S" "close_silent E S fd" "ob_IsEmpty (out_of E) (OutBuffer c)"
    and "conn_Close E c = Ret (e, c')"
  shows "S (ckern c') fd = S (ckern c) fd"
proof -
  have f: "close_flush E c = Some c" using assms(3) by (subst close_flush.simps) simp
  have u: "UnRegister (kernel_of E) a b k = (x, k') \<Longrightarrow> S k' = S k" for a b k x k'
    using posix_ctl [OF assms(1)] by (simp add: UnRegister_def)
  have o: "onClose E d = (x, d') \<Longrightarrow> S (ckern d') fd = S (ckern d) fd" for d x d'
    using assms(2) by (simp add: close_silent_def) (metis snd_conv)
  show ?thesis
    using assms(4) f
    by (auto simp: conn_Close_def releaseTCP_def releaseUDP_def Let_def
        dest!: u posix_CloseFd [OF assms(1)] o split: if_splits option.splits prod.splits)
qed

lemma failed_write_sends_nothing:
  assumes "posix (kernel_of E) S" "elastic_ok (out_of E) cont" "close_silent E S (Fd c)"
    and "conn_write E d c = Ret ((-1, e), c')"
  shows "S (ckern c') (Fd c) = S (ckern c) (Fd c)"
proof -
  have w: "fst (ob_Write (out_of E) d (OutBuffer c)) = (int (length d), None)" using assms(2) by (simp add: elastic_ok_def)
  have n: "ob_IsEmpty (out_of E) (OutBuffer c)" using assms(4) w by (cases "ob_IsEmpty (out_of E) (OutBuffer c)") (auto simp: conn_write_def)
  obtain m x k where k: "Write (kernel_of E) (Fd c) d (ckern c) = ((m, Some x), k)" "conn_Close E (c\<lparr>ckern := k\<rparr>) = Ret (e, c')"
    using assms(4) n
    by (auto simp: conn_write_def Let_def go_bind_eq_Ret split: if_splits option.splits prod.splits)
  have "S k (Fd c) = S (ckern c) (Fd c)"
    using posix_Write [OF assms(1) k(1)] by (simp add: posix_write_def)
  then show ?thesis using Close_sends_nothing [OF assms(1,3) _ k(2)] n by simp
qed

definition conn_watched :: "('cb, 'ob, 'rb, 'sa, 'k, 'w) conn_env \<Rightarrow> ('k \<Rightarrow> int \<Rightarrow> bytes) \<Rightarrow> ('ob \<Rightarrow> bytes) \<Rightarrow> int \<Rightarrow>
    ('cb, 'ob, 'rb, 'sa, 'k, 'w) conn \<Rightarrow> bool" where
  "conn_watched E S cont fd c \<longleftrightarrow> conn_live E S cont c \<and> close_silent E S fd \<and> Fd c = fd"

interpretation cw: careful_sink "conn_sink E" "conn_watched E S cont fd" "stream S cont" "\<lambda>c. S (ckern c) fd" for E S cont fd
proof
  fix c p n e c1
  assume l: "conn_watched E S cont fd c" and w: "conn_sink E p c = Ret ((n, e), c1)"
  then have c: "conn_write E (piece_bytes p) c = Ret ((n, e), c1)" by (simp add: conn_sink_def conn_Write_def conn_watched_def conn_live_def)
  from conn_write_cases [OF _ _ this, of S cont] cs.wrote [OF _ w, of S cont] l
  show "n = -1 \<or> n = int (length (piece_bytes p)) \<and> conn_watched E S cont fd c1 \<and> stream S cont c1 = stream S cont c @ piece_bytes p"
    by (auto simp: conn_watched_def conn_live_def)
next
  fix c assume "conn_watched E S cont fd c"
  then show "prefix (S (ckern c) fd) (stream S cont c)" by (simp add: conn_watched_def stream_def)
next
  fix c p e c1
  assume "conn_watched E S cont fd c" "conn_sink E p c = Ret ((-1, e), c1)"
  then show "S (ckern c1) fd = S (ckern c) fd"
    using failed_write_sends_nothing [of E S cont c "piece_bytes p" e c1]
    by (simp add: conn_sink_def conn_Write_def conn_watched_def conn_live_def)
qed

text \<open>\<open>Write\<close> of a connection always returns: it closes the connection only when nothing is buffered.\<close>

lemma conn_write_returns: "elastic_ok (out_of E) cont \<Longrightarrow> conn_write E d c \<noteq> Blocked"
proof -
  have "ob_IsEmpty (out_of E) (OutBuffer c) \<Longrightarrow> conn_Close E (c\<lparr>ckern := k\<rparr>) \<noteq> Blocked" for k
    by (auto simp: conn_Close_def close_flush.simps Let_def split: prod.split)
  then show ?thesis
    by (auto simp: conn_write_def Let_def go_bind_eq_Blocked split: prod.split option.split)
qed

lemma buffered_write_returns:
  assumes "conn_live E S cont c" "bw_ok w"
  shows "bw_Write (conn_sink E) d w c \<noteq> Blocked" "bw_WriteString (conn_sink E) d w c \<noteq> Blocked"
proof -
  have "bw_loop (conn_sink E) b d 0 w c \<noteq> None \<and> bw_loop (conn_sink E) b d 0 w c \<noteq> Some Blocked" for b
  proof (rule cs.loop_returns [OF _ assms])
    show "conn_live E S cont c1 \<Longrightarrow> conn_sink E p c1 \<noteq> Blocked" for p c1
      using conn_write_returns by (auto simp: conn_sink_def conn_Write_def conn_live_def)
  qed
  then have "bw_put (conn_sink E) b d w c \<noteq> Blocked" for b
    by (auto simp: bw_put_def go_bind_eq_Blocked split: option.split)
  then show "bw_Write (conn_sink E) d w c \<noteq> Blocked" "bw_WriteString (conn_sink E) d w c \<noteq> Blocked"
    by (simp_all add: bw_Write_def bw_WriteString_def)
qed

text \<open>What a sequence of calls makes of the outgoing stream, and of what the kernel has taken.\<close>

lemma calls_on_connection:
  assumes "posix (kernel_of E) S" "elastic_ok (out_of E) cont" "\<not> IsUDP c" "bw_ok w"
    and "bw_calls (conn_sink E) ks w c = Ret (w1, c1)"
  shows "(bw_err w1 = None \<longrightarrow> stream S cont c1 @ pending w1 = stream S cont c @ pending w @ concat (map call_bytes ks) \<and>
      (ks \<noteq> [] \<and> last ks = BFlush \<longrightarrow> pending w1 = [])) \<and>
    (close_silent E S (Fd c) \<longrightarrow>
      prefix (S (ckern c1) (Fd c)) (stream S cont c @ pending w @ concat (map call_bytes ks)))"
proof (intro conjI impI)
  have l: "conn_live E S cont c" using assms(1-3) by (simp add: conn_live_def)
  assume e: "bw_err w1 = None"
  then show "stream S cont c1 @ pending w1 = stream S cont c @ pending w @ concat (map call_bytes ks)"
    using cs.calls_keep [OF assms(5) l assms(4)] by (simp add: cs.keeps_def)
  assume k: "ks \<noteq> [] \<and> last ks = BFlush"
  then have "ks = butlast ks @ [BFlush]" using append_butlast_last_id [of ks] by simp
  then show "pending w1 = []" using cs.flushed_calls [of E "butlast ks" w c w1 c1 S cont] assms(4,5) e l by simp
next
  assume "close_silent E S (Fd c)"
  then have "conn_watched E S cont (Fd c) c" using assms(1-3) by (simp add: conn_watched_def conn_live_def)
  then show "prefix (S (ckern c1) (Fd c)) (stream S cont c @ pending w @ concat (map call_bytes ks))"
    using cw.calls_left [OF assms(5) _ assms(4)] by blast
qed

text \<open>
  C16. The buffered writer of a connection neither loses nor duplicates nor reorders anything: after any
  sequence of \<open>Write\<close>, \<open>WriteString\<close>, \<open>WriteByte\<close> and \<open>Flush\<close> that ends without an error, whatever the
  kernel accepts of each call, the connection's outgoing stream followed by what is still buffered is that
  of the start followed by all the bytes given to the calls; and after a last \<open>Flush\<close> nothing is buffered.
  And whatever fails on the way, be it that the kernel refuses a write and the connection closes itself, what
  the kernel has taken is a prefix of the same bytes, as long as the application's \<open>OnClose\<close> sends nothing.
\<close>

theorem buffered_writes_reach_connection:
  assumes "posix (kernel_of E) S" "elastic_ok (out_of E) cont" "\<not> IsUDP c" "bw_ok w"
    and "bw_calls (conn_sink E) ks w c = Ret (w1, c1)"
  shows "(bw_err w1 = None \<longrightarrow> stream S cont c1 @ pending w1 = stream S cont c @ pending w @ concat (map call_bytes ks) \<and>
      (ks \<noteq> [] \<and> last ks = BFlush \<longrightarrow> pending w1 = [])) \<and>
    (close_silent E S (Fd c) \<longrightarrow>
      prefix (S (ckern c1) (Fd c)) (stream S cont c @ pending w @ concat (map call_bytes ks)))"
  using assms by (rule calls_on_connection)

definition demo_bufw :: bufw where
  "demo_bufw = NewWriterSize 4"

lemmas bw_eval = bw_Write_def bw_WriteString_def bw_WriteByte_def bw_put_def bw_loop.simps bw_Flush_def
  fill_up_def copy_mem_def Available_def in_buf_def pending_def Let_def conn_sink_def conn_Write_def
  demo_bufw_def NewWriterSize_def

theorem buffered_writes_reach_connection_witness:
  "stream demo_sent concat (demo_conn\<lparr>ckern := (\<lambda>_. [])(9 := ''abcdefgh''), OutBuffer := [''i'']\<rparr>) @ [] =
   stream demo_sent concat demo_conn @ [] @ ''abcdefghi'' \<and> prefix ''abcdefgh'' (stream demo_sent concat demo_conn @ ''abcdefghi'')"
proof -
  let ?c = "demo_conn\<lparr>ckern := (\<lambda>_. [])(9 := ''abcdefgh''), OutBuffer := [''i'']\<rparr>"
  let ?ks = "[BWriteString ''ab'', BWriteByte (CHR ''c''), BWrite ''defghi'', BFlush]"
  have "\<exists>w1. bw_calls (conn_sink demo_env) ?ks demo_bufw demo_conn = Ret (w1, ?c) \<and> bw_err w1 = None"
    by (simp add: bw_eval demo_eval eval_nat_numeral)
  then obtain w1 where w: "bw_calls (conn_sink demo_env) ?ks demo_bufw demo_conn = Ret (w1, ?c)" "bw_err w1 = None"
    by blast
  have "bw_ok demo_bufw" by (simp add: bw_ok_def demo_bufw_def NewWriterSize_def in_buf_def)
  moreover have "posix (kernel_of demo_env) demo_sent" "elastic_ok (out_of demo_env) concat" "\<not> IsUDP demo_conn"
    using demo_posix demo_elastic by (simp_all add: demo_env_def demo_conn_def NewTCPConn_def)
  moreover have "close_silent demo_env demo_sent (Fd demo_conn)" by (simp add: close_silent_def demo_env_def)
  ultimately have "stream demo_sent concat ?c @ pending w1 =
      stream demo_sent concat demo_conn @ pending demo_bufw @ concat (map call_bytes ?ks) \<and> pending w1 = [] \<and>
      prefix (demo_sent (ckern ?c) (Fd demo_conn)) (stream demo_sent concat demo_conn @ pending demo_bufw @ concat (map call_bytes ?ks))"
    using buffered_writes_reach_connection [OF _ _ _ _ w(1), of demo_sent concat] w(2) by auto
  moreover have "pending demo_bufw = []" by (simp add: demo_bufw_def NewWriterSize_def pending_def)
  moreover have "demo_sent (ckern ?c) (Fd demo_conn) = ''abcdefgh''" by (simp add: demo_sent_def demo_conn_def NewTCPConn_def)
  ultimately show ?thesis by auto
qed

text \<open>
  \<open>Write\<close> of a connection breaks the contract of \<open>io.Writer\<close>: when the kernel refuses the data and
  the connection is closed without an error, it returns \<open>-1\<close> and nil.
\<close>

lemma broken_write:
  assumes "\<not> IsUDP c" "ob_IsEmpty (out_of E) (OutBuffer c)" "Write (kernel_of E) (Fd c) d (ckern c) = ((n, Some e), k)"
    and "e \<noteq> EAGAIN" "conn_Close E (c\<lparr>ckern := k\<rparr>) = Ret (None, c1)"
  shows "conn_Write E d c = Ret ((-1, None), c1)"
  using assms by (simp add: conn_Write_def conn_write_def)

text \<open>
  C40. A write of more than the buffer holds to a connection that the peer has reset panics: the buffered
  writer hands the data on directly, the kernel answers with an error, the connection closes itself and returns
  \<open>-1\<close> with a nil error, and the writer slices the data from \<open>-1\<close>. Less data is reported as a short
  write by the next flush, which then counts one byte more than it had.
\<close>

theorem large_write_to_reset_connection_panics:
  assumes "\<not> IsUDP c" "ob_IsEmpty (out_of E) (OutBuffer c)" "bw_ok w" "bw_err w = None"
    and "\<And>p. \<exists>n e k. Write (kernel_of E) (Fd c) p (ckern c) = ((n, Some e), k) \<and> e \<noteq> EAGAIN \<and>
      (\<exists>c1. conn_Close E (c\<lparr>ckern := k\<rparr>) = Ret (None, c1))"
  shows "(bw_n w = 0 \<and> length d > length (bw_buf w) \<longrightarrow> bw_Write (conn_sink E) d w c = Panic) \<and>
    (bw_n w > 0 \<longrightarrow> (\<exists>w1 c1. bw_Flush (conn_sink E) w c = Ret (Some ErrShortWrite, w1, c1) \<and> bw_n w1 = bw_n w + 1))"
proof -
  have b: "\<exists>c1. conn_sink E p c = Ret ((-1, None), c1)" for p
    using assms(5) [of "piece_bytes p"] broken_write [OF assms(1,2)] by (auto simp: conn_sink_def)
  have "bw_n w > 0 \<Longrightarrow> in_buf w" using assms(3,4) by (simp add: bw_ok_def)
  with b [of "OfBuffer (pending w)"] b [of "OfCaller d"] assms(4) show ?thesis
    by (auto simp: bw_Flush_def bw_Write_def bw_put_def bw_loop.simps Available_def)
qed

text \<open>A connection whose peer has reset it: every write fails with \<open>ECONNRESET\<close>.\<close>

definition reset_env :: "(unit, bytes list, bytes, unit, demo_k, unit) conn_env" where
  "reset_env = demo_env\<lparr>kernel_of := demo_kernel\<lparr>k_write := (\<lambda>_ _ k. ((-1, Some ECONNRESET), k)),
     k_epoll_ctl := (\<lambda>_ _ _ _ k. (None, k))\<rparr>\<rparr>"

theorem large_write_to_reset_connection_panics_witness:
  "bw_Write (conn_sink reset_env) ''abcdef'' demo_bufw demo_conn = Panic"
proof -
  have w: "bw_ok demo_bufw" "bw_err demo_bufw = None" "bw_n demo_bufw = 0" "length (bw_buf demo_bufw) = 4"
    by (simp_all add: bw_ok_def demo_bufw_def NewWriterSize_def in_buf_def)
  have "\<exists>c1. conn_Close reset_env (demo_conn\<lparr>ckern := k\<rparr>) = Ret (None, c1)" for k
    by (simp add: conn_Close_def close_flush.simps reset_env_def demo_env_def demo_kernel_def demo_conn_def
        NewTCPConn_def chunk_ops_def UnRegister_def CloseFd_def epollFdHandler_def SysError_def close_error_def Let_def)
  then have "\<exists>n e k. Write (kernel_of reset_env) (Fd demo_conn) p (ckern demo_conn) = ((n, Some e), k) \<and> e \<noteq> EAGAIN \<and>
      (\<exists>c1. conn_Close reset_env (demo_conn\<lparr>ckern := k\<rparr>) = Ret (None, c1))" for p
    by (simp add: Write_def reset_env_def demo_env_def)
  from large_write_to_reset_connection_panics [OF _ _ w(1,2) this, of "''abcdef''"] w(3,4) show ?thesis
    by (simp add: demo_conn_def NewTCPConn_def reset_env_def demo_env_def chunk_ops_def)
qed

section \<open>Over the asynchronous adapter\<close>

text \<open>
  \<open>Write\<close> of \<open>AsyncWriteConn\<close> queues a task that holds the slice it was given and returns. The slice is
  the front of the writer's buffer, or the caller's own data. \<open>err\<close> is the result of \<open>AddTask\<close>.
\<close>

datatype held = Front nat | Data bytes

fun hold :: "piece \<Rightarrow> held" where
  "hold (OfBuffer d) = Front (length d)"
| "hold (OfCaller d) = Data d"

definition async_sink :: "nerror \<Rightarrow> held list wr_op" where
  "async_sink err p ts = Ret ((int (length (piece_bytes p)), err), ts @ [hold p])"

text \<open>What a queued slice shows when its task runs: the writer's buffer as it is then.\<close>

fun shown :: "bufw \<Rightarrow> held \<Rightarrow> bytes" where
  "shown w (Front n) = take n (bw_buf w)"
| "shown w (Data d) = d"

fun run_held :: "('cb, 'ob, 'rb, 'sa, 'k, 'w) conn_env \<Rightarrow> 'cb option \<Rightarrow> bufw \<Rightarrow> held list \<Rightarrow>
    ('cb, 'ob, 'rb, 'sa, 'k, 'w) conn \<Rightarrow> ('cb, 'ob, 'rb, 'sa, 'k, 'w) conn go" where
  "run_held E cb w [] c = Ret c"
| "run_held E cb w (h # hs) c = go_bind (asyncWrite E cb (shown w h) c) (\<lambda>(e, c1). run_held E cb w hs c1)"

lemma run_held_two:
  "run_held E cb w [h1, h2] c = go_bind (asyncWrite E cb (shown w h1) c) (\<lambda>(e1, c1).
     go_bind (asyncWrite E cb (shown w h2) c1) (\<lambda>(e2, c2). Ret c2))"
  by (simp add: split_def)

lemma copy_front: "length p \<le> length b \<Longrightarrow> copy_mem 0 p b = p @ drop (length p) b"
  by (simp add: copy_mem_def)

lemma put_and_flush:
  assumes "bw_n w = 0" "bw_err w = None" "p \<noteq> []" "length p \<le> length (bw_buf w)"
  shows "bw_calls (async_sink None) [BWrite p, BFlush] w ts =
    Ret (w\<lparr>bw_buf := p @ drop (length p) (bw_buf w)\<rparr>, ts @ [Front (length p)])"
  using assms
  by (simp add: bw_Write_def bw_put_def bw_loop.simps Available_def fill_up_def copy_front bw_Flush_def in_buf_def
      pending_def async_sink_def min_def Let_def)

text \<open>
  The asynchronous adapter sends bytes that were never written to it: it keeps the slice it is given
  until its task runs, and the buffered writer in front of it reuses that memory. If two messages are written and
  flushed before the tasks run, the first task sends the second message over the front of the first one.
\<close>

lemma async_adapter_sends_overwritten_bytes:
  assumes "bw_n w = 0" "bw_err w = None" "p \<noteq> []" "q \<noteq> []"
    and "length p \<le> length (bw_buf w)" "length q \<le> length (bw_buf w)"
  shows "\<exists>w1. bw_calls (async_sink None) [BWrite p, BFlush, BWrite q, BFlush] w [] =
      Ret (w1, [Front (length p), Front (length q)]) \<and>
    run_held E cb w1 [Front (length p), Front (length q)] c =
      go_bind (asyncWrite E cb (take (length p) (q @ drop (length q) p)) c) (\<lambda>(e1, c1).
      go_bind (asyncWrite E cb q c1) (\<lambda>(e2, c2). Ret c2))"
proof -
  let ?w1 = "w\<lparr>bw_buf := p @ drop (length p) (bw_buf w)\<rparr>"
  let ?b = "q @ drop (length q) (p @ drop (length p) (bw_buf w))"
  have "bw_calls (async_sink None) ([BWrite p, BFlush] @ [BWrite q, BFlush]) w [] =
      Ret (?w1\<lparr>bw_buf := ?b\<rparr>, [Front (length p)] @ [Front (length q)])"
    using put_and_flush [of w p "[]"] put_and_flush [of ?w1 q "[Front (length p)]"] assms
    by (simp only: bw_calls.simps append.simps) (auto simp: go_bind_assoc go_bind_eq_Ret split_def)
  moreover have "take (length p) ?b = take (length p) (q @ drop (length q) p)" by simp
  ultimately show ?thesis by (intro exI [of _ "?w1\<lparr>bw_buf := ?b\<rparr>"]) (simp add: run_held_two del: run_held.simps)
qed

theorem async_adapter_sends_overwritten_bytes_witness:
  "\<exists>w1. bw_calls (async_sink None) [BWrite ''one'', BFlush, BWrite ''two'', BFlush] demo_bufw [] = Ret (w1, [Front 3, Front 3]) \<and>
     run_held demo_env None w1 [Front 3, Front 3] demo_conn =
       go_bind (asyncWrite demo_env None ''two'' demo_conn) (\<lambda>(e1, c1).
       go_bind (asyncWrite demo_env None ''two'' c1) (\<lambda>(e2, c2). Ret c2))"
proof -
  have l: "length ''one'' = 3" "length ''two'' = 3" "take 3 (''two'' @ drop 3 ''one'') = ''two''" by simp_all
  have w: "bw_n demo_bufw = 0" "bw_err demo_bufw = None" "''one'' \<noteq> []" "''two'' \<noteq> []"
      "length ''one'' \<le> length (bw_buf demo_bufw)" "length ''two'' \<le> length (bw_buf demo_bufw)"
    by (simp_all add: demo_bufw_def NewWriterSize_def)
  show ?thesis
    using async_adapter_sends_overwritten_bytes [OF w, of demo_env None demo_conn] unfolding l .
qed

end
