(* ===== verification/BufioReader.thy ===== *)
theory BufioReader
  imports HttpRequest Conn
begin

text \<open>
  The buffered reader that \<open>InitContext\<close> of \<open>conn/conn_context.go\<close> puts in front of a connection,
  \<open>bufio.Reader\<close> of Go's standard library, and the fast request reader of \<open>gkhttp/request.go\<close> on it. The
  reader's memory is explicit, and the strings of a request are what the code makes them: views of that
  memory. \<open>HttpRequest\<close> is the same reader over a list of bytes.
\<close>

section \<open>The reader\<close>

record bufr =
  br_buf :: bytes
  br_r :: nat
  br_w :: nat
  br_err :: nerror

text \<open>\<open>Read\<close> of the reader below into \<open>m\<close> bytes: what it has copied, and the error.\<close>

type_synonym 's rd_op = "nat \<Rightarrow> 's \<Rightarrow> (bytes \<times> nerror) \<times> 's"

definition ErrBufferFull :: error where "ErrBufferFull = NewError ''bufio: buffer full''"
definition ErrNoProgress :: error where "ErrNoProgress = NewError ''multiple Read calls return no data or error''"

definition NewReaderSize :: "nat \<Rightarrow> bufr" where
  "NewReaderSize n = \<lparr>br_buf = replicate (max n 16) (CHR 0x00), br_r = 0, br_w = 0, br_err = None\<rparr>"

definition window :: "bufr \<Rightarrow> bytes" where
  "window b = take (br_w b - br_r b) (drop (br_r b) (br_buf b))"

fun read_tries :: "'s rd_op \<Rightarrow> nat \<Rightarrow> bufr \<Rightarrow> 's \<Rightarrow> bufr \<times> 's" where
  "read_tries rd 0 b s = (b\<lparr>br_err := Some ErrNoProgress\<rparr>, s)"
| "read_tries rd (Suc k) b s =
     (case rd (length (br_buf b) - br_w b) s of
        ((d0, e), s1) \<Rightarrow>
          (let d = take (length (br_buf b) - br_w b) d0;
               b1 = b\<lparr>br_buf := copy_mem (br_w b) d (br_buf b), br_w := br_w b + length d\<rparr> in
           if e \<noteq> None then (b1\<lparr>br_err := e\<rparr>, s1)
           else if d \<noteq> [] then (b1, s1)
           else read_tries rd k b1 s1))"

text \<open>\<open>fill\<close> slides what is unread to the front of the buffer and reads behind it.\<close>

definition slide :: "bufr \<Rightarrow> bufr" where
  "slide b = (if br_r b > 0
     then b\<lparr>br_buf := copy_mem 0 (window b) (br_buf b), br_w := br_w b - br_r b, br_r := 0\<rparr> else b)"

definition maxConsecutiveEmptyReads :: nat where "maxConsecutiveEmptyReads = 100"

definition br_fill :: "'s rd_op \<Rightarrow> bufr \<Rightarrow> 's \<Rightarrow> (bufr \<times> 's) go" where
  "br_fill rd b s =
     (let b1 = slide b in
      if br_w b1 \<ge> length (br_buf b1) then Panic else Ret (read_tries rd maxConsecutiveEmptyReads b1 s))"

text \<open>A string that a slice was turned into: a view of the reader's memory, or memory of its own.\<close>

datatype str = View nat nat | Own bytes

fun shown :: "bytes \<Rightarrow> str \<Rightarrow> bytes" where
  "shown buf (View off n) = take n (drop off buf)"
| "shown buf (Own d) = d"

fun index_of :: "char \<Rightarrow> bytes \<Rightarrow> nat option" where
  "index_of c [] = None"
| "index_of c (x # xs) = (if x = c then Some 0 else map_option Suc (index_of c xs))"

lemma read_tries_size: "length (br_buf (fst (read_tries rd k b s))) = length (br_buf b)"
  by (induction rd k b s rule: read_tries.induct) (auto simp: Let_def split: prod.split)

lemma read_tries_grows:
  assumes "read_tries rd k b s = (b1, s1)" "br_err b = None" "br_w b < length (br_buf b)"
  shows "br_r b1 = br_r b \<and> br_w b \<le> br_w b1 \<and> (br_err b1 = None \<longrightarrow> br_w b < br_w b1) \<and> length (br_buf b1) = length (br_buf b)"
  using assms
  by (induction rd k b s rule: read_tries.induct) (auto simp: Let_def split: prod.splits if_splits)

lemma br_fill_grows:
  assumes "br_fill rd b s = Ret (b1, s1)" "br_err b = None" "br_w b - br_r b < length (br_buf b)"
  shows "length (br_buf b1) = length (br_buf b)" "br_w b - br_r b \<le> br_w b1 - br_r b1"
    "br_err b1 = None \<Longrightarrow> br_w b - br_r b < br_w b1 - br_r b1"
proof -
  have "br_err (slide b) = None" "length (br_buf (slide b)) = length (br_buf b)"
      "br_w (slide b) - br_r (slide b) = br_w b - br_r b" "br_r (slide b) = 0"
    using assms(2) by (auto simp: slide_def)
  then show "length (br_buf b1) = length (br_buf b)" "br_w b - br_r b \<le> br_w b1 - br_r b1"
      "br_err b1 = None \<Longrightarrow> br_w b - br_r b < br_w b1 - br_r b1"
    using assms read_tries_grows [of rd maxConsecutiveEmptyReads "slide b" s b1 s1]
    by (auto simp: br_fill_def Let_def split: if_splits)
qed

text \<open>\<open>ReadSlice\<close> of the line break: \<open>scan\<close> is how much of the unread bytes has been searched.\<close>

function read_slice :: "'s rd_op \<Rightarrow> nat \<Rightarrow> bufr \<Rightarrow> 's \<Rightarrow> ((str \<times> nerror) \<times> bufr \<times> 's) go" where
  "read_slice rd scan b s =
     (case index_of LF (drop scan (window b)) of
        Some i \<Rightarrow> Ret ((View (br_r b) (scan + i + 1), None), b\<lparr>br_r := br_r b + (scan + i + 1)\<rparr>, s)
      | None \<Rightarrow>
          if br_err b \<noteq> None
          then Ret ((View (br_r b) (br_w b - br_r b), br_err b), b\<lparr>br_r := br_w b, br_err := None\<rparr>, s)
          else if br_w b - br_r b \<ge> length (br_buf b)
          then Ret ((View 0 (length (br_buf b)), Some ErrBufferFull), b\<lparr>br_r := br_w b\<rparr>, s)
          else go_bind (br_fill rd b s) (\<lambda>(b1, s1). read_slice rd (br_w b - br_r b) b1 s1))"
  by auto
termination
proof (relation "measure (\<lambda>(rd, scan, b, s). (length (br_buf b) - (br_w b - br_r b)) + (if br_err b = None then 1 else 0))")
  fix rd :: "'s rd_op" and scan b s x b1 s1
  assume a: "br_fill rd b s = Ret x" "(b1, s1) = x" "\<not> br_err b \<noteq> None" "\<not> length (br_buf b) \<le> br_w b - br_r b"
  then have "br_fill rd b s = Ret (b1, s1)" "br_err b = None" "br_w b - br_r b < length (br_buf b)" by auto
  note g = br_fill_grows [OF this]
  show "((rd, br_w b - br_r b, b1, s1), rd, scan, b, s) \<in>
      measure (\<lambda>(rd, scan, b, s). length (br_buf b) - (br_w b - br_r b) + (if br_err b = None then 1 else 0))"
    using g(1,2) g(3) a(3,4) by (cases "br_err b1 = None") auto
qed simp

declare read_slice.simps [simp del]

text \<open>\<open>ReadLine\<close>: a line that fills the buffer is a prefix; a carriage return at its end is put back.\<close>

definition br_ReadLine :: "'s rd_op \<Rightarrow> bufr \<Rightarrow> 's \<Rightarrow> ((str \<times> bool \<times> nerror) \<times> bufr \<times> 's) go" where
  "br_ReadLine rd b s =
     go_bind (read_slice rd 0 b s) (\<lambda>((line, err), b1, s1).
       case line of
         Own d \<Rightarrow> Ret ((line, False, err), b1, s1)
       | View off n \<Rightarrow>
           (let t = shown (br_buf b1) line in
            if err = Some ErrBufferFull
            then (if n > 0 \<and> last t = CR
                  then (if br_r b1 = 0 then Panic
                        else Ret ((View off (n - 1), True, None), b1\<lparr>br_r := br_r b1 - 1\<rparr>, s1))
                  else Ret ((line, True, None), b1, s1))
            else if n = 0 then Ret ((line, False, err), b1, s1)
            else if last t = LF
            then Ret ((View off (n - (if n > 1 \<and> t ! (n - 2) = CR then 2 else 1)), False, None), b1, s1)
            else Ret ((line, False, None), b1, s1)))"

text \<open>\<open>Read\<close> into \<open>m\<close> bytes.\<close>

definition br_Read :: "'s rd_op \<Rightarrow> nat \<Rightarrow> bufr \<Rightarrow> 's \<Rightarrow> (bytes \<times> nerror) \<times> bufr \<times> 's" where
  "br_Read rd m b s =
     (let copy = (\<lambda>b1 s1. (let d = take m (window b1) in ((d, None), b1\<lparr>br_r := br_r b1 + length d\<rparr>, s1))) in
      if m = 0
      then (if br_w b > br_r b then (([], None), b, s) else (([], br_err b), b\<lparr>br_err := None\<rparr>, s))
      else if br_r b = br_w b
      then (if br_err b \<noteq> None then (([], br_err b), b\<lparr>br_err := None\<rparr>, s)
            else if m \<ge> length (br_buf b) then (case rd m s of ((d, e), s1) \<Rightarrow> ((d, e), b, s1))
            else (case rd (length (br_buf b)) s of
                    ((d0, e), s1) \<Rightarrow>
                      (let d = take (length (br_buf b)) d0;
                           b1 = b\<lparr>br_buf := copy_mem 0 d (br_buf b), br_r := 0, br_w := length d, br_err := e\<rparr> in
                       if d = [] then (([], e), b1\<lparr>br_err := None\<rparr>, s1) else copy b1 s1)))
      else copy b s)"

section \<open>The fast request reader on it\<close>

text \<open>
  \<open>append\<close> writes behind the slice while the memory behind it suffices, which for a view is the reader's
  buffer, and copies to new memory otherwise.
\<close>

fun append_str :: "str \<Rightarrow> bytes \<Rightarrow> bufr \<Rightarrow> str \<times> bufr" where
  "append_str (View off n) f b =
     (if off + n + length f \<le> length (br_buf b)
      then (View off (n + length f), b\<lparr>br_buf := copy_mem (off + n) f (br_buf b)\<rparr>)
      else (Own (shown (br_buf b) (View off n) @ f), b))"
| "append_str (Own d) f b = (Own (d @ f), b)"

text \<open>\<open>readLine\<close> of \<open>gkhttp/request.go\<close>. \<open>None\<close> is a loop that does not end.\<close>

partial_function (option) more_fragments :: "'s rd_op \<Rightarrow> str \<Rightarrow> bufr \<Rightarrow> 's \<Rightarrow> ((str \<times> nerror) \<times> bufr \<times> 's) go option" where
  "more_fragments rd line b s =
     (case br_ReadLine rd b s of
        Panic \<Rightarrow> Some Panic
      | Blocked \<Rightarrow> Some Blocked
      | Ret ((fragment, isPrefix, err), b1, s1) \<Rightarrow>
          (case append_str line (shown (br_buf b1) fragment) b1 of
             (line1, b2) \<Rightarrow> if \<not> isPrefix then Some (Ret ((line1, err), b2, s1)) else more_fragments rd line1 b2 s1))"

definition req_readLine :: "'s rd_op \<Rightarrow> bufr \<Rightarrow> 's \<Rightarrow> ((str \<times> nerror) \<times> bufr \<times> 's) go option" where
  "req_readLine rd b s =
     (case br_ReadLine rd b s of
        Panic \<Rightarrow> Some Panic
      | Blocked \<Rightarrow> Some Blocked
      | Ret ((line, isPrefix, err), b1, s1) \<Rightarrow>
          if \<not> isPrefix then Some (Ret ((line, err), b1, s1)) else more_fragments rd line b1 s1)"

text \<open>\<open>strings.Split\<close> gives views into the line it splits.\<close>

fun word_views :: "nat \<Rightarrow> string list \<Rightarrow> str list" where
  "word_views off [] = []"
| "word_views off (w # ws) = View off (length w) # word_views (off + length w + 1) ws"

fun split_str :: "bytes \<Rightarrow> str \<Rightarrow> str list" where
  "split_str buf (View off n) = word_views off (split_spaces (shown buf (View off n)))"
| "split_str buf (Own d) = map Own (split_spaces d)"

fun str_butlast :: "str \<Rightarrow> str" where
  "str_butlast (View off n) = View off (n - 1)"
| "str_butlast (Own d) = Own (butlast d)"

text \<open>The strings of a request: method, target, protocol and the header assignments in their order.\<close>

record views =
  hv_method :: str
  hv_url :: str
  hv_proto :: str
  hv_headers :: "(str \<times> str list) list"

partial_function (option) header_views :: "'s rd_op \<Rightarrow> (str \<times> str list) list \<Rightarrow> bufr \<Rightarrow> 's \<Rightarrow>
    ((error + (str \<times> str list) list) \<times> bufr \<times> 's) go option" where
  "header_views rd acc b s =
     (case req_readLine rd b s of
        None \<Rightarrow> None
      | Some Panic \<Rightarrow> Some Panic
      | Some Blocked \<Rightarrow> Some Blocked
      | Some (Ret ((line, Some e), b1, s1)) \<Rightarrow> Some (Ret (Inl e, b1, s1))
      | Some (Ret ((line, None), b1, s1)) \<Rightarrow>
          (if shown (br_buf b1) line = [] then Some (Ret (Inr acc, b1, s1))
           else (let strs = split_str (br_buf b1) line in
                 if shown (br_buf b1) (hd strs) = [] then Some Panic
                 else header_views rd (acc @ [(str_butlast (hd strs), tl strs)]) b1 s1)))"

definition read_views :: "'s rd_op \<Rightarrow> (string \<Rightarrow> error + 'u) \<Rightarrow> bufr \<Rightarrow> 's \<Rightarrow>
    ((error + 'u \<times> views) \<times> bufr \<times> 's) go option" where
  "read_views rd urlParse b s =
     (case req_readLine rd b s of
        None \<Rightarrow> None
      | Some Panic \<Rightarrow> Some Panic
      | Some Blocked \<Rightarrow> Some Blocked
      | Some (Ret ((line, Some e), b1, s1)) \<Rightarrow> Some (Ret (Inl e, b1, s1))
      | Some (Ret ((line, None), b1, s1)) \<Rightarrow>
          (case split_str (br_buf b1) line of
             [m, u, p] \<Rightarrow>
               (case urlParse (shown (br_buf b1) u) of
                  Inl e \<Rightarrow> Some (Ret (Inl e, b1, s1))
                | Inr url \<Rightarrow>
                    (case header_views rd [] b1 s1 of
                       None \<Rightarrow> None
                     | Some r \<Rightarrow> Some (go_bind r (\<lambda>(hs, b2, s2). Ret (case hs of
                           Inl e \<Rightarrow> (Inl e, b2, s2)
                         | Inr h \<Rightarrow> (Inr (url, \<lparr>hv_method = m, hv_url = u, hv_proto = p, hv_headers = h\<rparr>), b2, s2))))))
           | _ \<Rightarrow> Some (Ret (Inl (NewError ''status line error ''), b1, s1))))"

definition shown_headers :: "bytes \<Rightarrow> views \<Rightarrow> http_header" where
  "shown_headers buf v = map (\<lambda>(k, vs). (shown buf k, map (shown buf) vs)) (hv_headers v)"

section \<open>Over a reader that gives what has arrived\<close>

lemma index_of_eq:
  "index_of c xs = (if c \<in> set xs then Some (length (takeWhile (\<lambda>x. x \<noteq> c) xs)) else None)"
  by (induction xs) auto

text \<open>The unread bytes up to and with the first line break; all of them when there is none.\<close>

definition line_len :: "bytes \<Rightarrow> nat" where
  "line_len s = length (takeWhile (\<lambda>c. c \<noteq> LF) s)"

lemma takeWhile_no_LF: "LF \<notin> set xs \<Longrightarrow> takeWhile (\<lambda>c. c \<noteq> LF) (xs @ ys) = xs @ takeWhile (\<lambda>c. c \<noteq> LF) ys"
  by (induction xs) auto

lemma takeWhile_all_no_LF: "LF \<notin> set xs \<Longrightarrow> takeWhile (\<lambda>c. c \<noteq> LF) xs = xs"
  by (induction xs) auto

lemma line_len_append: "LF \<in> set xs \<Longrightarrow> line_len (xs @ ys) = line_len xs"
  by (simp add: line_len_def takeWhile_append1)

lemma line_len_less: "LF \<in> set xs \<Longrightarrow> line_len xs < length xs"
  by (induction xs) (auto simp: line_len_def)

lemma line_len_all: "LF \<notin> set xs \<Longrightarrow> line_len xs = length xs"
  by (simp add: line_len_def takeWhile_all_no_LF)

lemma line_len_less_iff: "line_len xs < length xs \<longleftrightarrow> LF \<in> set xs"
  using line_len_less [of xs] line_len_all [of xs] by fastforce

lemma line_len_ge: "LF \<notin> set xs \<Longrightarrow> length xs \<le> line_len (xs @ ys)"
  by (simp add: line_len_def takeWhile_no_LF)

lemma readLine_at:
  assumes "l < length U" "takeWhile (\<lambda>c. c \<noteq> LF) U = take l U"
  shows "readLine U = ((take (l + 1 - (if l + 1 > 1 \<and> take (l + 1) U ! (l + 1 - 2) = CR then 2 else 1)) U, None), drop (l + 1) U)"
proof -
  have r: "readLine U = ((if take l U \<noteq> [] \<and> last (take l U) = CR then butlast (take l U) else take l U, None), drop (l + 1) U)"
    using assms by (auto simp: readLine_def Let_def)
  show ?thesis
  proof (cases l)
    case (Suc j)
    have "last (take l U) = U ! j" "butlast (take l U) = take j U" "take l U \<noteq> []"
      using Suc assms(1) by (simp_all add: take_Suc_conv_app_nth)
    then show ?thesis unfolding r using Suc by auto
  qed (simp add: r)
qed

lemma index_of_drop:
  "LF \<notin> set (take k xs) \<Longrightarrow> index_of LF (drop k xs) = (if LF \<in> set xs then Some (line_len xs - k) else None)"
proof -
  assume k: "LF \<notin> set (take k xs)"
  have xs: "xs = take k xs @ drop k xs" by simp
  have "LF \<in> set xs \<longleftrightarrow> LF \<in> set (drop k xs)" using k by (subst xs) (simp only: set_append, blast)
  moreover have "line_len xs = length (take k xs) + line_len (drop k xs)" if "LF \<in> set (drop k xs)"
    using takeWhile_no_LF [OF k, of "drop k xs"] by (simp add: line_len_def)
  moreover have "length (take k xs) = k" if "LF \<in> set (drop k xs)" using that by (cases "k \<le> length xs") auto
  ultimately show ?thesis by (auto simp: index_of_eq line_len_def)
qed

text \<open>The words of a line, viewed in the memory that holds the line.\<close>

fun unsplit :: "string list \<Rightarrow> string" where
  "unsplit [] = []"
| "unsplit [w] = w"
| "unsplit (w # v # ws) = w @ CHR '' '' # unsplit (v # ws)"

lemma unsplit_split: "unsplit (split_spaces t) = t"
proof (induction t)
  case (Cons c t)
  then show ?case by (cases "split_spaces t"; cases "tl (split_spaces t)") auto
qed simp

lemma shown_word_views:
  "take (length (unsplit ws)) (drop off buf) = unsplit ws \<Longrightarrow> map (shown buf) (word_views off ws) = ws"
proof (induction ws arbitrary: off rule: unsplit.induct)
  case (3 w v ws)
  have a: "take (length w + Suc (length (unsplit (v # ws)))) (drop off buf) = w @ CHR '' '' # unsplit (v # ws)"
    using 3(2) by simp
  have "take (length w) (drop off buf) = w"
    using arg_cong [OF a, of "take (length w)"] by simp
  moreover have "take (length (unsplit (v # ws))) (drop (off + length w + 1) buf) = unsplit (v # ws)"
    using arg_cong [OF a, of "drop (length w + 1)"] by (simp add: drop_take add.commute add.left_commute)
  ultimately show ?case using 3(1) [of "off + length w + 1"] by simp
qed simp_all

lemma shown_split_str:
  assumes "shown buf line = t"
  shows "map (shown buf) (split_str buf line) = split_spaces t"
proof (cases line)
  case (View off n)
  have "take (length t) (drop off buf) = t" using assms View by (auto simp: min_def)
  then show ?thesis using shown_word_views [of "split_spaces t" off buf] assms View by (simp add: unsplit_split)
next
  case (Own d)
  then show ?thesis using assms by (simp add: comp_def)
qed

lemma shown_key:
  assumes "take (length (unsplit (w # ws))) (drop off buf) = unsplit (w # ws)"
  shows "shown buf (str_butlast (hd (word_views off (w # ws)))) = butlast w"
proof -
  have "shown buf (View off (length w)) = w" using shown_word_views [OF assms] by simp
  then have "take (length w) (drop off buf) = w" by simp
  then have "take (length w - 1) w = take (length w - 1) (drop off buf)"
    by (metis min.commute min_diff take_take diff_le_self min.absorb1)
  then show ?thesis by (simp add: butlast_conv_take)
qed

locale source =
  fixes rd :: "'s rd_op"
    and inv :: "'s \<Rightarrow> bool"
    and rest :: "'s \<Rightarrow> bytes"
  assumes reads: "inv s \<Longrightarrow> rd m s = ((d, e), s1) \<Longrightarrow>
    inv s1 \<and> d = take m (rest s) \<and> rest s1 = drop m (rest s) \<and> e = (if rest s = [] \<and> m > 0 then Some EOF else None)"
begin

definition br_ok :: "bufr \<Rightarrow> 's \<Rightarrow> bool" where
  "br_ok b s \<longleftrightarrow> inv s \<and> br_r b \<le> br_w b \<and> br_w b \<le> length (br_buf b) \<and> br_buf b \<noteq> [] \<and>
     (br_err b = None \<or> br_err b = Some EOF \<and> rest s = [] \<and> br_w b - br_r b < length (br_buf b))"

definition unread :: "bufr \<Rightarrow> 's \<Rightarrow> bytes" where
  "unread b s = window b @ rest s"

lemma length_window: "br_ok b s \<Longrightarrow> length (window b) = br_w b - br_r b"
  by (auto simp: br_ok_def window_def)

lemma slide_facts:
  assumes "br_ok b s"
  shows "window (slide b) = window b" "br_r (slide b) = 0" "br_w (slide b) = length (window b)"
    "br_err (slide b) = br_err b" "br_buf (slide b) = copy_mem 0 (window b) (br_buf b)" "length (window b) \<le> length (br_buf b)"
proof -
  have l: "length (window b) = br_w b - br_r b" "br_w b \<le> length (br_buf b)"
    using assms length_window by (simp_all add: br_ok_def)
  then show w: "length (window b) \<le> length (br_buf b)" by simp
  have id: "copy_mem 0 (window b) (br_buf b) = br_buf b" if "br_r b = 0"
    using that l by (simp add: copy_mem_def window_def min_def)
  show "br_r (slide b) = 0" "br_w (slide b) = length (window b)" "br_err (slide b) = br_err b"
      "br_buf (slide b) = copy_mem 0 (window b) (br_buf b)"
    using l id by (auto simp: slide_def)
  then show "window (slide b) = window b"
    using w by (simp add: window_def [of "slide b"] copy_mem_def)
qed

lemma fill_facts:
  assumes "br_ok b s" "br_err b = None" "length (window b) < length (br_buf b)"
  shows "\<exists>b1 s1. br_fill rd b s = Ret (b1, s1) \<and> br_ok b1 s1 \<and> length (br_buf b1) = length (br_buf b) \<and> br_r b1 = 0 \<and>
    window b1 = window b @ take (length (br_buf b) - length (window b)) (rest s) \<and>
    rest s1 = drop (length (br_buf b) - length (window b)) (rest s) \<and>
    br_buf b1 = copy_mem 0 (window b1) (br_buf b) \<and> br_err b1 = (if rest s = [] then Some EOF else None)"
proof -
  let ?n = "length (br_buf b) - length (window b)" and ?b = "slide b"
  note sl = slide_facts [OF assms(1)]
  obtain d e s1 where r: "rd ?n s = ((d, e), s1)" by (metis prod.exhaust)
  have i: "inv s" using assms(1) by (simp add: br_ok_def)
  have d: "inv s1" "d = take ?n (rest s)" "rest s1 = drop ?n (rest s)" "e = (if rest s = [] then Some EOF else None)"
    using reads [OF i r] assms(3) by auto
  define b1 where "b1 = ?b\<lparr>br_buf := copy_mem (length (window b)) d (br_buf ?b), br_w := length (window b) + length d, br_err := e\<rparr>"
  have n: "length (br_buf ?b) = length (br_buf b)" by (simp add: sl(5))
  have "d \<noteq> [] \<or> e \<noteq> None" using d(2,4) assms(3) by auto
  moreover have "?b\<lparr>br_buf := x, br_w := y, br_err := None\<rparr> = ?b\<lparr>br_buf := x, br_w := y\<rparr>" for x y
    using sl(4) assms(2) by (cases ?b) simp
  ultimately have t: "read_tries rd maxConsecutiveEmptyReads ?b s = (b1, s1)"
    using r sl(3) n d(2) read_tries.simps(2) [of rd 99 ?b s]
    by (auto simp: maxConsecutiveEmptyReads_def b1_def Let_def sl(5))
  have ld: "length (window b) + length d \<le> length (br_buf b)" using d(2) sl(6) by simp
  have f: "br_buf b1 = copy_mem 0 (window b @ d) (br_buf b)" "br_r b1 = 0"
      "br_w b1 = length (window b) + length d" "br_err b1 = e" "length (br_buf b1) = length (br_buf b)"
    using ld sl(2,5) by (simp_all add: b1_def copy_mem_def add.commute)
  then have w: "window b1 = window b @ d"
    using ld by (simp add: window_def [of b1] copy_mem_def)
  moreover have "br_buf b1 \<noteq> []" using f(5) assms(3) by auto
  moreover have "br_fill rd b s = Ret (b1, s1)"
    using t assms(3) by (simp add: br_fill_def Let_def sl(3) n)
  moreover have "br_ok b1 s1"
    using \<open>br_buf b1 \<noteq> []\<close> f ld d assms(1,3) by (auto simp: br_ok_def)
  ultimately show ?thesis
    using f w d by auto
qed

text \<open>A line break that is in the window is found without reading.\<close>

lemma read_slice_buffered:
  assumes "LF \<in> set (window b)" "LF \<notin> set (take scan (window b))"
  shows "read_slice rd scan b s =
    Ret ((View (br_r b) (line_len (window b) + 1), None), b\<lparr>br_r := br_r b + (line_len (window b) + 1)\<rparr>, s)"
proof -
  have "scan \<le> line_len (window b)"
  proof (rule ccontr)
    assume "\<not> scan \<le> line_len (window b)"
    then have "window b ! line_len (window b) \<in> set (take scan (window b))"
      using line_len_less [OF assms(1)] by (auto simp: in_set_conv_nth intro!: exI [of _ "line_len (window b)"])
    moreover have "window b ! line_len (window b) = LF"
      using nth_length_takeWhile [of "\<lambda>c. c \<noteq> LF" "window b"] line_len_less [OF assms(1)] by (simp add: line_len_def)
    ultimately show False using assms(2) by simp
  qed
  then show ?thesis using assms by (subst read_slice.simps) (simp add: index_of_drop)
qed


text \<open>What \<open>ReadSlice\<close> returns, by what is unread: a line, the last bytes, or a full buffer.\<close>

definition slice_result :: "bufr \<Rightarrow> 's \<Rightarrow> str \<Rightarrow> nerror \<Rightarrow> bufr \<Rightarrow> 's \<Rightarrow> bool" where
  "slice_result b s line e b1 s1 \<longleftrightarrow> br_ok b1 s1 \<and> length (br_buf b1) = length (br_buf b) \<and>
     (let U = unread b s; N = length (br_buf b); l = line_len U in
      if LF \<in> set (take N U)
      then e = None \<and> (\<exists>off. line = View off (l + 1) \<and> br_r b1 = off + (l + 1)) \<and>
        shown (br_buf b1) line = take (l + 1) U \<and> unread b1 s1 = drop (l + 1) U
      else if length U < N
      then e = Some EOF \<and> (\<exists>off. line = View off (length U)) \<and> shown (br_buf b1) line = U \<and> unread b1 s1 = []
      else e = Some ErrBufferFull \<and> line = View 0 N \<and> br_buf b1 = take N U \<and> br_r b1 = N \<and> br_w b1 = N \<and>
        rest s1 = drop N U)"

lemma window_after:
  assumes "br_ok b s" "n \<le> length (window b)"
  shows "window (b\<lparr>br_r := br_r b + n\<rparr>) = drop n (window b)" "take n (drop (br_r b) (br_buf b)) = take n (window b)"
proof -
  have w: "br_r b + n \<le> br_w b" using assms(2) length_window [OF assms(1)] assms(1) by (auto simp: br_ok_def)
  then show "window (b\<lparr>br_r := br_r b + n\<rparr>) = drop n (window b)"
    by (simp add: window_def drop_take) (simp add: add.commute)
  show "take n (drop (br_r b) (br_buf b)) = take n (window b)"
    using w by (simp add: window_def min_def)
qed

lemma read_slice_spec':
  "r = rd \<Longrightarrow> br_ok b s \<Longrightarrow> LF \<notin> set (take scan (window b)) \<Longrightarrow>
   \<exists>line e b1 s1. read_slice r scan b s = Ret ((line, e), b1, s1) \<and> slice_result b s line e b1 s1"
proof (induction r scan b s rule: read_slice.induct)
  case (1 r scan b s)
  note [simp] = \<open>r = rd\<close> and ok = \<open>br_ok b s\<close> and lw = length_window [OF \<open>br_ok b s\<close>]
  show ?case
  proof (cases "LF \<in> set (window b)")
    case True
    let ?l = "line_len (window b)"
    have l: "?l < length (window b)" using True by (rule line_len_less)
    have u: "line_len (unread b s) = ?l" using True by (simp add: unread_def line_len_append)
    have "LF \<in> set (take (length (br_buf b)) (unread b s))"
      using True slide_facts(6) [OF ok] by (simp add: unread_def)
    moreover have "br_ok (b\<lparr>br_r := br_r b + (?l + 1)\<rparr>) s" using ok l lw by (auto simp: br_ok_def)
    ultimately show ?thesis
      using read_slice_buffered [OF True 1(4)] window_after [OF ok, of "?l + 1"] l u
      by (auto simp: slice_result_def unread_def)
  next
    case no: False
    then have i: "index_of LF (drop scan (window b)) = None" using 1(4) by (simp add: index_of_drop)
    show ?thesis
    proof (cases "br_err b")
      case (Some x)
      then have e: "x = EOF" "rest s = []" "length (window b) < length (br_buf b)" using ok lw by (auto simp: br_ok_def)
      have "window (b\<lparr>br_r := br_w b, br_err := None\<rparr>) = []" by (simp add: window_def)
      moreover have "br_ok (b\<lparr>br_r := br_w b, br_err := None\<rparr>) s" using ok by (auto simp: br_ok_def)
      moreover have "read_slice rd scan b s = Ret ((View (br_r b) (br_w b - br_r b), Some EOF), b\<lparr>br_r := br_w b, br_err := None\<rparr>, s)"
        using i Some e(1) by (subst read_slice.simps) simp
      ultimately show ?thesis
        using no e lw window_after(2) [OF ok, of "length (window b)"] by (auto simp: slice_result_def unread_def)
    next
      case None
      show ?thesis
      proof (cases "length (window b) < length (br_buf b)")
        case False
        then have N: "br_r b = 0" "br_w b = length (br_buf b)"
          using ok lw by (auto simp: br_ok_def)
        then have "window b = br_buf b" by (simp add: window_def)
        have "read_slice rd scan b s = Ret ((View 0 (length (br_buf b)), Some ErrBufferFull), b\<lparr>br_r := br_w b\<rparr>, s)"
          using i None N by (subst read_slice.simps) simp
        moreover have "br_ok (b\<lparr>br_r := br_w b\<rparr>) s" using ok None by (auto simp: br_ok_def)
        ultimately show ?thesis using no N \<open>window b = br_buf b\<close> by (auto simp: slice_result_def unread_def)
      next
        case True
        obtain b1 s1 where f: "br_fill rd b s = Ret (b1, s1)" "br_ok b1 s1" "length (br_buf b1) = length (br_buf b)"
            "window b1 = window b @ take (length (br_buf b) - length (window b)) (rest s)"
            "rest s1 = drop (length (br_buf b) - length (window b)) (rest s)"
          using fill_facts [OF ok None True] by blast
        have u: "unread b1 s1 = unread b s" using f(4,5) by (simp add: unread_def)
        have st: "read_slice rd scan b s = read_slice rd (br_w b - br_r b) b1 s1"
          using i None f(1) True lw by (subst read_slice.simps) simp
        have "LF \<notin> set (take (br_w b - br_r b) (window b1))" using f(4) lw no by simp
        with 1(1) [OF i _ _ f(1) [folded \<open>r = rd\<close>] refl] None True lw f(2)
        obtain line e b2 s2 where "read_slice rd (br_w b - br_r b) b1 s1 = Ret ((line, e), b2, s2)" "slice_result b1 s1 line e b2 s2"
          by auto
        then show ?thesis using st u f(3) by (auto simp: slice_result_def)
      qed
    qed
  qed
qed


lemmas read_slice_spec = read_slice_spec' [OF refl]


text \<open>A line that fits into the buffer is read as from a list.\<close>

lemma ReadLine_spec:
  assumes "br_ok b s" and "LF \<in> set (take (length (br_buf b)) (unread b s)) \<or> length (unread b s) < length (br_buf b)"
  shows "\<exists>line e b1 s1. br_ReadLine rd b s = Ret ((line, False, e), b1, s1) \<and> br_ok b1 s1 \<and>
    length (br_buf b1) = length (br_buf b) \<and> (\<exists>off n. line = View off n) \<and>
    readLine (unread b s) = ((shown (br_buf b1) line, e), unread b1 s1)"
proof -
  let ?U = "unread b s" and ?l = "line_len (unread b s)"
  obtain line e b1 s1 where r: "read_slice rd 0 b s = Ret ((line, e), b1, s1)" "slice_result b s line e b1 s1"
    using read_slice_spec [OF assms(1), of 0] by auto
  have U: "?U = [] \<longrightarrow> LF \<notin> set ?U" by simp
  show ?thesis
  proof (cases "LF \<in> set (take (length (br_buf b)) ?U)")
    case True
    then have LF: "LF \<in> set ?U" using in_set_takeD by metis
    then have l: "?l < length ?U" by (rule line_len_less)
    have at: "?U ! ?l = LF" using nth_length_takeWhile [of "\<lambda>c. c \<noteq> LF" ?U] l by (simp add: line_len_def)
    have tk: "takeWhile (\<lambda>c. c \<noteq> LF) ?U = take ?l ?U" unfolding line_len_def by (rule takeWhile_eq_take)
    obtain off where v: "e = None" "line = View off (?l + 1)" "br_ok b1 s1" "length (br_buf b1) = length (br_buf b)"
        "take (?l + 1) (drop off (br_buf b1)) = take (?l + 1) ?U" "unread b1 s1 = drop (?l + 1) ?U"
      using r(2) True by (auto simp: slice_result_def Let_def)
    let ?n = "?l + 1 - (if ?l + 1 > 1 \<and> take (?l + 1) ?U ! (?l + 1 - 2) = CR then 2 else 1)"
    have "last (take (?l + 1) ?U) = LF" using l at by (simp add: take_Suc_conv_app_nth)
    then have "br_ReadLine rd b s = Ret ((View off ?n, False, None), b1, s1)"
      using r(1) v by (simp add: br_ReadLine_def Let_def)
    moreover have "take ?n (drop off (br_buf b1)) = take ?n (take (?l + 1) (drop off (br_buf b1)))"
      by (simp add: min_def)
    then have "shown (br_buf b1) (View off ?n) = take ?n ?U"
      unfolding v(5) by (simp add: min_def)
    moreover have "readLine ?U = ((take ?n ?U, None), drop (?l + 1) ?U)"
      using l tk by (rule readLine_at)
    ultimately show ?thesis using v by auto
  next
    case False
    then have len: "length ?U < length (br_buf b)" using assms(2) by blast
    then have no: "LF \<notin> set ?U" using False by simp
    obtain off where v: "e = Some EOF" "line = View off (length ?U)" "br_ok b1 s1" "length (br_buf b1) = length (br_buf b)"
        "take (length ?U) (drop off (br_buf b1)) = ?U" "unread b1 s1 = []"
      using r(2) False len by (auto simp: slice_result_def Let_def)
    have "last ?U \<noteq> LF" if "?U \<noteq> []" using no last_in_set [OF that] by metis
    then have "br_ReadLine rd b s = Ret ((line, False, if ?U = [] then Some EOF else None), b1, s1)"
      using r(1) v by (auto simp: br_ReadLine_def Let_def ErrBufferFull_def)
    then show ?thesis using v no by (auto simp: readLine_def Let_def takeWhile_all_no_LF)
  qed
qed


text \<open>A line that is in the window is a view of it, and the memory stays as it is.\<close>

lemma ReadLine_buffered:
  assumes "br_ok b s" "LF \<in> set (window b)"
  shows "\<exists>n. br_ReadLine rd b s = Ret ((View (br_r b) n, False, None), b\<lparr>br_r := br_r b + (line_len (window b) + 1)\<rparr>, s) \<and>
    readLine (window b) = ((shown (br_buf b) (View (br_r b) n), None), drop (line_len (window b) + 1) (window b)) \<and>
    n \<le> line_len (window b)"
proof -
  let ?W = "window b" and ?l = "line_len (window b)"
  have l: "?l < length ?W" using assms(2) by (rule line_len_less)
  have tk: "takeWhile (\<lambda>c. c \<noteq> LF) ?W = take ?l ?W" unfolding line_len_def by (rule takeWhile_eq_take)
  have at: "?W ! ?l = LF" using nth_length_takeWhile [of "\<lambda>c. c \<noteq> LF" ?W] l by (simp add: line_len_def)
  have t: "take (?l + 1) (drop (br_r b) (br_buf b)) = take (?l + 1) ?W"
    using window_after(2) [OF assms(1), of "?l + 1"] l by simp
  let ?n = "?l + 1 - (if ?l + 1 > 1 \<and> take (?l + 1) ?W ! (?l + 1 - 2) = CR then 2 else 1)"
  have "last (take (?l + 1) ?W) = LF" using l at by (simp add: take_Suc_conv_app_nth)
  then have "br_ReadLine rd b s = Ret ((View (br_r b) ?n, False, None), b\<lparr>br_r := br_r b + (?l + 1)\<rparr>, s)"
    using read_slice_buffered [OF assms(2), of 0] t by (simp add: br_ReadLine_def Let_def)
  moreover have "take ?n (drop (br_r b) (br_buf b)) = take ?n ?W"
    using arg_cong [OF t, of "take ?n"] by (simp add: min_def)
  ultimately show ?thesis using readLine_at [OF l tk] by auto
qed

text \<open>If the window has no whole line, one fill comes first.\<close>

lemma ReadLine_fill:
  assumes "br_ok b s" "br_err b = None" "LF \<notin> set (window b)" "br_fill rd b s = Ret (b1, s1)" "LF \<in> set (window b1)"
    and "length (window b) < length (br_buf b)" "window b1 = window b @ d"
  shows "br_ReadLine rd b s = br_ReadLine rd b1 s1"
proof -
  have "br_w b - br_r b = length (window b)" using length_window [OF assms(1)] by simp
  then have "read_slice rd 0 b s = read_slice rd (length (window b)) b1 s1"
    using assms by (subst read_slice.simps) (simp add: index_of_eq)
  also have "\<dots> = read_slice rd 0 b1 s1"
    using read_slice_buffered [OF assms(5)] assms(3,7) by simp
  finally show ?thesis by (simp add: br_ReadLine_def)
qed


lemma drop_suffix_eq: "readLine w = ((l, e), t) \<Longrightarrow> t = drop (line_len w + 1) w"
  by (auto simp: readLine_def Let_def line_len_def split: if_splits)

text \<open>A request head that is in the window is read without touching the memory: the views show it.\<close>

lemma req_readLine_buffered:
  assumes "br_ok b s" "readLine (window b) = ((l, None), t)" "LF \<in> set (window b)"
  shows "\<exists>n b1. req_readLine rd b s = Some (Ret ((View (br_r b) n, None), b1, s)) \<and>
    shown (br_buf b) (View (br_r b) n) = l \<and> br_ok b1 s \<and> window b1 = t \<and> br_buf b1 = br_buf b"
proof -
  let ?n = "line_len (window b) + 1"
  obtain n where r: "br_ReadLine rd b s = Ret ((View (br_r b) n, False, None), b\<lparr>br_r := br_r b + ?n\<rparr>, s)"
      "readLine (window b) = ((shown (br_buf b) (View (br_r b) n), None), drop ?n (window b))"
    using ReadLine_buffered [OF assms(1,3)] by blast
  have l: "?n \<le> length (window b)" using line_len_less [OF assms(3)] by simp
  have "br_ok (b\<lparr>br_r := br_r b + ?n\<rparr>) s" using assms(1) l length_window [OF assms(1)] by (auto simp: br_ok_def)
  then show ?thesis using r assms(2) window_after(1) [OF assms(1) l] by (simp add: req_readLine_def)
qed

lemma header_views_buffered:
  "br_ok b s \<Longrightarrow> window b = render_headers hs @ CR # LF # t \<Longrightarrow> list_all hdr_ok hs \<Longrightarrow>
   \<exists>h b1. header_views rd acc b s = Some (Ret (Inr (acc @ h), b1, s)) \<and> br_ok b1 s \<and> window b1 = t \<and>
     br_buf b1 = br_buf b \<and> map (\<lambda>(k, vs). (shown (br_buf b) k, map (shown (br_buf b)) vs)) h = hs"
proof (induction hs arbitrary: acc b)
  case Nil
  have LF: "LF \<in> set (window b)" using Nil.prems(2) by simp
  have "readLine (window b) = (([], None), t)" using readLine_line [of "[]" t] Nil.prems(2) by (simp add: render_headers_def)
  from req_readLine_buffered [OF Nil.prems(1) this LF] show ?case
    by (subst header_views.simps) auto
next
  case (Cons e hs)
  obtain k vs where e: "e = (k, vs)" by fastforce
  let ?rest = "render_headers hs @ CR # LF # t" and ?line = "spaced (k @ '':'') vs"
  have w: "window b = header_text (k, vs) @ ?rest" using Cons.prems(2) by (simp add: e render_headers_def)
  have ok: "word_ok (k @ '':'')" "list_all word_ok vs" using Cons.prems(3) by (simp_all add: e word_ok_def LF_def)
  have "readLine (window b) = ((?line, None), ?rest)"
    using readLine_line [OF spaced_no_LF [OF ok], of ?rest] w by simp
  moreover have "LF \<in> set (window b)" using w by simp
  ultimately obtain n b1 where r: "req_readLine rd b s = Some (Ret ((View (br_r b) n, None), b1, s))"
      "shown (br_buf b) (View (br_r b) n) = ?line" "br_ok b1 s" "window b1 = ?rest" "br_buf b1 = br_buf b"
    using req_readLine_buffered [OF Cons.prems(1)] by blast
  have sp: "split_spaces ?line = (k @ '':'') # vs" using split_spaced [OF ok] .
  define ws where "ws = word_views (br_r b) ((k @ '':'') # vs)"
  have sv: "split_str (br_buf b) (View (br_r b) n) = ws" using r(2) sp by (simp add: ws_def)
  have sh: "map (shown (br_buf b)) ws = (k @ '':'') # vs" using shown_split_str [OF r(2)] sp sv by simp
  have u: "unsplit ((k @ '':'') # vs) = ?line" using unsplit_split [of ?line] sp by simp
  have "take (length ?line) (drop (br_r b) (br_buf b)) = ?line"
    using r(2) by (metis append_take_drop_id length_take min.absorb2 nat_le_linear shown.simps(1) take_all take_take min.commute)
  then have key: "shown (br_buf b) (str_butlast (hd ws)) = k"
    using shown_key [of "k @ '':''" vs "br_r b" "br_buf b"] u by (simp add: ws_def)
  have ne: "?line \<noteq> []" by (cases vs) simp_all
  have hs: "list_all hdr_ok hs" using Cons.prems(3) by simp
  obtain h b2 where h: "header_views rd (acc @ [(str_butlast (hd ws), tl ws)]) b1 s =
        Some (Ret (Inr ((acc @ [(str_butlast (hd ws), tl ws)]) @ h), b2, s))" "br_ok b2 s" "window b2 = t"
      "br_buf b2 = br_buf b1" "map (\<lambda>(k, vs). (shown (br_buf b1) k, map (shown (br_buf b1)) vs)) h = hs"
    using Cons.IH [OF r(3,4) hs, of "acc @ [(str_butlast (hd ws), tl ws)]"] by blast
  have "header_views rd acc b s = header_views rd (acc @ [(str_butlast (hd ws), tl ws)]) b1 s"
    using r(1,2,5) ne sv sh by (subst header_views.simps) (auto simp: Let_def ws_def)
  moreover have "map (shown (br_buf b)) (tl ws) = vs" using sh by (metis list.sel(3) map_tl)
  ultimately show ?case using h r(5) key by (intro exI [of _ "(str_butlast (hd ws), tl ws) # h"] exI [of _ b2]) (simp add: e)
qed


lemma read_views_buffered:
  assumes "br_ok b s" "window b = render_request m u p hs @ t"
    and "word_ok m" "word_ok u" "word_ok p" "list_all hdr_ok hs" "urlParse u = Inr url"
  shows "\<exists>v b1. read_views rd urlParse b s = Some (Ret (Inr (url, v), b1, s)) \<and> br_ok b1 s \<and> window b1 = t \<and>
    br_buf b1 = br_buf b \<and> shown (br_buf b) (hv_method v) = m \<and> shown (br_buf b) (hv_url v) = u \<and>
    shown (br_buf b) (hv_proto v) = p \<and> shown_headers (br_buf b) v = hs \<and> hv_method v = View (br_r b) (length m)"
proof -
  let ?line = "spaced m [u, p]" and ?rest = "render_headers hs @ CR # LF # t"
  have w: "window b = request_line m u p @ ?rest" using assms(2) by (simp add: render_request_def)
  have "readLine (window b) = ((?line, None), ?rest)" using read_request_line(1) [OF assms(3-5), of ?rest] w by simp
  moreover have "LF \<in> set (window b)" using w by (simp add: request_line_def)
  ultimately obtain n b1 where r: "req_readLine rd b s = Some (Ret ((View (br_r b) n, None), b1, s))"
      "shown (br_buf b) (View (br_r b) n) = ?line" "br_ok b1 s" "window b1 = ?rest" "br_buf b1 = br_buf b"
    using req_readLine_buffered [OF assms(1)] by blast
  have sp: "split_spaces ?line = [m, u, p]" using read_request_line(2) [OF assms(3-5)] .
  define ws where "ws = word_views (br_r b) [m, u, p]"
  have sv: "split_str (br_buf b) (View (br_r b) n) = ws" using r(2) sp by (simp add: ws_def)
  have sh: "map (shown (br_buf b)) ws = [m, u, p]" using shown_split_str [OF r(2)] sp sv by simp
  obtain v1 v2 v3 where v: "ws = [v1, v2, v3]" "v1 = View (br_r b) (length m)" by (simp add: ws_def)
  obtain h b2 where h: "header_views rd [] b1 s = Some (Ret (Inr h, b2, s))" "br_ok b2 s" "window b2 = t"
      "br_buf b2 = br_buf b1" "map (\<lambda>(k, vs). (shown (br_buf b1) k, map (shown (br_buf b1)) vs)) h = hs"
    using header_views_buffered [OF r(3,4) assms(6), of "[]"] by auto
  have "read_views rd urlParse b s = Some (Ret (Inr (url, \<lparr>hv_method = v1, hv_url = v2, hv_proto = v3, hv_headers = h\<rparr>), b2, s))"
    using r(1,5) sv sh v(1) h(1) assms(7) by (simp add: read_views_def)
  then show ?thesis using h r(5) sh v by (auto simp: shown_headers_def)
qed

text \<open>An empty reader whose first fill brings the whole head.\<close>

lemma read_views_fill:
  assumes "br_ok b s" "br_err b = None" "window b = []" "LF \<in> set (take (length (br_buf b)) (rest s))"
  shows "\<exists>b1 s1. read_views rd urlParse b s = read_views rd urlParse b1 s1 \<and> br_ok b1 s1 \<and> br_r b1 = 0 \<and>
    window b1 = take (length (br_buf b)) (rest s) \<and> rest s1 = drop (length (br_buf b)) (rest s) \<and>
    br_err b1 = None \<and> length (br_buf b1) = length (br_buf b)"
proof -
  have ne: "br_buf b \<noteq> []" "rest s \<noteq> []" using assms(1,4) by (auto simp: br_ok_def)
  then obtain b1 s1 where f: "br_fill rd b s = Ret (b1, s1)" "br_ok b1 s1" "length (br_buf b1) = length (br_buf b)" "br_r b1 = 0"
      "window b1 = take (length (br_buf b)) (rest s)" "rest s1 = drop (length (br_buf b)) (rest s)" "br_err b1 = None"
    using fill_facts [OF assms(1,2)] assms(3) by auto
  have "br_ReadLine rd b s = br_ReadLine rd b1 s1"
    using ReadLine_fill [OF assms(1,2) _ f(1), of "window b1"] assms(3,4) f(5) ne(1) by simp
  then have "read_views rd urlParse b s = read_views rd urlParse b1 s1"
    by (simp add: read_views_def req_readLine_def)
  then show ?thesis using f by blast
qed

text \<open>\<open>Read\<close> of what is buffered, and of a reader that has nothing buffered.\<close>

lemma br_Read_buffered:
  assumes "br_ok b s" "m \<le> length (window b)" "br_err b = None"
  shows "\<exists>b1. br_Read rd m b s = ((take m (window b), None), b1, s) \<and> br_ok b1 s \<and> window b1 = drop m (window b) \<and>
    br_buf b1 = br_buf b \<and> br_err b1 = None"
proof (cases "m = 0")
  case True
  have same: "b\<lparr>br_err := None\<rparr> = b" using assms(3) by (cases b) simp
  show ?thesis using True assms(1,3) by (auto simp: br_Read_def Let_def same)
next
  case False
  have "br_r b \<noteq> br_w b" using False assms(2) length_window [OF assms(1)] by auto
  moreover have "br_ok (b\<lparr>br_r := br_r b + m\<rparr>) s" using assms length_window [OF assms(1)] by (auto simp: br_ok_def)
  ultimately show ?thesis
    using False assms window_after(1) [OF assms(1,2)] by (auto simp: br_Read_def Let_def min_def)
qed

lemma br_Read_refill:
  assumes "br_ok b s" "window b = []" "br_err b = None" "0 < k" "k < length (br_buf b)" "rest s \<noteq> []"
  shows "\<exists>b1 s1. br_Read rd k b s = ((take k (rest s), None), b1, s1) \<and> br_ok b1 s1 \<and>
    br_buf b1 = copy_mem 0 (take (length (br_buf b)) (rest s)) (br_buf b)"
proof -
  obtain d e s1 where r: "rd (length (br_buf b)) s = ((d, e), s1)" by (metis prod.exhaust)
  have i: "inv s" using assms(1) by (simp add: br_ok_def)
  have d: "inv s1" "d = take (length (br_buf b)) (rest s)" "rest s1 = drop (length (br_buf b)) (rest s)" "e = None"
    using reads [OF i r] assms(6) by auto
  have "br_r b = br_w b" using length_window [OF assms(1)] assms(1,2) by (auto simp: br_ok_def)
  moreover have "d \<noteq> []" using d(2) assms(4,5,6) by auto
  let ?b1 = "b\<lparr>br_buf := copy_mem 0 d (br_buf b), br_r := 0, br_w := length d, br_err := None\<rparr>"
  have w: "window ?b1 = d" using d(2) by (auto simp: window_def copy_mem_def min_def)
  have "take k d = take k (rest s)" using d(2) assms(5) by (simp add: min_def)
  moreover have "copy_mem 0 d (br_buf b) \<noteq> []" using assms(1) by (metis br_ok_def length_0_conv length_copy_mem)
  then have "br_ok (?b1\<lparr>br_r := length (take k d)\<rparr>) s1" using d assms(1) by (auto simp: br_ok_def)
  moreover have "min (min (length (rest s)) (length (br_buf b))) k = min (length (rest s)) k" using assms(5) by simp
  ultimately show ?thesis using r assms(3-5) \<open>d \<noteq> []\<close> d(2,4) w by (auto simp: br_Read_def Let_def)
qed

end

section \<open>Over a connection\<close>

text \<open>What the application has not read: the input buffer, then the bytes of the current event.\<close>

definition conn_unread :: "('rb \<Rightarrow> bytes) \<Rightarrow> ('cb, 'ob, 'rb, 'sa, 'k, 'w) conn \<Rightarrow> bytes" where
  "conn_unread cont c = cont (InBuffer c) @ Buffer c"

interpretation cr: source "conn_Read E" "\<lambda>_. ring_ok (ring_of E) cont" "conn_unread cont" for E cont
proof
  fix c m d e c1
  assume "ring_ok (ring_of E) cont" "conn_Read E m c = ((d, e), c1)"
  then show "ring_ok (ring_of E) cont \<and> d = take m (conn_unread cont c) \<and> conn_unread cont c1 = drop m (conn_unread cont c) \<and>
      e = (if conn_unread cont c = [] \<and> m > 0 then Some EOF else None)"
    using read_takes_front [of E cont m c] by (auto simp: conn_unread_def)
qed

text \<open>A reader that has nothing buffered and no error.\<close>

definition br_idle :: "bufr \<Rightarrow> bool" where
  "br_idle b \<longleftrightarrow> br_buf b \<noteq> [] \<and> br_r b = br_w b \<and> br_w b \<le> length (br_buf b) \<and> br_err b = None"

lemma idle_ok:
  assumes "br_idle b" "ring_ok (ring_of E) cont"
  shows "cr.br_ok E cont b c" "window b = []" "br_err b = None"
  using assms unfolding cr.br_ok_def by (auto simp: br_idle_def window_def)

text \<open>The head of a request ends with a line break, so a buffer that holds it holds a whole line.\<close>

lemma LF_in_render: "LF \<in> set (render_request m u p hs)"
  by (simp add: render_request_def request_line_def)

lemma idle_reads_views:
  assumes "ring_ok (ring_of E) cont" "br_idle b" "conn_unread cont c = render_request m u p hs @ t"
    and "length (render_request m u p hs) \<le> length (br_buf b)"
    and "word_ok m" "word_ok u" "word_ok p" "list_all hdr_ok hs" "urlParse u = Inr url"
  shows "\<exists>v b1 c1. read_views (conn_Read E) urlParse b c = Some (Ret (Inr (url, v), b1, c1)) \<and> cr.br_ok E cont b1 c1 \<and>
    window b1 = take (length (br_buf b) - length (render_request m u p hs)) t \<and>
    conn_unread cont c1 = drop (length (br_buf b) - length (render_request m u p hs)) t \<and> length (br_buf b1) = length (br_buf b) \<and>
    shown (br_buf b1) (hv_method v) = m \<and> shown (br_buf b1) (hv_url v) = u \<and> shown (br_buf b1) (hv_proto v) = p \<and>
    shown_headers (br_buf b1) v = hs \<and> hv_method v = View 0 (length m)"
proof -
  let ?R = "render_request m u p hs" and ?N = "length (br_buf b)"
  have w: "take ?N (?R @ t) = ?R @ take (?N - length ?R) t" using assms(4) by simp
  have d: "drop ?N (?R @ t) = drop (?N - length ?R) t" using assms(4) by simp
  note i = idle_ok [OF assms(2,1)]
  have "LF \<in> set (take ?N (conn_unread cont c))" using w LF_in_render assms(3) by simp
  from cr.read_views_fill [where urlParse = urlParse, OF i(1,3,2) this, unfolded assms(3) w d] obtain b1 c1 where f:
      "read_views (conn_Read E) urlParse b c = read_views (conn_Read E) urlParse b1 c1" "cr.br_ok E cont b1 c1" "br_r b1 = 0"
      "window b1 = ?R @ take (?N - length ?R) t" "conn_unread cont c1 = drop (?N - length ?R) t" "length (br_buf b1) = ?N"
    by blast
  from cr.read_views_buffered [where urlParse = urlParse, OF f(2,4) assms(5-9)] show ?thesis
    using f(1,3,5,6) by auto
qed


text \<open>
  Reading the body changes the request: when the head and a first part of the body fill the buffer, the
  read that asks for the rest of the body puts it over the memory that the request's strings view. The method,
  which was right before, then shows the first bytes of the rest of the body, which the client chooses.
\<close>

lemma reading_body_overwrites:
  assumes "ring_ok (ring_of E) cont" "br_idle b" "conn_unread cont c = render_request m u p hs @ x @ y"
    and "length (render_request m u p hs @ x) = length (br_buf b)"
    and "word_ok m" "word_ok u" "word_ok p" "list_all hdr_ok hs" "urlParse u = Inr url"
    and "length m \<le> length y" "y \<noteq> []" "0 < k" "k < length (br_buf b)"
  shows "\<exists>v b1 c1 b2 c2 b3 c3. read_views (conn_Read E) urlParse b c = Some (Ret (Inr (url, v), b1, c1)) \<and>
    shown (br_buf b1) (hv_method v) = m \<and>
    br_Read (conn_Read E) (length x) b1 c1 = ((x, None), b2, c2) \<and> shown (br_buf b2) (hv_method v) = m \<and>
    br_Read (conn_Read E) k b2 c2 = ((take k y, None), b3, c3) \<and> shown (br_buf b3) (hv_method v) = take (length m) y"
proof -
  let ?R = "render_request m u p hs" and ?N = "length (br_buf b)"
  have le: "length ?R \<le> ?N" "?N - length ?R = length x" using assms(4) by auto
  have tx: "take (length x) (x @ y) = x" "drop (length x) (x @ y) = y" by simp_all
  from idle_reads_views [where urlParse = urlParse and t = "x @ y", OF assms(1-3) le(1) assms(5-9), unfolded le(2) tx]
  obtain v b1 c1 where r: "read_views (conn_Read E) urlParse b c = Some (Ret (Inr (url, v), b1, c1))" "cr.br_ok E cont b1 c1"
      "window b1 = x" "conn_unread cont c1 = y" "length (br_buf b1) = ?N"
      "shown (br_buf b1) (hv_method v) = m" "hv_method v = View 0 (length m)"
    by blast
  have "br_err b1 = None" using r(2,4) assms(11) unfolding cr.br_ok_def by auto
  from cr.br_Read_buffered [OF r(2) _ this, of "length x"] obtain b2 where
      b2: "br_Read (conn_Read E) (length x) b1 c1 = ((x, None), b2, c1)" "cr.br_ok E cont b2 c1" "window b2 = []"
      "br_buf b2 = br_buf b1" "br_err b2 = None"
    using r(3) by auto
  from cr.br_Read_refill [OF b2(2,3,5) assms(12)] obtain b3 c3 where
      b3: "br_Read (conn_Read E) k b2 c1 = ((take k y, None), b3, c3)" "br_buf b3 = copy_mem 0 (take ?N y) (br_buf b1)"
    using b2(4) r(4,5) assms(11,13) by auto
  have "length m \<le> ?N" using assms(4) by (simp add: render_request_def request_line_def)
  then have "shown (br_buf b3) (hv_method v) = take (length m) y"
    using b3(2) r(5,7) assms(10) by (simp add: copy_mem_def min_def)
  then show ?thesis using r b2 b3 by metis
qed

text \<open>The first fragment of a line that is longer than the buffer is a view of the whole buffer.\<close>

lemma first_fragment:
  assumes "ring_ok (ring_of E) cont" "br_idle b" "conn_unread cont c = x @ u"
    and "length x = length (br_buf b)" "LF \<notin> set x" "x \<noteq> []" "last x \<noteq> CR" "u \<noteq> []"
  shows "\<exists>b1 c1. br_ReadLine (conn_Read E) b c = Ret ((View 0 (length x), True, None), b1, c1) \<and> cr.br_ok E cont b1 c1 \<and>
    br_buf b1 = x \<and> window b1 = [] \<and> br_err b1 = None \<and> conn_unread cont c1 = u"
proof -
  let ?N = "length (br_buf b)"
  note i = idle_ok [OF assms(2,1)]
  have un: "cr.unread cont b c = x @ u" using i(2) assms(3) by (simp add: cr.unread_def)
  have tN: "take ?N (x @ u) = x" "drop ?N (x @ u) = u" "\<not> length (x @ u) < ?N" using assms(4) by simp_all
  have "LF \<notin> set (take 0 (window b))" by simp
  from cr.read_slice_spec [OF i(1) this] obtain line e b1 c1 where
      r1: "read_slice (conn_Read E) 0 b c = Ret ((line, e), b1, c1)" "cr.slice_result E cont b c line e b1 c1" by blast
  have b1: "cr.br_ok E cont b1 c1" "e = Some ErrBufferFull" "line = View 0 ?N" "br_buf b1 = x" "br_r b1 = ?N" "br_w b1 = ?N"
      "conn_unread cont c1 = u"
    using r1(2) assms(5) unfolding cr.slice_result_def un Let_def tN by (simp_all add: assms(4))
  moreover have "br_ReadLine (conn_Read E) b c = Ret ((View 0 ?N, True, None), b1, c1)"
    using r1(1) b1 assms(4,6,7) by (simp add: br_ReadLine_def Let_def)
  moreover have "window b1 = []" "br_err b1 = None" using b1 assms(8) unfolding cr.br_ok_def by (auto simp: window_def)
  ultimately show ?thesis using assms(4) by metis
qed

text \<open>The next one is read into the same memory.\<close>

lemma next_fragment:
  assumes "cr.br_ok E cont b c" "window b = []" "br_err b = None" "conn_unread cont c = y @ CR # LF # t"
    and "LF \<notin> set y" "length y + 2 \<le> length (br_buf b)"
  shows "\<exists>n b1 c1. br_ReadLine (conn_Read E) b c = Ret ((View 0 n, False, None), b1, c1) \<and>
    br_buf b1 = copy_mem 0 (take (length (br_buf b)) (y @ CR # LF # t)) (br_buf b) \<and> shown (br_buf b1) (View 0 n) = y"
proof -
  let ?u = "y @ CR # LF # t" and ?N = "length (br_buf b)"
  have ne: "br_buf b \<noteq> []" using assms(6) by auto
  from cr.fill_facts [OF assms(1,3)] obtain b2 c2 where
      f: "br_fill (conn_Read E) b c = Ret (b2, c2)" "cr.br_ok E cont b2 c2" "br_r b2 = 0" "window b2 = take ?N ?u"
      "br_buf b2 = copy_mem 0 (take ?N ?u) (br_buf b)"
    using assms(2,4) ne by auto
  have tk: "take ?N ?u = y @ CR # LF # take (?N - length y - 2) t"
    using assms(6) by (auto simp: take_Cons' numeral_2_eq_2)
  then have LF: "LF \<in> set (window b2)" using f(4) by simp
  have l2: "br_ReadLine (conn_Read E) b c = br_ReadLine (conn_Read E) b2 c2"
    using cr.ReadLine_fill [OF assms(1,3) _ f(1) LF] assms(2) ne by simp
  from cr.ReadLine_buffered [OF f(2) LF] obtain n b3 where
      l3: "br_ReadLine (conn_Read E) b2 c2 = Ret ((View 0 n, False, None), b3, c2)" "br_buf b3 = br_buf b2"
      "readLine (window b2) = ((shown (br_buf b2) (View 0 n), None), drop (line_len (window b2) + 1) (window b2))"
    using f(3) by auto
  have "shown (br_buf b2) (View 0 n) = y"
    using l3(3) readLine_line [OF assms(5), of "take (?N - length y - 2) t"] f(4) tk by simp
  then show ?thesis using l2 l3(1,2) f(5) by auto
qed

text \<open>
  C39. A line that is longer than the buffer is corrupted: \<open>readLine\<close> keeps the first fragment as a view of the
  buffer while it reads the second one into the same memory. What it returns begins with the bytes that the
  second fill brought, and not with the line.
\<close>

theorem long_line_is_corrupted:
  assumes "ring_ok (ring_of E) cont" "br_idle b" "conn_unread cont c = x @ y @ CR # LF # t"
    and "length x = length (br_buf b)" "LF \<notin> set x" "LF \<notin> set y" "last x \<noteq> CR" "y \<noteq> []" "length y + 2 \<le> length (br_buf b)"
  shows "\<exists>b1 c1. req_readLine (conn_Read E) b c =
      Some (Ret ((Own (copy_mem 0 (take (length x) (y @ CR # LF # t)) x @ y), None), b1, c1)) \<and>
    readLine (conn_unread cont c) = ((x @ y, None), t)"
proof -
  let ?m = "copy_mem 0 (take (length x) (y @ CR # LF # t)) x"
  have ne: "x \<noteq> []" "y @ CR # LF # t \<noteq> []" using assms(4,9) by auto
  from first_fragment [OF assms(1-5) ne(1) assms(7) ne(2)] obtain b1 c1 where
      l1: "br_ReadLine (conn_Read E) b c = Ret ((View 0 (length x), True, None), b1, c1)" "cr.br_ok E cont b1 c1"
      "br_buf b1 = x" "window b1 = []" "br_err b1 = None" "conn_unread cont c1 = y @ CR # LF # t" by blast
  have "length y + 2 \<le> length (br_buf b1)" using assms(4,9) l1(3) by simp
  from next_fragment [OF l1(2,4,5,6) assms(6) this] obtain n b2 c2 where
      l2: "br_ReadLine (conn_Read E) b1 c1 = Ret ((View 0 n, False, None), b2, c2)" "br_buf b2 = ?m" "shown (br_buf b2) (View 0 n) = y"
    unfolding l1(3) by blast
  have "append_str (View 0 (length x)) y b2 = (Own (?m @ y), b2)"
    using l2(2) assms(8) by (cases y) simp_all
  then have "more_fragments (conn_Read E) (View 0 (length x)) b1 c1 = Some (Ret ((Own (?m @ y), None), b2, c2))"
    using l2(1,3) by (subst more_fragments.simps) (simp del: append_str.simps shown.simps)
  then have "req_readLine (conn_Read E) b c = Some (Ret ((Own (?m @ y), None), b2, c2))"
    using l1(1) by (simp add: req_readLine_def)
  moreover have "readLine (conn_unread cont c) = ((x @ y, None), t)"
    using readLine_line [of "x @ y" t] assms(3,5,6) by simp
  ultimately show ?thesis by blast
qed

section \<open>Examples\<close>

definition demo_reader :: "nat \<Rightarrow> bufr" where
  "demo_reader n = \<lparr>br_buf = replicate n (CHR ''.''), br_r = 0, br_w = 0, br_err = None\<rparr>"

definition demo_in :: "bytes \<Rightarrow> demo_conn" where
  "demo_in d = demo_conn\<lparr>InBuffer := take 3 d, Buffer := drop 3 d\<rparr>"

lemma demo_in_unread: "conn_unread id (demo_in d) = d" "ring_ok (ring_of demo_env) id"
  using demo_ring by (simp_all add: conn_unread_def demo_in_def demo_env_def)

lemma demo_reader_idle: "0 < n \<Longrightarrow> br_idle (demo_reader n)" "length (br_buf (demo_reader n)) = n"
  by (simp_all add: br_idle_def demo_reader_def)


theorem reading_body_overwrites_witness:
  "\<exists>v b1 c1 b2 c2 b3 c3.
    read_views (conn_Read demo_env) demo_url (demo_reader 16) (demo_in (render_request ''POST'' ''/'' ''H'' [] @ ''body'' @ ''HEAD/etc'')) =
      Some (Ret (Inr (''/'', v), b1, c1)) \<and> shown (br_buf b1) (hv_method v) = ''POST'' \<and>
    br_Read (conn_Read demo_env) 4 b1 c1 = ((''body'', None), b2, c2) \<and> shown (br_buf b2) (hv_method v) = ''POST'' \<and>
    br_Read (conn_Read demo_env) 8 b2 c2 = ((''HEAD/etc'', None), b3, c3) \<and> shown (br_buf b3) (hv_method v) = ''HEAD''"
proof -
  have i: "br_idle (demo_reader 16)" by (rule demo_reader_idle) simp
  have p: "length (render_request ''POST'' ''/'' ''H'' [] @ ''body'') = length (br_buf (demo_reader 16))"
      "word_ok ''POST''" "word_ok ''/''" "word_ok ''H''" "list_all hdr_ok []" "demo_url ''/'' = Inr ''/''"
      "length ''POST'' \<le> length ''HEAD/etc''" "''HEAD/etc'' \<noteq> []" "0 < (8 :: nat)" "8 < length (br_buf (demo_reader 16))"
    by (code_simp, code_simp, code_simp, code_simp, code_simp, simp add: demo_url_def, simp, simp, simp, code_simp)
  have l: "length ''body'' = 4" "take 8 ''HEAD/etc'' = ''HEAD/etc''" "take (length ''POST'') ''HEAD/etc'' = ''HEAD''" by simp_all
  show ?thesis
    using reading_body_overwrites [where x = "''body''" and y = "''HEAD/etc''" and m = "''POST''" and u = "''/''" and p = "''H''"
        and hs = "[]" and urlParse = demo_url and k = 8, OF demo_in_unread(2) i demo_in_unread(1) p] unfolding l by blast
qed

theorem long_line_is_corrupted_witness:
  "\<exists>b1 c1. req_readLine (conn_Read demo_env) (demo_reader 8) (demo_in (''GET /abc'' @ ''def'' @ CR # LF # ''Host'')) =
     Some (Ret ((Own (''def'' @ [CR, LF] @ ''Hos'' @ ''def''), None), b1, c1))"
proof -
  have i: "br_idle (demo_reader 8)" by (rule demo_reader_idle) simp
  have p: "length ''GET /abc'' = length (br_buf (demo_reader 8))" "LF \<notin> set ''GET /abc''" "LF \<notin> set ''def''"
      "last ''GET /abc'' \<noteq> CR" "''def'' \<noteq> []" "length ''def'' + 2 \<le> length (br_buf (demo_reader 8))"
    by (simp_all add: demo_reader_def LF_def CR_def)
  have o: "copy_mem 0 (take (length ''GET /abc'') (''def'' @ CR # LF # ''Host'')) ''GET /abc'' @ ''def'' =
      ''def'' @ [CR, LF] @ ''Hos'' @ ''def''" by (simp add: copy_mem_def)
  show ?thesis
    using long_line_is_corrupted [where x = "''GET /abc''" and y = "''def''" and t = "''Host''",
        OF demo_in_unread(2) i demo_in_unread(1) p] unfolding o by blast
qed

end
