(* ===== verification/HttpConn.thy ===== *)
theory HttpConn
  imports HttpServer BufioWriter BufioReader
begin

text \<open>
  HTTP over a connection: the response writer of \<open>gkhttp/response.go\<close> on the buffered writer of the
  connection's context, and the requests of the fast reader on its buffered reader, whose memory the handler
  still sees while it reads the body.
\<close>

section \<open>The response writer on the buffered writer\<close>

text \<open>
  The list writer of \<open>HttpResponse\<close> describes the buffered writer and the connection when they agree on the
  error and what has been sent or buffered is what the writer has been given since the stream was \<open>B\<close>.
\<close>

definition carried :: "('k \<Rightarrow> int \<Rightarrow> bytes) \<Rightarrow> ('ob \<Rightarrow> bytes) \<Rightarrow> bytes \<Rightarrow> response \<Rightarrow> bufw \<Rightarrow>
    ('cb, 'ob, 'rb, 'sa, 'k, 'w) conn \<Rightarrow> bool" where
  "carried S cont B r w c \<longleftrightarrow> bw_ok w \<and> bw_err w = rw_err r \<and>
     (rw_err r = None \<longrightarrow> stream S cont c @ pending w = B @ rw_out r)"

lemma carried_start:
  "bw_ok w \<Longrightarrow> bw_err w = None \<Longrightarrow> rw_out r = [] \<Longrightarrow> rw_err r = None \<Longrightarrow> carried S cont (stream S cont c @ pending w) r w c"
  by (simp add: carried_def)

text \<open>A write, in however many calls of the buffered writer, is a write of the list writer.\<close>

lemma write_simulates:
  assumes "conn_live E S cont c" "carried S cont B r w c" "bw_calls (conn_sink E) ks w c = Ret (w1, c1)"
    and "bw_err w1 = None"
  shows "rw_Write (concat (map call_bytes ks)) r =
      ((int (length (concat (map call_bytes ks))), None), put (concat (map call_bytes ks)) r) \<and>
    carried S cont B (put (concat (map call_bytes ks)) r) w1 c1"
proof -
  have k: "cs.keeps E S cont (concat (map call_bytes ks)) w c w1 c1"
    using cs.calls_keep [OF assms(3,1)] assms(2) by (simp add: carried_def)
  then have "rw_err r = None" using assms(2,4) by (simp add: cs.keeps_def carried_def)
  then show ?thesis
    using k assms(2,4) by (simp add: cs.keeps_def carried_def put_def rw_Write_def)
qed

text \<open>Once the buffered writer has failed, both writers take nothing more.\<close>

lemma failed_write_simulates:
  assumes "carried S cont B r w c" "rw_err r = Some e"
  shows "bw_calls (conn_sink E) ks w c = Ret (w, c)" "rw_Write p r = ((0, Some e), r)" "rw_Flush r = r"
  using assms cs.calls_after_error [of w E ks c] by (simp_all add: carried_def rw_Write_def rw_Flush_def)

lemma flush_simulates:
  assumes "conn_live E S cont c" "carried S cont B r w c" "bw_Flush (conn_sink E) w c = Ret (e, w1, c1)" "e = None"
  shows "carried S cont B (rw_Flush r) w1 c1 \<and> stream S cont c1 = B @ rw_out r \<and> rw_flushed (rw_Flush r) = length (rw_out r)"
proof -
  have "bw_ok w1 \<and> e = bw_err w1 \<and> (bw_err w1 = None \<longrightarrow> bw_err w = None \<and> conn_live E S cont c1 \<and> bw_n w1 = 0 \<and>
      bw_buf w1 = bw_buf w \<and> stream S cont c1 = stream S cont c @ pending w)"
    using cs.Flush_keeps [OF assms(1) _ assms(3)] assms(2) by (simp add: carried_def)
  then show ?thesis
    using assms(2,4) by (simp add: carried_def rw_Flush_def pending_def)
qed

text \<open>A finished response has been flushed.\<close>

lemma finished_is_flushed:
  assumes "resp_FinishRequest env r = Ret r1" "\<not> handlerDone r" "rw_err r1 = None"
  shows "rw_flushed r1 = length (rw_out r1)"
  using assms by (auto simp: resp_FinishRequest_def go_bind_eq_Ret Let_def rw_Flush_def split: if_splits)

section \<open>The context of a connection\<close>

text \<open>
  \<open>InitContext\<close> gives a connection a reader and a writer of the default size, which read from and write to the
  same stream, the adapter or the TLS connection on it.
\<close>

definition context_rw :: "bufr \<times> bufw" where
  "context_rw = (NewReaderSize 4096, NewWriterSize 4096)"

lemma context_rw_ok:
  "br_idle (fst context_rw)" "window (fst context_rw) = []" "bw_ok (snd context_rw)" "pending (snd context_rw) = []"
  "bw_err (snd context_rw) = None"
  by (simp_all add: context_rw_def br_idle_def NewReaderSize_def window_def bw_ok_def NewWriterSize_def in_buf_def pending_def)

section \<open>From the request to the answer\<close>

text \<open>Reading does not touch the outgoing stream.\<close>

lemma conn_Read_stream: "stream S cont (snd (conn_Read E m c)) = stream S cont c"
  by (auto simp: conn_Read_def stream_def Let_def split: prod.split)


text \<open>The answer is handed on in one piece; the kernel takes four bytes of it.\<close>

lemma demo_answer_sent:
  assumes "4 < length d"
  shows "\<exists>w1 c1. bw_calls (conn_sink demo_env) ([BWrite d] @ [BFlush]) demo_bufw (demo_in i) = Ret (w1, c1) \<and> bw_err w1 = None"
proof -
  define c1 where "c1 = (demo_in i)\<lparr>ckern := (\<lambda>_. [])(9 := take 4 d), OutBuffer := [drop 4 d]\<rparr>"
  have "drop 4 d \<noteq> []" using assms by simp
  then have w: "conn_sink demo_env (OfCaller d) (demo_in i) = Ret ((int (length d), None), c1)"
    using assms by (simp add: conn_sink_def conn_Write_def demo_eval demo_in_def c1_def)
  have a: "Available demo_bufw = 4" "bw_n demo_bufw = 0" "bw_err demo_bufw = None"
    by (simp_all add: Available_def demo_bufw_def NewWriterSize_def)
  have same: "demo_bufw\<lparr>bw_err := None\<rparr> = demo_bufw" by (simp add: demo_bufw_def NewWriterSize_def)
  have "bw_loop (conn_sink demo_env) True [] n demo_bufw c1 = Some (Ret ([], n, demo_bufw, c1))" for n
    using a by (subst bw_loop.simps) simp
  then have "bw_loop (conn_sink demo_env) True d 0 demo_bufw (demo_in i) = Some (Ret ([], int (length d), demo_bufw, c1))"
    using a w assms by (subst bw_loop.simps) (simp add: same)
  moreover have "fill_up [] demo_bufw = demo_bufw" by (simp add: fill_up_def copy_mem_def demo_bufw_def NewWriterSize_def Available_def)
  ultimately show ?thesis using a by (simp add: bw_Write_def bw_put_def bw_Flush_def)
qed


section \<open>A body that changes its request\<close>



end
