(* ===== verification/Pools.thy ===== *)
theory Pools
  imports HttpFraming HttpRequest BufioWriter BufioReader
begin

text \<open>
  The pools of recycled objects: the tasks of \<open>poll/poll_task.go\<close>, the requests, bodies, channels and header maps
  of \<open>gkhttp/request.go\<close>, the responses, buffers and buffered readers and writers of \<open>gkhttp/response.go\<close>,
  and the two tables of pools by size, which are filled under a spin lock. \<open>sync.Pool\<close> gives back any of
  the objects it holds, may drop some, and calls \<open>New\<close> when it finds none.
\<close>

section \<open>One pool\<close>

text \<open>\<open>Get\<close>: the pool chooses one of its objects or has none at hand.\<close>

definition pool_Get :: "'a \<Rightarrow> nat option \<Rightarrow> 'a list \<Rightarrow> 'a \<times> 'a list" where
  "pool_Get new i p =
     (case i of
        Some k \<Rightarrow> if k < length p then (p ! k, take k p @ drop (Suc k) p) else (new, p)
      | None \<Rightarrow> (new, p))"

lemma pool_Get_in: "pool_Get new i p = (x, q) \<Longrightarrow> (x = new \<or> x \<in> set p) \<and> set q \<subseteq> set p"
  by (auto simp: pool_Get_def split: option.splits if_splits dest: in_set_takeD in_set_dropD)

text \<open>
  What happens to a pool: objects are made by \<open>New\<close>, taken, cleaned and put back, or dropped; the second
  list holds what has been taken.
\<close>

inductive pool_run :: "('a \<Rightarrow> bool) \<Rightarrow> ('a \<Rightarrow> 'a) \<Rightarrow> ('a \<Rightarrow> bool) \<Rightarrow> 'a list \<Rightarrow> 'a list \<Rightarrow> bool"
  for fresh clean usable where
  empty: "pool_run fresh clean usable [] []"
| get: "pool_run fresh clean usable p g \<Longrightarrow> fresh new \<Longrightarrow> pool_Get new i p = (x, q) \<Longrightarrow>
    pool_run fresh clean usable q (x # g)"
| put: "pool_run fresh clean usable p g \<Longrightarrow> usable x \<Longrightarrow> pool_run fresh clean usable (clean x # p) g"
| lost: "pool_run fresh clean usable p g \<Longrightarrow> pool_run fresh clean usable (take k p @ drop (Suc k) p) g"

text \<open>The interface of a recycled kind of object: new ones and cleaned ones are as their users expect them.\<close>

locale recycler =
  fixes fresh :: "'a \<Rightarrow> bool"
    and clean :: "'a \<Rightarrow> 'a"
    and usable :: "'a \<Rightarrow> bool"
    and ok :: "'a \<Rightarrow> bool"
  assumes new_ok: "fresh x \<Longrightarrow> ok x"
    and clean_ok: "usable x \<Longrightarrow> ok (clean x)"
begin

lemma recycled_ok: "pool_run fresh clean usable p g \<Longrightarrow> (\<forall>x\<in>set p. ok x) \<and> (\<forall>x\<in>set g. ok x)"
proof (induction rule: pool_run.induct)
  case (get p g new i x q)
  then show ?case using pool_Get_in [OF get.hyps(3)] new_ok by auto
next
  case (put p g x)
  then show ?case using clean_ok by auto
next
  case (lost p g k)
  then show ?case by (auto dest: in_set_takeD in_set_dropD)
qed simp

end

section \<open>Tasks, bodies and channels\<close>

record ('g, 'a) poll_task =
  pt_Go :: "'g option"
  pt_Arg :: "'a option"

definition zero_task :: "('g, 'a) poll_task" where
  "zero_task = \<lparr>pt_Go = None, pt_Arg = None\<rparr>"

definition PutTask :: "('g, 'a) poll_task \<Rightarrow> ('g, 'a) poll_task list \<Rightarrow> ('g, 'a) poll_task list" where
  "PutTask t p = t\<lparr>pt_Go := None, pt_Arg := None\<rparr> # p"

definition GetTask :: "nat option \<Rightarrow> ('g, 'a) poll_task list \<Rightarrow> ('g, 'a) poll_task \<times> ('g, 'a) poll_task list" where
  "GetTask i p = pool_Get zero_task i p"

definition zero_body :: body where
  "zero_body = \<lparr>bd_i = 0, bd_l = 0\<rparr>"

definition freeBody :: "body \<Rightarrow> body list \<Rightarrow> body list" where
  "freeBody b p = zero_body # p"

text \<open>A channel of capacity one, as what it holds; \<open>freeCancel\<close> takes out what is there without waiting.\<close>

definition drained :: "'c list \<Rightarrow> 'c list" where
  "drained c = (case c of [] \<Rightarrow> [] | x # xs \<Rightarrow> xs)"

definition freeCancel :: "'c list \<Rightarrow> 'c list list \<Rightarrow> 'c list list" where
  "freeCancel c p = drained c # p"

interpretation rt: recycler "\<lambda>t. t = zero_task" "\<lambda>t. t\<lparr>pt_Go := None, pt_Arg := None\<rparr>" "\<lambda>_. True" "\<lambda>t. t = zero_task"
  by unfold_locales (simp_all add: zero_task_def)

interpretation rb: recycler "\<lambda>b. b = zero_body" "\<lambda>_. zero_body" "\<lambda>_. True" "\<lambda>b. b = zero_body"
  by unfold_locales simp_all

interpretation rc: recycler "\<lambda>c. c = []" drained "\<lambda>c. length c \<le> 1" "\<lambda>c. c = []"
  by unfold_locales (auto simp: drained_def split: list.split)

section \<open>Header maps\<close>

text \<open>
  What \<open>freeHeader\<close> and \<open>reqFreeHeader\<close> leave in a map are names that are not canonical: a look-up with
  \<open>Get\<close> of a canonical name finds nothing, an index expression may.
\<close>

definition leftover :: "(string \<Rightarrow> string) \<Rightarrow> http_header \<Rightarrow> bool" where
  "leftover canon h \<longleftrightarrow> (\<forall>k \<in> fst ` set h. canon k \<noteq> k)"

lemma fold_hdel: "foldl (\<lambda>m key. hdel m (canon key)) h ks = filter (\<lambda>e. fst e \<notin> canon ` set ks) h"
proof (induction ks arbitrary: h)
  case (Cons k ks)
  have "hdel h (canon k) = filter (\<lambda>e. fst e \<noteq> canon k) h" by (simp add: hdel_def case_prod_beta')
  then show ?case using Cons by simp
qed simp

lemma freed_leftover: "leftover canon (foldl (\<lambda>m key. hdel m (canon key)) h (map fst h))"
  unfolding fold_hdel by (force simp: leftover_def)

lemma leftover_hget:
  assumes "leftover canon h" "canon c = c"
  shows "hget h c = []"
proof -
  have "c \<notin> fst ` set h" using assms by (auto simp: leftover_def)
  then have "map_of h c = None" by (simp add: map_of_eq_None_iff)
  then show ?thesis by (simp add: hget_def)
qed

interpretation rh: recycler "\<lambda>h. h = []" "reqFreeHeader canon" "\<lambda>_. True" "leftover canon" for canon
  by unfold_locales (simp_all add: leftover_def [of _ "[]"] reqFreeHeader_def freed_leftover)

section \<open>Buffered readers and writers\<close>

definition bw_Reset :: "bufw \<Rightarrow> bufw" where
  "bw_Reset w = w\<lparr>bw_n := 0, bw_err := None\<rparr>"

definition br_Reset :: "bufr \<Rightarrow> bufr" where
  "br_Reset b = b\<lparr>br_r := 0, br_w := 0, br_err := None\<rparr>"

type_synonym writer_pools = "int \<Rightarrow> bufw list"

text \<open>A writer goes back to the pool of the size of its buffer, which is what is available after the reset.\<close>

definition FreeBufioWriter :: "bufw \<Rightarrow> writer_pools \<Rightarrow> writer_pools" where
  "FreeBufioWriter w ps = (let w1 = bw_Reset w in ps(Available w1 := w1 # ps (Available w1)))"

definition NewBufioWriterSize :: "nat \<Rightarrow> nat option \<Rightarrow> writer_pools \<Rightarrow> bufw \<times> writer_pools" where
  "NewBufioWriterSize sz i ps =
     (case pool_Get (NewWriterSize sz) i (ps (int sz)) of (w, p) \<Rightarrow> (bw_Reset w, ps(int sz := p)))"

definition NewBufioWriter :: "nat option \<Rightarrow> writer_pools \<Rightarrow> bufw \<times> writer_pools" where
  "NewBufioWriter = NewBufioWriterSize bufferBeforeChunkingSize"

definition NewBufioReader :: "nat option \<Rightarrow> bufr list \<Rightarrow> bufr \<times> bufr list" where
  "NewBufioReader i p = (case pool_Get (NewReaderSize 4096) i p of (b, q) \<Rightarrow> (br_Reset b, q))"

definition FreeBufioReader :: "bufr \<Rightarrow> bufr list \<Rightarrow> bufr list" where
  "FreeBufioReader b p = br_Reset b # p"

definition writer_clean :: "nat \<Rightarrow> bufw \<Rightarrow> bool" where
  "writer_clean n w \<longleftrightarrow> length (bw_buf w) = n \<and> bw_n w = 0 \<and> bw_err w = None"

interpretation rw: recycler "\<lambda>w. 0 < n \<and> w = NewWriterSize n" bw_Reset "\<lambda>w. length (bw_buf w) = n" "writer_clean n" for n
  by unfold_locales (auto simp: writer_clean_def NewWriterSize_def bw_Reset_def)

interpretation rr: recycler "\<lambda>b. b = NewReaderSize 4096" br_Reset "\<lambda>b. br_buf b \<noteq> []" br_idle
  by unfold_locales (simp_all add: br_idle_def NewReaderSize_def br_Reset_def)

text \<open>Every pool of writers holds clean writers of its size, and so it stays.\<close>

definition writers_ok :: "writer_pools \<Rightarrow> bool" where
  "writers_ok ps \<longleftrightarrow> (\<forall>n. \<forall>w\<in>set (ps n). 0 < n \<and> writer_clean (nat n) w)"

lemma FreeBufioWriter_ok: "writers_ok ps \<Longrightarrow> bw_buf w \<noteq> [] \<Longrightarrow> writers_ok (FreeBufioWriter w ps)"
  by (auto simp: writers_ok_def FreeBufioWriter_def Let_def bw_Reset_def writer_clean_def Available_def)

lemma NewBufioWriterSize_ok:
  assumes "writers_ok ps" "NewBufioWriterSize n i ps = (w, qs)"
  shows "writers_ok qs \<and> bw_ok w \<and> pending w = [] \<and> bw_err w = None \<and> length (bw_buf w) = (if n = 0 then 4096 else n)"
proof -
  obtain v p where g: "pool_Get (NewWriterSize n) i (ps (int n)) = (v, p)" by fastforce
  then have w: "w = bw_Reset v" "qs = ps(int n := p)" using assms(2) by (simp_all add: NewBufioWriterSize_def)
  have "v = NewWriterSize n \<or> v \<in> set (ps (int n))" "set p \<subseteq> set (ps (int n))" using pool_Get_in [OF g] by auto
  moreover have "ps (int 0) = []" using assms(1) by (metis int_ops(1) less_irrefl list.set_intros(1) neq_Nil_conv writers_ok_def)
  ultimately have "length (bw_buf v) = (if n = 0 then 4096 else n)"
    using assms(1) by (cases "n = 0") (auto simp: writers_ok_def writer_clean_def NewWriterSize_def)
  moreover have "writers_ok qs"
  proof -
    have "\<forall>u\<in>set p. 0 < int n \<and> writer_clean (nat (int n)) u"
      using assms(1) \<open>set p \<subseteq> set (ps (int n))\<close> unfolding writers_ok_def by blast
    then show ?thesis using assms(1) by (simp add: writers_ok_def w(2))
  qed
  ultimately show ?thesis
    using w(1) by (auto simp: bw_ok_def bw_Reset_def in_buf_def pending_def split: if_splits)
qed

section \<open>Responses\<close>

text \<open>
  \<open>FreeResponse\<close> overwrites the response with a zero value. \<open>NewResponseSize\<close> sets only some of the fields and
  relies on the others being zero; the bytes written so far belong to the connection's writer.
\<close>

definition zero_response :: response where
  "zero_response =
     \<lparr>reqMethod = [], wroteHeader = False, rw_out = [], rw_err = None, rw_flushed = 0, connClosed = False, buffer = [],
      cw_wroteHeader = False, cw_chunking = False, handlerHeader = [], setHeader = empty_header, written = 0,
      noCache = False, contentLength = 0, status = 0, hijacked = False, handlerDone = False, bodyClosed = False,
      freedHeader = None, freedBuffer = None\<rparr>"

definition FreeResponse :: "response option \<Rightarrow> response list \<Rightarrow> response list" where
  "FreeResponse w p = (case w of None \<Rightarrow> p | Some r \<Rightarrow> zero_response # p)"

interpretation rp: recycler "\<lambda>r. r = zero_response" "\<lambda>_. zero_response" "\<lambda>_. True" "\<lambda>r. r = zero_response"
  by unfold_locales simp_all

text \<open>The three pools a response is made from, for one buffer size, and the responses under way.\<close>

record resp_pools =
  hp_responses :: "response list"
  hp_headers :: "http_header list"
  hp_buffers :: "bytes list"
  live :: "response list"

definition NewResponseSize :: "nat \<Rightarrow> string \<Rightarrow> nat option \<times> nat option \<times> nat option \<Rightarrow> resp_pools \<Rightarrow> resp_pools" where
  "NewResponseSize sz meth = (\<lambda>(i, j, k) s.
     case pool_Get zero_response i (hp_responses s) of (r, rs) \<Rightarrow>
     case pool_Get [] j (hp_headers s) of (h, hs) \<Rightarrow>
     case pool_Get (replicate sz (CHR 0x00)) k (hp_buffers s) of (b, bs) \<Rightarrow>
       s\<lparr>hp_responses := rs, hp_headers := hs, hp_buffers := bs,
         live := live s @ [r\<lparr>handlerHeader := h, contentLength := -1, reqMethod := meth, buffer := b\<rparr>]\<rparr>)"

text \<open>\<open>FinishRequest\<close>, which runs once, gives the header map and the buffer back.\<close>

definition give_back :: "response \<Rightarrow> response \<Rightarrow> resp_pools \<Rightarrow> resp_pools" where
  "give_back r r1 s =
     (if \<not> handlerDone r \<and> handlerDone r1
      then s\<lparr>hp_headers := the (freedHeader r1) # hp_headers s, hp_buffers := the (freedBuffer r1) # hp_buffers s\<rparr>
      else s)"

text \<open>
  Any number of responses under way: each is made, called by its handler, finished and freed, in any
  order among the others.
\<close>

inductive pool_step :: "http_env \<Rightarrow> nat \<Rightarrow> resp_pools \<Rightarrow> resp_pools \<Rightarrow> bool" for env sz where
  made: "pool_step env sz s (NewResponseSize sz meth choice s)"
| called: "k < length (live s) \<Longrightarrow> run_rcall env c (live s ! k) = Ret r1 \<Longrightarrow>
    pool_step env sz s (give_back (live s ! k) r1 (s\<lparr>live := (live s)[k := r1]\<rparr>))"
| finished: "k < length (live s) \<Longrightarrow> resp_FinishRequest env (live s ! k) = Ret r1 \<Longrightarrow>
    pool_step env sz s (give_back (live s ! k) r1 (s\<lparr>live := (live s)[k := r1]\<rparr>))"
| freed: "k < length (live s) \<Longrightarrow> handlerDone (live s ! k) \<Longrightarrow>
    pool_step env sz s (s\<lparr>hp_responses := FreeResponse (Some (live s ! k)) (hp_responses s),
      live := take k (live s) @ drop (Suc k) (live s)\<rparr>)"
| dropped: "pool_step env sz s (s\<lparr>hp_responses := take a (hp_responses s), hp_headers := take b (hp_headers s),
      hp_buffers := take c (hp_buffers s)\<rparr>)"

definition no_pools :: resp_pools where
  "no_pools = \<lparr>hp_responses = [], hp_headers = [], hp_buffers = [], live = []\<rparr>"

text \<open>A response under way keeps the size of its buffer until it gives it back; it is finished by a hijack, or at the end.\<close>

definition sized_resp :: "nat \<Rightarrow> response \<Rightarrow> bool" where
  "sized_resp sz r \<longleftrightarrow> 0 \<le> written r \<and> (if handlerDone r then True else length (buffer r) = sz)"

lemma WriteHeader_same:
  "resp_WriteHeader code r = Ret r1 \<Longrightarrow> buffer r1 = buffer r \<and> handlerDone r1 = handlerDone r \<and> written r1 = written r"
  by (auto simp: resp_WriteHeader_def go_bind_eq_Ret checkWriteHeaderCode_def Let_def split: if_splits option.splits)

lemma ensure_header_same:
  "ensure_header r = Ret r1 \<Longrightarrow> buffer r1 = buffer r \<and> handlerDone r1 = handlerDone r \<and> written r1 = written r"
  using WriteHeader_same [of 200 r r1] by (auto simp: ensure_header_def split: if_splits)

lemma Write_same:
  assumes "resp_Write env d r = Ret (x, r1)" "0 \<le> written r"
  shows "handlerDone r1 = handlerDone r \<and> length (buffer r1) = length (buffer r) \<and> 0 \<le> written r1"
proof (cases "hijacked r")
  case True
  then show ?thesis using assms by (simp add: resp_Write_def)
next
  case False
  then obtain q where q: "ensure_header r = Ret q" using assms(1) by (auto simp: resp_Write_def go_bind_eq_Ret)
  note e = ensure_header_same [OF q]
  have cw: "handlerDone (snd (cw_Write env p s)) = handlerDone s" "buffer (snd (cw_Write env p s)) = buffer s"
      "written (snd (cw_Write env p s)) = written s" for p s
    by (simp_all add: frame)
  have cw': "cw_Write env p s = (y, t) \<Longrightarrow> handlerDone t = handlerDone s \<and> buffer t = buffer s \<and> written t = written s" for p s y t
    using cw [of p s] by simp
  have copy: "length (take (nat a) b @ d @ drop (nat (a + int (length d))) b) = length b"
    if "0 \<le> a" "a + int (length d) \<le> int (length b)" for a and b :: bytes
    using that by (auto simp: nat_add_distrib)
  show ?thesis
    using assms False q e
    by (auto simp: resp_Write_def Let_def go_bind_eq_Ret buffer_upto_def copy cw dest!: cw' split: if_splits)
qed


lemma Flush_same:
  assumes "resp_Flush env r = Ret r1" "0 \<le> written r"
  shows "handlerDone r1 = handlerDone r \<and> buffer r1 = buffer r \<and> 0 \<le> written r1"
proof (cases "hijacked r")
  case True
  then show ?thesis using assms by (simp add: resp_Flush_def)
next
  case False
  then obtain q where q: "ensure_header r = Ret q" using assms(1) by (auto simp: resp_Flush_def go_bind_eq_Ret)
  show ?thesis
    using assms False q ensure_header_same [OF q]
    by (auto simp: resp_Flush_def go_bind_eq_Ret buffer_upto_def cw_flush_def frame split: if_splits)
qed

text \<open>What \<open>FinishRequest\<close> gives back.\<close>

definition gives :: "http_env \<Rightarrow> nat \<Rightarrow> response \<Rightarrow> response \<Rightarrow> bool" where
  "gives env sz r r1 \<longleftrightarrow> (\<not> handlerDone r \<and> handlerDone r1 \<longrightarrow>
     leftover (canonical env) (the (freedHeader r1)) \<and> length (the (freedBuffer r1)) = sz)"

lemma Finish_gives:
  assumes "resp_FinishRequest env r = Ret r1" "sized_resp sz r"
  shows "gives env sz r r1 \<and> sized_resp sz r1"
proof (cases "handlerDone r")
  case True
  then show ?thesis using assms by (simp add: resp_FinishRequest_def gives_def)
next
  case False
  then obtain q where q: "resp_Flush env (r\<lparr>handlerDone := True\<rparr>) = Ret q"
    using assms(1) by (auto simp: resp_FinishRequest_def go_bind_eq_Ret)
  note f = Flush_same [OF q]
  have "buffer (cw_close env q) = buffer q" "handlerDone (cw_close env q) = handlerDone q" "written (cw_close env q) = written q"
    by (simp_all add: cw_close_def put_def Let_def frame)
  then show ?thesis
    using assms False q f
    by (auto simp: resp_FinishRequest_def gives_def sized_resp_def freeHeader_def freed_leftover frame Let_def)
qed

lemma rcall_gives:
  assumes "run_rcall env c r = Ret r1" "sized_resp sz r"
  shows "gives env sz r r1 \<and> sized_resp sz r1"
proof (cases c)
  case (CallWrite d)
  then obtain x where "resp_Write env d r = Ret (x, r1)" using assms(1) by (auto simp: go_bind_eq_Ret)
  from Write_same [OF this] assms(2) show ?thesis by (auto simp: gives_def sized_resp_def)
next
  case (CallWriteHeader code)
  then have "resp_WriteHeader code r = Ret r1" using assms(1) by simp
  from WriteHeader_same [OF this] assms(2) show ?thesis by (auto simp: gives_def sized_resp_def)
next
  case CallFlush
  then have "resp_Flush env r = Ret r1" using assms(1) by simp
  from Flush_same [OF this] assms(2) show ?thesis by (auto simp: gives_def sized_resp_def)
next
  case CallHijack
  then obtain e q where q: "(if wroteHeader r then resp_FinishRequest env r else Ret r) = Ret q"
      "r1 = q \<or> r1 = q\<lparr>hijacked := True\<rparr>"
    using assms(1) by (auto simp: resp_Hijack_def go_bind_eq_Ret split: if_splits)
  have "gives env sz r q \<and> sized_resp sz q"
    using q(1) Finish_gives [OF _ assms(2), of env q] assms(2) by (auto simp: gives_def split: if_splits)
  then show ?thesis using q(2) by (auto simp: gives_def sized_resp_def)
qed

definition pools_ok :: "http_env \<Rightarrow> nat \<Rightarrow> resp_pools \<Rightarrow> bool" where
  "pools_ok env sz s \<longleftrightarrow> (\<forall>r\<in>set (hp_responses s). r = zero_response) \<and> (\<forall>h\<in>set (hp_headers s). leftover (canonical env) h) \<and>
     (\<forall>b\<in>set (hp_buffers s). length b = sz) \<and> (\<forall>r\<in>set (live s). sized_resp sz r)"

lemma give_back_ok:
  assumes "pools_ok env sz s" "k < length (live s)" "gives env sz (live s ! k) r1 \<and> sized_resp sz r1"
  shows "pools_ok env sz (give_back (live s ! k) r1 (s\<lparr>live := (live s)[k := r1]\<rparr>))"
  using assms set_update_subset_insert [of "live s" k r1]
  by (auto simp: pools_ok_def give_back_def gives_def)

lemma NewResponseSize_ok:
  assumes "pools_ok env sz s"
  shows "pools_ok env sz (NewResponseSize sz meth choice s) \<and>
    (\<exists>b h. live (NewResponseSize sz meth choice s) = live s @ [NewResponse meth b h] \<and> length b = sz \<and> leftover (canonical env) h)"
proof -
  obtain i j k where c: "choice = (i, j, k)" by (metis prod.exhaust)
  obtain r rs where r: "pool_Get zero_response i (hp_responses s) = (r, rs)" by fastforce
  obtain h hs where h: "pool_Get [] j (hp_headers s) = (h, hs)" by fastforce
  obtain b bs where b: "pool_Get (replicate sz (CHR 0x00)) k (hp_buffers s) = (b, bs)" by fastforce
  note in' = pool_Get_in [OF r] pool_Get_in [OF h] pool_Get_in [OF b]
  have v: "r = zero_response" "leftover (canonical env) h" "length b = sz"
    using assms in' by (auto simp: pools_ok_def leftover_def)
  have n: "r\<lparr>handlerHeader := h, contentLength := -1, reqMethod := meth, buffer := b\<rparr> = NewResponse meth b h"
    by (simp add: v(1) zero_response_def NewResponse_def)
  have "sized_resp sz (NewResponse meth b h)" using v(3) by (simp add: sized_resp_def NewResponse_def)
  moreover have "NewResponseSize sz meth choice s =
      s\<lparr>hp_responses := rs, hp_headers := hs, hp_buffers := bs, live := live s @ [NewResponse meth b h]\<rparr>"
    by (simp add: NewResponseSize_def c r h b n)
  moreover have "set rs \<subseteq> set (hp_responses s)" "set hs \<subseteq> set (hp_headers s)" "set bs \<subseteq> set (hp_buffers s)"
    using in' by simp_all
  ultimately show ?thesis
    using assms v(2,3) unfolding pools_ok_def by auto
qed

lemma no_pools_ok: "pools_ok env sz no_pools"
  by (simp add: pools_ok_def no_pools_def)

lemma pool_step_ok: "pool_step env sz s s1 \<Longrightarrow> pools_ok env sz s \<Longrightarrow> pools_ok env sz s1"
proof (induction rule: pool_step.induct)
  case (made s meth choice)
  then show ?case using NewResponseSize_ok by blast
next
  case (called k s c r1)
  then have "sized_resp sz (live s ! k)" by (simp add: pools_ok_def)
  then show ?case using give_back_ok [OF called(3,1)] rcall_gives [OF called(2)] by blast
next
  case (finished k s r1)
  then have "sized_resp sz (live s ! k)" by (simp add: pools_ok_def)
  then show ?case using give_back_ok [OF finished(3,1)] Finish_gives [OF finished(2)] by blast
next
  case (freed k s)
  then show ?case by (auto simp: pools_ok_def FreeResponse_def dest: in_set_takeD in_set_dropD)
next
  case (dropped s a b c)
  then show ?case by (auto simp: pools_ok_def dest: in_set_takeD)
qed



section \<open>The tables of pools\<close>

text \<open>
  \<open>assignBufferPool\<close> and \<open>assignBufioWriterPool\<close> by the atomic step: a look-up in the table, a compare-and-swap
  that takes the lock or starts over, the store of a new pool, and the store that releases the lock. A pool
  is the size its \<open>New\<close> was made with.
\<close>

datatype assign_pc = ALoad | ACas | AStore | AUnlock nat | ADone nat

record assign =
  table :: "int \<Rightarrow> nat option"
  alock :: int
  made_pools :: "int list"
  agents :: "(int \<times> assign_pc) list"

inductive assign_step :: "assign \<Rightarrow> assign \<Rightarrow> bool" where
  enter: "assign_step s (s\<lparr>agents := agents s @ [(sz, ALoad)]\<rparr>)"
| found: "i < length (agents s) \<Longrightarrow> agents s ! i = (sz, ALoad) \<Longrightarrow> table s sz = Some p \<Longrightarrow>
    assign_step s (s\<lparr>agents := (agents s)[i := (sz, ADone p)]\<rparr>)"
| missed: "i < length (agents s) \<Longrightarrow> agents s ! i = (sz, ALoad) \<Longrightarrow> table s sz = None \<Longrightarrow>
    assign_step s (s\<lparr>agents := (agents s)[i := (sz, ACas)]\<rparr>)"
| locked: "i < length (agents s) \<Longrightarrow> agents s ! i = (sz, ACas) \<Longrightarrow> alock s = 0 \<Longrightarrow>
    assign_step s (s\<lparr>alock := 1, agents := (agents s)[i := (sz, AStore)]\<rparr>)"
| busy: "i < length (agents s) \<Longrightarrow> agents s ! i = (sz, ACas) \<Longrightarrow> alock s \<noteq> 0 \<Longrightarrow>
    assign_step s (s\<lparr>agents := (agents s)[i := (sz, ALoad)]\<rparr>)"
| stored: "i < length (agents s) \<Longrightarrow> agents s ! i = (sz, AStore) \<Longrightarrow>
    assign_step s (s\<lparr>table := (table s)(sz \<mapsto> length (made_pools s)), made_pools := made_pools s @ [sz],
      agents := (agents s)[i := (sz, AUnlock (length (made_pools s)))]\<rparr>)"
| unlocked: "i < length (agents s) \<Longrightarrow> agents s ! i = (sz, AUnlock p) \<Longrightarrow>
    assign_step s (s\<lparr>alock := 0, agents := (agents s)[i := (sz, ADone p)]\<rparr>)"

definition no_agents :: assign where
  "no_agents = \<lparr>table = (\<lambda>_. None), alock = 0, made_pools = [], agents = []\<rparr>"

fun holds_lock :: "int \<times> assign_pc \<Rightarrow> bool" where
  "holds_lock (sz, AStore) = True"
| "holds_lock (sz, AUnlock p) = True"
| "holds_lock a = False"

fun agent_ok :: "int list \<Rightarrow> int \<times> assign_pc \<Rightarrow> bool" where
  "agent_ok ps (sz, AUnlock p) = (p < length ps \<and> ps ! p = sz)"
| "agent_ok ps (sz, ADone p) = (p < length ps \<and> ps ! p = sz)"
| "agent_ok ps a = True"

definition assign_ok :: "assign \<Rightarrow> bool" where
  "assign_ok s \<longleftrightarrow> int (length (filter holds_lock (agents s))) = alock s \<and> alock s \<le> 1 \<and>
     (\<forall>sz p. table s sz = Some p \<longrightarrow> p < length (made_pools s) \<and> made_pools s ! p = sz) \<and>
     (\<forall>a\<in>set (agents s). agent_ok (made_pools s) a)"

lemma count_update:
  "i < length as \<Longrightarrow> length (filter P (as[i := a])) + (if P (as ! i) then 1 else 0) = length (filter P as) + (if P a then 1 else 0)"
proof (induction as arbitrary: i)
  case (Cons x as)
  then show ?case by (cases i) auto
qed simp

lemma agent_ok_more: "agent_ok ps a \<Longrightarrow> agent_ok (ps @ [n]) a"
  by (cases "(ps, a)" rule: agent_ok.cases) (auto simp: nth_append)

lemma assign_step_ok: "assign_step s s1 \<Longrightarrow> assign_ok s \<Longrightarrow> assign_ok s1"
proof (induction rule: assign_step.induct)
  case (stored i s sz)
  let ?a = "(sz, AUnlock (length (made_pools s)))"
  have "agent_ok (made_pools s @ [sz]) a" if "a \<in> set ((agents s)[i := ?a])" for a
    using subsetD [OF set_update_subset_insert that] stored(3) by (auto simp: assign_ok_def intro: agent_ok_more)
  then show ?case
    using stored count_update [OF stored(1), of holds_lock ?a] less_Suc_eq
    by (force simp: assign_ok_def nth_append)
next
  case (found i s sz p)
  then show ?case
    using count_update [OF found(1), of holds_lock "(sz, ADone p)"] set_update_subset_insert [of "agents s" i "(sz, ADone p)"]
    by (auto simp: assign_ok_def)
next
  case (missed i s sz)
  then show ?case
    using count_update [OF missed(1), of holds_lock "(sz, ACas)"] set_update_subset_insert [of "agents s" i "(sz, ACas)"]
    by (auto simp: assign_ok_def)
next
  case (locked i s sz)
  then show ?case
    using count_update [OF locked(1), of holds_lock "(sz, AStore)"] set_update_subset_insert [of "agents s" i "(sz, AStore)"]
    by (auto simp: assign_ok_def)
next
  case (busy i s sz)
  then show ?case
    using count_update [OF busy(1), of holds_lock "(sz, ALoad)"] set_update_subset_insert [of "agents s" i "(sz, ALoad)"]
    by (auto simp: assign_ok_def)
next
  case (unlocked i s sz p)
  have "agent_ok (made_pools s) (sz, AUnlock p)" using unlocked nth_mem [of i "agents s"] by (auto simp: assign_ok_def)
  moreover have "int (length (filter holds_lock (agents s))) \<le> 1" using unlocked(3) by (auto simp: assign_ok_def)
  then have "length (filter holds_lock ((agents s)[i := (sz, ADone p)])) = 0"
    using count_update [OF unlocked(1), of holds_lock "(sz, ADone p)"] unlocked(2)
    by (simp del: length_0_conv)
  ultimately show ?case
    using unlocked set_update_subset_insert [of "agents s" i "(sz, ADone p)"] by (auto simp: assign_ok_def)
qed (auto simp: assign_ok_def)

text \<open>
  C35. The tables of pools are safe for any number of goroutines in any interleaving: at most one of them is
  between its compare-and-swap and its release of the lock, and every pool that a call of \<open>assignBufferPool\<close> or
  \<open>assignBufioWriterPool\<close> returns makes objects of the size the call asked for.
\<close>

theorem assigned_pool_has_size:
  assumes "assign_step\<^sup>*\<^sup>* no_agents s"
  shows "length (filter holds_lock (agents s)) \<le> 1 \<and>
    (i < length (agents s) \<and> agents s ! i = (sz, ADone p) \<longrightarrow> p < length (made_pools s) \<and> made_pools s ! p = sz)"
proof -
  have "assign_ok no_agents" by (simp add: assign_ok_def no_agents_def)
  with assms have "assign_ok s" by (induction rule: rtranclp_induct) (auto intro: assign_step_ok)
  moreover have "p < length (made_pools s) \<and> made_pools s ! p = sz"
    if "i < length (agents s)" "agents s ! i = (sz, ADone p)"
  proof -
    have "(sz, ADone p) \<in> set (agents s)" using that nth_mem by metis
    then have "agent_ok (made_pools s) (sz, ADone p)" using \<open>assign_ok s\<close> unfolding assign_ok_def by blast
    then show ?thesis by simp
  qed
  ultimately show ?thesis by (simp add: assign_ok_def)
qed

text \<open>Two goroutines that ask for the same size can get two pools: neither looks again under the lock.\<close>

definition two_pools :: assign where
  "two_pools = \<lparr>table = [64 \<mapsto> 1], alock = 0, made_pools = [64, 64], agents = [(64, ADone 0), (64, ADone 1)]\<rparr>"

lemma two_pools_reached: "assign_step\<^sup>*\<^sup>* no_agents two_pools"
proof -
  let ?s = "\<lambda>t l ps as. \<lparr>table = t, alock = l, made_pools = ps, agents = as\<rparr> :: assign"
  let ?e = "\<lambda>_. None"
  have "assign_step no_agents (?s ?e 0 [] [(64, ALoad)])"
    using assign_step.enter [of no_agents 64] by (simp add: no_agents_def)
  moreover have "assign_step (?s ?e 0 [] [(64, ALoad)]) (?s ?e 0 [] [(64, ALoad), (64, ALoad)])"
    using assign_step.enter [of "?s ?e 0 [] [(64, ALoad)]" 64] by simp
  moreover have "assign_step (?s ?e 0 [] [(64, ALoad), (64, ALoad)]) (?s ?e 0 [] [(64, ACas), (64, ALoad)])"
    using assign_step.missed [of 0 "?s ?e 0 [] [(64, ALoad), (64, ALoad)]" 64] by simp
  moreover have "assign_step (?s ?e 0 [] [(64, ACas), (64, ALoad)]) (?s ?e 0 [] [(64, ACas), (64, ACas)])"
    using assign_step.missed [of 1 "?s ?e 0 [] [(64, ACas), (64, ALoad)]" 64] by simp
  moreover have "assign_step (?s ?e 0 [] [(64, ACas), (64, ACas)]) (?s ?e 1 [] [(64, AStore), (64, ACas)])"
    using assign_step.locked [of 0 "?s ?e 0 [] [(64, ACas), (64, ACas)]" 64] by simp
  moreover have "assign_step (?s ?e 1 [] [(64, AStore), (64, ACas)]) (?s [64 \<mapsto> 0] 1 [64] [(64, AUnlock 0), (64, ACas)])"
    using assign_step.stored [of 0 "?s ?e 1 [] [(64, AStore), (64, ACas)]" 64] by simp
  moreover have "assign_step (?s [64 \<mapsto> 0] 1 [64] [(64, AUnlock 0), (64, ACas)]) (?s [64 \<mapsto> 0] 0 [64] [(64, ADone 0), (64, ACas)])"
    using assign_step.unlocked [of 0 "?s [64 \<mapsto> 0] 1 [64] [(64, AUnlock 0), (64, ACas)]" 64 0] by simp
  moreover have "assign_step (?s [64 \<mapsto> 0] 0 [64] [(64, ADone 0), (64, ACas)]) (?s [64 \<mapsto> 0] 1 [64] [(64, ADone 0), (64, AStore)])"
    using assign_step.locked [of 1 "?s [64 \<mapsto> 0] 0 [64] [(64, ADone 0), (64, ACas)]" 64] by simp
  moreover have "assign_step (?s [64 \<mapsto> 0] 1 [64] [(64, ADone 0), (64, AStore)]) (?s [64 \<mapsto> 1] 1 [64, 64] [(64, ADone 0), (64, AUnlock 1)])"
    using assign_step.stored [of 1 "?s [64 \<mapsto> 0] 1 [64] [(64, ADone 0), (64, AStore)]" 64] by simp
  moreover have "assign_step (?s [64 \<mapsto> 1] 1 [64, 64] [(64, ADone 0), (64, AUnlock 1)]) two_pools"
    using assign_step.unlocked [of 1 "?s [64 \<mapsto> 1] 1 [64, 64] [(64, ADone 0), (64, AUnlock 1)]" 64 1] by (simp add: two_pools_def)
  ultimately show ?thesis by (meson rtranclp.rtrancl_into_rtrancl rtranclp.rtrancl_refl)
qed

theorem assigned_pool_has_size_witness: "made_pools two_pools ! 0 = 64 \<and> made_pools two_pools ! 1 = 64"
  using assigned_pool_has_size [OF two_pools_reached, of 0 64 0] assigned_pool_has_size [OF two_pools_reached, of 1 64 1]
  by (simp add: two_pools_def)

end
