(* ===== verification/TcpInfo.thy ===== *)
theory TcpInfo
  imports SysCalls
begin

text \<open>
  The state of a TCP socket as \<open>sys/sys_poll_linux.go\<close> asks the kernel for it: the structure \<open>state\<close>, whose
  first fields copy the layout of the kernel's \<open>tcp_info\<close>, and \<open>SocketClosed\<close>, which lets \<open>getsockopt\<close>
  write into its memory and reads one byte back. The system call gets a raw address and a length of 232
  bytes: that it writes nothing but the fields meant for it, and not the string header behind them, depends on the layout.
\<close>

section \<open>The layout of the structure\<close>

datatype go_kind = U8 | U32 | U64 | I64 | IntW | Str | Bytes nat

text \<open>
  Sizes and alignments for a word of \<open>w\<close> bytes: 8 on the 64 bit platforms, 4 on the others, where a value of
  64 bits is aligned to 4. A string is a pointer and a length.
\<close>

fun size_of :: "nat \<Rightarrow> go_kind \<Rightarrow> nat" where
  "size_of w U8 = 1"
| "size_of w U32 = 4"
| "size_of w U64 = 8"
| "size_of w I64 = 8"
| "size_of w IntW = w"
| "size_of w Str = 2 * w"
| "size_of w (Bytes n) = n"

fun align_of :: "nat \<Rightarrow> go_kind \<Rightarrow> nat" where
  "align_of w U8 = 1"
| "align_of w U32 = 4"
| "align_of w (Bytes n) = 1"
| "align_of w k = w"

definition state_fields :: "(string \<times> go_kind) list" where
  "state_fields =
     [(''State'', U8), (''CaState'', U8), (''Retransmits'', U8), (''Probes'', U8), (''Backoff'', U8),
      (''Options'', U8), (''pad'', Bytes 2), (''Rto'', U32), (''Ato'', U32), (''SndMss'', U32),
      (''RcvMss'', U32), (''Unacked'', U32), (''Sacked'', U32), (''Lost'', U32), (''Retrans'', U32),
      (''Fackets'', U32), (''LastDataSent'', U32), (''LastAckSent'', U32), (''LastDataRecv'', U32),
      (''LastAckRecv'', U32), (''Pmtu'', U32), (''RcvSsthresh'', U32), (''Rtt'', U32), (''Rttvar'', U32),
      (''SndSsthresh'', U32), (''SndCwnd'', U32), (''Advmss'', U32), (''Reordering'', U32), (''RcvRtt'', U32),
      (''RcvSpace'', U32), (''TotalRetrans'', U32), (''PacingRate'', U64), (''maxPacingRate'', U64),
      (''BytesAcked'', U64), (''BytesReceived'', U64), (''SegsOut'', U32), (''SegsIn'', U32),
      (''NotsentBytes'', U32), (''MinRtt'', U32), (''DataSegsIn'', U32), (''DataSegsOut'', U32),
      (''DeliveryRate'', U64), (''BusyTime'', U64), (''RwndLimited'', U64), (''SndbufLimited'', U64),
      (''Delivered'', U32), (''DeliveredCe'', U32), (''BytesSent'', U64), (''BytesRetrans'', U64),
      (''DsackDups'', U32), (''ReordSeen'', U32), (''RcvOoopack'', U32), (''SndWnd'', U32),
      (''TCPCongesAlg'', Str), (''HTTPStatusCode'', IntW), (''HTTPRcvdBytes'', I64), (''HTTPRequest'', I64),
      (''HTTPResponse'', I64), (''DNSResolve'', I64), (''TCPConnect'', I64), (''TLSHandshake'', I64),
      (''TCPConnectError'', I64), (''DNSResolveError'', I64)]"

definition align_up :: "nat \<Rightarrow> nat \<Rightarrow> nat" where
  "align_up a n = (n + a - 1) div a * a"

text \<open>Each field with its offset and its size.\<close>

fun layout :: "nat \<Rightarrow> nat \<Rightarrow> (string \<times> go_kind) list \<Rightarrow> (string \<times> nat \<times> nat) list" where
  "layout w off [] = []"
| "layout w off ((f, k) # fs) =
     (let o' = align_up (align_of w k) off in (f, o', size_of w k) # layout w (o' + size_of w k) fs)"

definition sizeof_state :: "nat \<Rightarrow> nat" where
  "sizeof_state w = (case last (layout w 0 state_fields) of (_, o', sz) \<Rightarrow> align_up w (o' + sz))"

definition field_at :: "nat \<Rightarrow> string \<Rightarrow> nat" where
  "field_at w f = (case map_of (layout w 0 state_fields) f of Some (o', _) \<Rightarrow> o' | None \<Rightarrow> sizeof_state w)"

lemma align_up_ge: "0 < a \<Longrightarrow> off \<le> align_up a off"
  using dividend_less_times_div [of a "off + a - 1"] by (simp add: align_up_def mult.commute)

lemma align_of_pos: "0 < w \<Longrightarrow> 0 < align_of w k"
  by (cases k) simp_all

text \<open>The fields follow each other in the order of the declaration and do not overlap.\<close>

lemma layout_after: "0 < w \<Longrightarrow> (f, p, n) \<in> set (layout w off fs) \<Longrightarrow> off \<le> p"
proof (induction w off fs rule: layout.induct)
  case (2 w off g k fs)
  then show ?case
    using align_up_ge [OF align_of_pos [of w k], of off] by (fastforce simp: Let_def)
qed simp

lemma layout_disjoint:
  "0 < w \<Longrightarrow> i < j \<Longrightarrow> j < length (layout w off fs) \<Longrightarrow> layout w off fs ! i = (f, p, n) \<Longrightarrow>
     layout w off fs ! j = (g, q, m) \<Longrightarrow> p + n \<le> q"
proof (induction w off fs arbitrary: i j rule: layout.induct)
  case (2 w off h k fs)
  then obtain j' where j: "j = Suc j'" by (cases j) auto
  let ?o = "align_up (align_of w k) off"
  show ?case
  proof (cases i)
    case 0
    have "(g, q, m) \<in> set (layout w (?o + size_of w k) fs)"
      using 2(4,6) nth_mem [of j'] by (fastforce simp: j Let_def)
    then show ?thesis using layout_after [OF 2(2)] 2(5) 0 by (auto simp: Let_def)
  next
    case (Suc i')
    then show ?thesis using 2 by (simp add: j Let_def)
  qed
qed simp

lemma layout_fields: "map fst (layout w off fs) = map fst fs"
  by (induction w off fs rule: layout.induct) (simp_all add: Let_def)

text \<open>
  What the kernel writes ends with \<open>SndWnd\<close> at byte 232 on both word sizes, where the fields of the program begin
  with the string.
\<close>

lemma layout_64: "field_at 8 ''State'' = 0" "field_at 8 ''SndWnd'' = 228" "field_at 8 ''TCPCongesAlg'' = 232" "232 < sizeof_state 8"
  by code_simp+

lemma layout_32: "field_at 4 ''State'' = 0" "field_at 4 ''SndWnd'' = 228" "field_at 4 ''TCPCongesAlg'' = 232" "232 < sizeof_state 4"
  by code_simp+

lemma kernel_part:
  assumes "w = 8 \<or> w = 4"
  shows "field_at w ''State'' = 0" "field_at w ''SndWnd'' + 4 = 232" "field_at w ''TCPCongesAlg'' = 232" "232 < sizeof_state w"
  using assms layout_64 layout_32 by auto

section \<open>SocketClosed\<close>

text \<open>
  \<open>getsockopt\<close> with the answer of the kernel: nothing when it fails, otherwise as many bytes of it as the length
  allows, written at the address of the structure. \<open>SocketClosed\<close> ignores the error.
\<close>

definition getsockopt_into :: "bytes option \<Rightarrow> nat \<Rightarrow> bytes \<Rightarrow> bytes" where
  "getsockopt_into ans sz m =
     (case ans of None \<Rightarrow> m | Some info \<Rightarrow> take sz info @ drop (min sz (length info)) m)"

definition socket_memory :: "nat \<Rightarrow> bytes option \<Rightarrow> bytes" where
  "socket_memory w ans = getsockopt_into ans 232 (replicate (sizeof_state w) (CHR 0x00))"

definition SocketClosed :: "nat \<Rightarrow> bytes option \<Rightarrow> bool" where
  "SocketClosed w ans = (if socket_memory w ans ! field_at w ''State'' = CHR 0x01 then False else True)"

text \<open>The system call stays within the structure and leaves every field behind the kernel's as it was.\<close>

lemma socket_memory_bounds:
  assumes "w = 8 \<or> w = 4"
  shows "length (socket_memory w ans) = sizeof_state w"
    and "drop (field_at w ''TCPCongesAlg'') (socket_memory w ans) = replicate (sizeof_state w - 232) (CHR 0x00)"
  using kernel_part(4) [OF assms] by (auto simp: kernel_part(3) [OF assms] socket_memory_def getsockopt_into_def split: option.split)

text \<open>
  A socket counts as open exactly when the kernel answers and the first byte is \<open>TCP_ESTABLISHED\<close>: a failed call
  leaves a zero there, which reads as closed, and so does a connection that only one side has closed.
\<close>

lemma SocketClosed_iff:
  assumes "w = 8 \<or> w = 4"
  shows "SocketClosed w ans \<longleftrightarrow> (\<forall>info. ans = Some (CHR 0x01 # info) \<longrightarrow> False)"
proof (cases ans)
  case None
  then show ?thesis using kernel_part [OF assms] by (simp add: SocketClosed_def socket_memory_def getsockopt_into_def)
next
  case (Some info)
  then show ?thesis
    using kernel_part [OF assms] by (cases info) (simp_all add: SocketClosed_def socket_memory_def getsockopt_into_def)
qed

lemma half_closed_counts_as_closed: "SocketClosed 8 (Some (CHR 0x08 # replicate 231 (CHR 0x00)))"
  by (simp add: SocketClosed_iff)

end
