(* ===== verification/SubLoop.thy ===== *)
theory SubLoop
  imports Eloop
begin

text \<open>
  A sub loop with many connections: the poll loop of \<open>sys/sys_poll_linux.go\<close>, the callback of
  \<open>poll/poll.go\<close> and the connections of \<open>eloop/event.go\<close> put together, for whole runs of the loop. A relation
  between the state of the poller before and after is shown of every part, and so of every run.
\<close>

section \<open>What every part of a poll loop keeps\<close>

fun run_state :: "'s poll_run \<Rightarrow> 's" where
  "run_state (Running sz timeout trigger s) = s"
| "run_state (Stopped e s) = s"

text \<open>
  The interface: a reflexive and transitive relation that keeps an invariant and holds across the bookkeeping
  of the poller, its wake-up and its reads, every task, and every job and result of the callback for a
  descriptor of \<open>F\<close>.
\<close>

locale poller_keeps =
  fixes K :: "('k, 'sa) kernel"
    and C :: "('t, 'k, 'w) poller poll_callback"
    and G :: "('t, ('t, 'k, 'w) poller) task_fn"
    and F :: "int set"
    and I :: "('t, 'k, 'w) poller \<Rightarrow> bool"
    and R :: "('t, 'k, 'w) poller \<Rightarrow> ('t, 'k, 'w) poller \<Rightarrow> bool"
  assumes R_refl: "R p p"
    and R_trans: "R p q \<Longrightarrow> R q r \<Longrightarrow> R p r"
    and R_inv: "I p \<Longrightarrow> R p q \<Longrightarrow> I q"
    and R_fields: "R p (p\<lparr>priorTasks := a, tasks := b, toTrigger := i, ErrForStop := es\<rparr>)"
    and R_trigger: "Trigger K (pollEvFd p) (kern p) = (x, k) \<Longrightarrow> R p (p\<lparr>kern := k\<rparr>)"
    and R_read: "R p (p\<lparr>kern := snd (k_read K fd n (kern p))\<rparr>)"
    and R_task: "G t p = (x, q) \<Longrightarrow> R p q"
    and R_block: "fd \<in> F \<Longrightarrow> IsBlocked C \<Longrightarrow> Callback C fd ev p = Ret (x, q) \<Longrightarrow> R p q"
    and R_start: "fd \<in> F \<Longrightarrow> AsyncWaitCallback C fd ev p = (ch, js, q) \<Longrightarrow> R p q"
    and R_job: "I p \<Longrightarrow> fd \<in> F \<Longrightarrow> AsyncWaitCallback C fd ev p = (ch, js, q) \<Longrightarrow> j \<in> set js \<Longrightarrow> j u = Some v \<Longrightarrow> R u v"
    and R_error: "I p \<Longrightarrow> fd \<in> F \<Longrightarrow> AsyncWaitCallback C fd ev p = (Some rcv, js, q) \<Longrightarrow> rcv u = (x, v) \<Longrightarrow> R u v"
begin

text \<open>A job that keeps the relation whenever it ends.\<close>

definition good :: "('t, 'k, 'w) poller job \<Rightarrow> bool" where
  "good j \<longleftrightarrow> (\<forall>u v. j u = Some v \<longrightarrow> R u v)"

lemma R_field:
  "R p (p\<lparr>priorTasks := a\<rparr>)" "R p (p\<lparr>tasks := b\<rparr>)" "R p (p\<lparr>toTrigger := i\<rparr>)" "R p (p\<lparr>ErrForStop := es\<rparr>)"
  using R_fields [where p = p and a = a and b = "tasks p" and i = "toTrigger p" and es = "ErrForStop p"]
    R_fields [where p = p and a = "priorTasks p" and b = b and i = "toTrigger p" and es = "ErrForStop p"]
    R_fields [where p = p and a = "priorTasks p" and b = "tasks p" and i = i and es = "ErrForStop p"]
    R_fields [where p = p and a = "priorTasks p" and b = "tasks p" and i = "toTrigger p" and es = es]
  by simp_all

lemma send_stop_R: "R p (send_stop e p)"
  by (simp add: send_stop_def R_refl R_field split: option.split)

lemma task_job_good: "good (task_job G t)"
  unfolding good_def task_job_def using R_task R_trans send_stop_R by (fastforce split: prod.splits option.splits)

lemma runTask_R: "runTask G t js p = (e, js1, q) \<Longrightarrow> R p q \<and> (list_all good js \<longrightarrow> list_all good js1)"
  using task_job_good R_task [of t p]
  by (auto simp: runTask_def R_refl good_def [of "\<lambda>_. None"] split: pool.splits prod.splits option.splits)

lemma run_jobs_R: "list_all good js \<Longrightarrow> run_jobs js p = Ret q \<Longrightarrow> R p q"
proof (induction js arbitrary: p)
  case (Cons j js)
  then obtain p1 where p1: "j p = Some p1" "run_jobs js p1 = Ret q" by (auto split: option.splits)
  then have "R p p1" "R p1 q" using Cons by (auto simp: good_def)
  then show ?case by (rule R_trans)
qed (simp add: R_refl)

lemma drain_prior_R:
  "drain_prior G js p = Some (js1, q) \<Longrightarrow> list_all good js \<Longrightarrow> R p q \<and> list_all good js1"
proof -
  have "H = G \<longrightarrow> list_all good js \<longrightarrow> R p (snd r) \<and> list_all good (fst r)" if "drain_prior H js p = Some r" for H js p r
    using that
  proof (rule drain_prior.raw_induct [where P = "\<lambda>H js p r. H = G \<longrightarrow> list_all good js \<longrightarrow> R p (snd r) \<and> list_all good (fst r)",
      rotated])
    fix drain H js p r
    assume IH: "\<And>H js p r. drain H js p = Some r \<Longrightarrow> H = G \<longrightarrow> list_all good js \<longrightarrow> R p (snd r) \<and> list_all good (fst r)"
      and d: "(case seq_Dequeue (priorTasks p) of
          (None, q) \<Rightarrow> Some (js, p\<lparr>priorTasks := q\<rparr>)
        | (Some t, q) \<Rightarrow> (case runTask H t js (p\<lparr>priorTasks := q\<rparr>) of (e, jobs', p') \<Rightarrow> drain H jobs' p')) = Some r"
    show "H = G \<longrightarrow> list_all good js \<longrightarrow> R p (snd r) \<and> list_all good (fst r)"
    proof (intro impI)
      assume H: "H = G" and js: "list_all good js"
      obtain t q where sd: "seq_Dequeue (priorTasks p) = (t, q)" by fastforce
      show "R p (snd r) \<and> list_all good (fst r)"
      proof (cases t)
        case None
        then show ?thesis using d sd js R_field by auto
      next
        case (Some t1)
        obtain e js2 p2 where rt: "runTask G t1 js (p\<lparr>priorTasks := q\<rparr>) = (e, js2, p2)" by (metis prod.exhaust)
        have "R p p2" "list_all good js2" using runTask_R [OF rt] js R_trans [OF R_field(1)] by blast+
        moreover have "drain G js2 p2 = Some r" using d sd Some rt H by simp
        ultimately show ?thesis using IH [of G js2 p2 r] R_trans by blast
      qed
    qed
  qed
  then show "drain_prior G js p = Some (js1, q) \<Longrightarrow> list_all good js \<Longrightarrow> R p q \<and> list_all good js1" by fastforce
qed

lemma drain_tasks_R: "drain_tasks n G js p = (js1, q) \<Longrightarrow> list_all good js \<Longrightarrow> R p q \<and> list_all good js1"
proof (induction n arbitrary: js p)
  case (Suc n)
  obtain t q1 where sd: "seq_Dequeue (tasks p) = (t, q1)" by fastforce
  show ?case
  proof (cases t)
    case None
    then show ?thesis using Suc.prems sd R_field by auto
  next
    case (Some t1)
    obtain e js2 p2 where rt: "runTask G t1 js (p\<lparr>tasks := q1\<rparr>) = (e, js2, p2)" by (metis prod.exhaust)
    have "R p p2" "list_all good js2" using runTask_R [OF rt] Suc.prems(2) R_trans [OF R_field(2)] by blast+
    then show ?thesis using Suc.IH [of js2 p2] Suc.prems(1) sd Some rt R_trans by auto
  qed
qed (simp add: R_refl)

lemma recv_stop_R: "recv_stop p = (x, q) \<Longrightarrow> R p q"
  by (auto simp: recv_stop_def R_refl R_field split: option.splits list.splits)

lemma after_wait_R: "after_wait K p = (x, q) \<Longrightarrow> R p q"
proof -
  assume a: "after_wait K p = (x, q)"
  obtain e p1 where r: "recv_stop p = (e, p1)" by fastforce
  let ?p2 = "p1\<lparr>toTrigger := 0\<rparr>"
  obtain y k where t: "Trigger K (pollEvFd ?p2) (kern ?p2) = (y, k)" by fastforce
  have "R p ?p2" "R p p1" using recv_stop_R [OF r] R_trans R_field(3) by blast+
  moreover have "R ?p2 (?p2\<lparr>toTrigger := 1, kern := k\<rparr>)"
    by (rule R_trans [OF R_field(3) R_trigger]) (use t in simp)
  ultimately show ?thesis
    using a r t R_trans [of p ?p2] by (auto simp: after_wait_def Let_def split: option.splits if_splits)
qed

lemma end_callback_R:
  assumes "end_callback C ch fd ev tr p = Ret (x, q)" "fd \<in> F" "\<And>rcv u x v. ch = Some rcv \<Longrightarrow> rcv u = (x, v) \<Longrightarrow> R u v"
  shows "R p q"
proof -
  obtain e p1 where c: "(if IsBlocked C then Callback C fd ev p else Ret (None, p)) = Ret (e, p1)"
    using assms(1) by (auto simp: end_callback_def go_bind_eq_Ret)
  have 1: "R p p1" using c R_block [OF assms(2)] R_refl by (auto split: if_splits)
  obtain y p2 where r: "(case ch of None \<Rightarrow> (None, p1) | Some rcv \<Rightarrow> rcv p1) = (y, p2)" by fastforce
  have "R p1 p2" using r assms(3) R_refl by (auto split: option.splits)
  moreover have "q = p2" using assms(1) c r by (auto simp: end_callback_def split: option.splits)
  ultimately show ?thesis using 1 R_trans by blast
qed

lemma start_callback_R:
  assumes "start_callback K G arrange C fd ev tr p = Ret (x, q)" "fd \<in> F" "runs_all arrange" "I p"
  shows "R p q"
proof -
  obtain ch js p1 where a: "(if \<not> IsBlocked C then AsyncWaitCallback C fd ev p else (None, [], p)) = (ch, js, p1)"
    by (metis prod.exhaust)
  have 1: "R p p1" "list_all good js" "\<And>rcv u x v. ch = Some rcv \<Longrightarrow> rcv u = (x, v) \<Longrightarrow> R u v"
    using a R_refl R_start [OF assms(2)] R_job [OF assms(4,2)] R_error [OF assms(4,2)]
    by (auto simp: list_all_iff good_def split: if_splits)
  have arr: "list_all good ks \<Longrightarrow> list_all good (arrange ks)" for ks
    using assms(3) by (simp add: list_all_iff runs_all_def) (metis set_mset_mset)
  have last: "R u q" if "end_callback C ch fd ev tr2 u = Ret (x, q)" for tr2 u
    by (rule end_callback_R [OF that assms(2)]) (rule 1(3))
  show ?thesis
  proof (cases tr)
    case False
    then obtain p2 where "run_jobs (arrange js) p1 = Ret p2" "end_callback C ch fd ev False p2 = Ret (x, q)"
      using assms(1) a by (auto simp: start_callback_def go_bind_eq_Ret)
    then have "R p1 p2" "R p2 q" using run_jobs_R [OF arr [OF 1(2)]] last by blast+
    then show ?thesis using 1(1) R_trans by blast
  next
    case True
    then obtain js2 p2 where d: "drain_prior G js p1 = Some (js2, p2)"
      using assms(1) a by (auto simp: start_callback_def split: option.splits)
    obtain js3 p3 where d3: "drain_tasks MaxTasks G js2 p2 = (js3, p3)" by fastforce
    obtain p4 where p4: "run_jobs (arrange js3) p3 = Ret p4"
      using assms(1) a True d d3 by (auto simp: start_callback_def go_bind_eq_Ret)
    obtain e tr2 p5 where p5: "after_wait K p4 = ((e, tr2), p5)" by (metis prod.exhaust)
    have "R p p2" "list_all good js2" using 1 drain_prior_R [OF d] R_trans by blast+
    then have "R p p4" using drain_tasks_R [OF d3] arr run_jobs_R [OF _ p4] R_trans by blast
    then have "R p p5" using after_wait_R [OF p5] R_trans by blast
    moreover have "q = p5 \<or> end_callback C ch fd ev tr2 p5 = Ret (x, q)"
      using assms(1) a True d d3 p4 p5 by (auto simp: start_callback_def split: option.splits)
    ultimately show ?thesis using last R_trans by blast
  qed
qed

lemma dispatch_R:
  assumes "runs_all arrange"
  shows "dispatch (start_env K wait G arrange C efd) evs tr p = Ret (e, tr1, q) \<Longrightarrow> fst ` set evs \<subseteq> F \<Longrightarrow> I p \<Longrightarrow> R p q"
proof (induction evs arbitrary: tr p)
  case (Cons x evs)
  obtain fd ev where x: "x = (fd, ev)" by fastforce
  let ?p1 = "if fd = efd then p\<lparr>kern := snd (k_read K efd 8 (kern p))\<rparr> else p"
  have "R p ?p1" using R_refl R_read by simp
  obtain tr2 err p2 where s: "start_callback K G arrange C fd ev (if evs = [] then (if fd = efd then True else tr) else False) ?p1 =
      Ret ((tr2, err), p2)" and rest: "(case doWaitCallbackErr err of Some y \<Rightarrow> q = p2
        | None \<Rightarrow> dispatch (start_env K wait G arrange C efd) evs tr2 p2 = Ret (e, tr1, q))"
    using Cons.prems(1) by (auto simp: x start_env_def Let_def go_bind_eq_Ret split: option.splits if_splits)
  have "R ?p1 p2" by (rule start_callback_R [OF s _ assms]) (use Cons.prems(2,3) R_inv \<open>R p ?p1\<close> in \<open>auto simp: x\<close>)
  then have "R p p2" using \<open>R p ?p1\<close> R_trans by blast
  moreover have "R p2 q" if "dispatch (start_env K wait G arrange C efd) evs tr2 p2 = Ret (e, tr1, q)"
    using Cons.IH [OF that] Cons.prems(2,3) R_inv \<open>R p p2\<close> by simp
  ultimately show ?case using rest R_trans by (cases "doWaitCallbackErr err") auto
qed (simp add: R_refl)

lemma poll_rounds_R:
  assumes "runs_all arrange" "F = UNIV" "\<And>p sz i. R p (p\<lparr>kern := snd (wait sz i (kern p))\<rparr>)"
  shows "poll_rounds (start_env K wait G arrange C efd) n r = Ret r1 \<Longrightarrow> I (run_state r) \<Longrightarrow> R (run_state r) (run_state r1)"
proof (induction n arbitrary: r)
  case (Suc n)
  show ?case
  proof (cases r)
    case (Running sz i tr p)
    obtain y k where w: "wait sz i (kern p) = (y, k)" by fastforce
    let ?p1 = "p\<lparr>kern := k\<rparr>" and ?E = "start_env K wait G arrange C efd"
    have k: "R p ?p1" using assms(3) [of p sz i] w by simp
    have i: "I ?p1" using Suc.prems(2) Running k R_inv by simp
    obtain r2 where r2: "poll_round ?E sz i tr p = Ret r2" "poll_rounds ?E n r2 = Ret r1"
      using Suc.prems(1) Running by (auto simp: go_bind_eq_Ret)
    have "run_state r2 = ?p1 \<or> (\<exists>evs e tr1. dispatch ?E evs tr ?p1 = Ret (e, tr1, run_state r2))"
      using r2(1) w
      by (auto simp: poll_round_def start_env_def [THEN arg_cong [of _ _ ep_wait], simplified] go_bind_eq_Ret Let_def
          split: sum.splits if_splits option.splits)
    then have "R ?p1 (run_state r2)" using dispatch_R [OF assms(1) _ _ i] assms(2) R_refl by auto
    then have "R p (run_state r2)" "I (run_state r2)" using k R_trans R_inv [OF i] by blast+
    then show ?thesis using Suc.IH [OF r2(2)] R_trans Running by auto
  qed (use Suc.prems R_refl in auto)
qed (simp add: R_refl)

end

section \<open>One connection among others\<close>

text \<open>
  A step of one connection: what has been sent on the other descriptors and their entries in the list stay,
  and its own entry stays as long as the connection is open.
\<close>

definition local_step :: "('k \<Rightarrow> int \<Rightarrow> bytes) \<Rightarrow> ('cb, 'ob, 'rb, 'sa, 'k, 'x eloop) conn \<Rightarrow>
    ('cb, 'ob, 'rb, 'sa, 'k, 'x eloop) conn \<Rightarrow> bool" where
  "local_step S c c' \<longleftrightarrow> Fd c' = Fd c \<and>
     (\<forall>fd. fd \<noteq> Fd c \<longrightarrow> S (ckern c') fd = S (ckern c) fd \<and> ConnList (cworld c') fd = ConnList (cworld c) fd) \<and>
     (ConnList (cworld c') (Fd c) = None \<or>
      ConnList (cworld c') (Fd c) = ConnList (cworld c) (Fd c) \<and> (Opened c \<longrightarrow> Opened c'))"

lemma local_step_refl [simp]: "local_step S c c"
  by (simp add: local_step_def)

lemma local_step_trans: "local_step S a b \<Longrightarrow> local_step S b c \<Longrightarrow> local_step S a c"
  by (auto simp: local_step_def)

lemma local_stepI:
  "Fd c' = Fd c \<Longrightarrow> Opened c' = Opened c \<Longrightarrow> cworld c' = cworld c \<Longrightarrow>
    (\<And>fd. fd \<noteq> Fd c \<Longrightarrow> S (ckern c') fd = S (ckern c) fd) \<Longrightarrow> local_step S c c'"
  by (simp add: local_step_def)

text \<open>The application's handlers work on their own connection, and a close takes it off the list of its loop.\<close>

definition handlers_local :: "('cb, 'ob, 'rb, 'sa, 'k, 'x eloop) conn_env \<Rightarrow> ('k \<Rightarrow> int \<Rightarrow> bytes) \<Rightarrow> bool" where
  "handlers_local E S \<longleftrightarrow> (\<forall>c. local_step S c (snd (onTrack E c))) \<and> (\<forall>c. local_step S c (snd (onClose E c))) \<and>
     removeConn E = RemoveConn"

lemma close_flush_local:
  fixes S :: "'k \<Rightarrow> int \<Rightarrow> bytes" and c c' :: "('cb, 'ob, 'rb, 'sa, 'k, 'x eloop) conn"
  assumes "posix (kernel_of E) S" "close_flush E c = Some c'"
  shows "local_step S c c' \<and> cworld c' = cworld c \<and> Opened c' = Opened c"
proof -
  have "posix (kernel_of E) S \<longrightarrow> local_step S c c' \<and> cworld c' = cworld c \<and> Opened c' = Opened c"
    using assms(2)
  proof (rule close_flush.raw_induct [where P = "\<lambda>E c c'. posix (kernel_of E) S \<longrightarrow>
      local_step S c c' \<and> cworld c' = cworld c \<and> Opened c' = Opened c", rotated])
    fix flush :: "('cb, 'ob, 'rb, 'sa, 'k, 'x eloop) conn_env \<Rightarrow> ('cb, 'ob, 'rb, 'sa, 'k, 'x eloop) conn \<Rightarrow>
        ('cb, 'ob, 'rb, 'sa, 'k, 'x eloop) conn option"
      and E :: "('cb, 'ob, 'rb, 'sa, 'k, 'x eloop) conn_env" and c c' :: "('cb, 'ob, 'rb, 'sa, 'k, 'x eloop) conn"
    assume IH: "\<And>E c c'. flush E c = Some c' \<Longrightarrow>
        posix (kernel_of E) S \<longrightarrow> local_step S c c' \<and> cworld c' = cworld c \<and> Opened c' = Opened c"
      and f: "(if ob_IsEmpty (out_of E) (OutBuffer c) then Some c
        else (case Writev (kernel_of E) (Fd c) (take IovMax (ob_Peek (out_of E) 0 (OutBuffer c))) (ckern c) of
              ((n, e), k) \<Rightarrow>
                if e \<noteq> None then Some (c\<lparr>ckern := k\<rparr>)
                else flush E (c\<lparr>ckern := k, OutBuffer := ob_Discard (out_of E) n (OutBuffer c)\<rparr>))) = Some c'"
    show "posix (kernel_of E) S \<longrightarrow> local_step S c c' \<and> cworld c' = cworld c \<and> Opened c' = Opened c"
    proof
      assume p: "posix (kernel_of E) S"
      obtain n e k where w: "Writev (kernel_of E) (Fd c) (take IovMax (ob_Peek (out_of E) 0 (OutBuffer c))) (ckern c) = ((n, e), k)"
        by (metis prod.exhaust)
      let ?c1 = "c\<lparr>ckern := k, OutBuffer := ob_Discard (out_of E) n (OutBuffer c)\<rparr>"
      have others: "fd \<noteq> Fd c \<Longrightarrow> S k fd = S (ckern c) fd" for fd
        using posix_Writev [OF p w] by (auto simp: posix_write_def)
      have "local_step S c (c\<lparr>ckern := k\<rparr>)" "local_step S c ?c1" by (rule local_stepI; simp add: others)+
      then show "local_step S c c' \<and> cworld c' = cworld c \<and> Opened c' = Opened c"
        using f w IH [of E ?c1 c'] p local_step_trans [of S c ?c1 c'] by (auto split: if_splits)
    qed
  qed
  then show ?thesis using assms(1) by blast
qed

lemma Close_local:
  assumes "posix (kernel_of E) S" "handlers_local E S" "conn_Close E c = Ret (e, c')"
  shows "local_step S c c'"
proof -
  have udp: "local_step S c (releaseUDP c)" by (rule local_stepI) (simp_all add: releaseUDP_def)
  have "local_step S c c'" if "Opened c" and cl: "(case close_flush E c of None \<Rightarrow> Blocked | Some c1 \<Rightarrow>
      (let (err0, k1) = UnRegister (kernel_of E) (PollFd c1) (Fd c1) (ckern c1);
           (err1, k2) = CloseFd (kernel_of E) (Fd c1) k1;
           c2 = c1\<lparr>ckern := k2, cworld := removeConn E (Fd c1) (cworld c1)\<rparr>;
           (oc, c3) = onClose E c2;
           rerr = (if oc \<noteq> None then Some ErrEngineShutdown else close_error (Fd c1) err0 err1) in
       Ret (rerr, releaseTCP E c3))) = Ret (e, c')"
  proof -
    obtain c1 where c1: "close_flush E c = Some c1" using cl by (cases "close_flush E c") auto
    note f = close_flush_local [OF assms(1) c1]
    obtain x k1 where u: "UnRegister (kernel_of E) (PollFd c1) (Fd c1) (ckern c1) = (x, k1)" by fastforce
    obtain y k2 where k: "CloseFd (kernel_of E) (Fd c1) k1 = (y, k2)" by fastforce
    let ?c2 = "c1\<lparr>ckern := k2, cworld := RemoveConn (Fd c1) (cworld c1)\<rparr>"
    obtain oc c3 where o: "onClose E ?c2 = (oc, c3)" by fastforce
    have s: "S k2 = S (ckern c1)"
      using posix_ctl [OF assms(1) u [unfolded UnRegister_def]] posix_CloseFd [OF assms(1) k] by simp
    have l: "ConnList (cworld ?c2) = (ConnList (cworld c1))(Fd c1 := None)"
      by (simp add: RemoveConn_def count_conn_def AddConnCount_def)
    have "local_step S ?c2 (snd (onClose E ?c2))" using assms(2) unfolding handlers_local_def by blast
    then have "local_step S ?c2 c3" by (simp add: o)
    then have "Fd c3 = Fd c1" "fd \<noteq> Fd c1 \<Longrightarrow> S (ckern c3) fd = S (ckern c1) fd \<and> ConnList (cworld c3) fd = ConnList (cworld c1) fd"
        "ConnList (cworld c3) (Fd c1) = None" for fd
      unfolding local_step_def using s l by auto
    moreover have "c' = releaseTCP E c3" using cl c1 u k o assms(2) by (simp add: handlers_local_def)
    ultimately have "local_step S c1 c'" by (simp add: local_step_def releaseTCP_def)
    then show ?thesis using f local_step_trans by blast
  qed
  then show ?thesis using assms(3) udp by (auto simp: conn_Close_def split: if_splits)
qed

lemma send_iov_others:
  assumes "posix (kernel_of E) S" "send_iov E c = Ret ((n, e), k)" "fd \<noteq> Fd c"
  shows "S k fd = S (ckern c) fd"
proof -
  have "(\<exists>ds. Writev (kernel_of E) (Fd c) ds (ckern c) = ((n, e), k)) \<or> (\<exists>d. Write (kernel_of E) (Fd c) d (ckern c) = ((n, e), k))"
    using assms(2) by (auto simp: send_iov_def Let_def go_bind_eq_Ret split: if_splits)
  then show ?thesis
  proof (elim disjE exE)
    fix ds assume "Writev (kernel_of E) (Fd c) ds (ckern c) = ((n, e), k)"
    from posix_Writev [OF assms(1) this] show ?thesis using assms(3) by (simp add: posix_write_def)
  next
    fix d assume "Write (kernel_of E) (Fd c) d (ckern c) = ((n, e), k)"
    from posix_Write [OF assms(1) this] show ?thesis using assms(3) by (simp add: posix_write_def)
  qed
qed

lemma WriteToFd_local:
  assumes "posix (kernel_of E) S" "handlers_local E S" "conn_WriteToFd E c = Ret (e, c')"
  shows "local_step S c c'"
proof -
  obtain n err k where si: "send_iov E c = Ret ((n, err), k)"
    using assms(3) by (auto simp: conn_WriteToFd_def go_bind_eq_Ret)
  let ?c1 = "c\<lparr>ckern := k, OutBuffer := ob_Discard (out_of E) n (OutBuffer c)\<rparr>"
  obtain r c2 where m: "on_poll (ModRead (kernel_of E)) ?c1 = (r, c2)" by fastforce
  obtain k2 where c2: "c2 = ?c1\<lparr>ckern := k2\<rparr>" "S k2 = S (ckern ?c1)"
    using mod_frame(2) [OF assms(1) m] by blast
  have l: "local_step S c ?c1" "local_step S c c2"
    by (rule local_stepI; use send_iov_others [OF assms(1) si] c2 in simp)+
  have "c' = c2 \<or> c' = ?c1 \<or> conn_Close E ?c1 = Ret (e, c')"
    using assms(3) si m by (cases err) (auto simp: conn_WriteToFd_def Let_def split: if_splits)
  then show ?thesis using l Close_local [OF assms(1,2)] local_step_trans by blast
qed

lemma ReadFromFd_local:
  assumes "posix (kernel_of E) S" "handlers_local E S" "conn_ReadFromFd E c = Ret (e, c')"
  shows "local_step S c c'"
proof -
  obtain data err k where r: "Read (kernel_of E) (Fd c) (readBufSize E) (ckern c) = ((data, err), k)"
    by (metis prod.exhaust)
  let ?c1 = "c\<lparr>ckern := k\<rparr>" and ?c2 = "c\<lparr>ckern := k, Buffer := data\<rparr>"
  obtain x c3 where t: "onTrack E ?c2 = (x, c3)" by fastforce
  have l: "local_step S c ?c1" "local_step S c ?c2" by (rule local_stepI; simp add: posix_Read [OF assms(1) r])+
  have "local_step S ?c2 (snd (onTrack E ?c2))" using assms(2) unfolding handlers_local_def by blast
  then have "local_step S ?c2 c3" by (simp add: t)
  then have "local_step S c (c3\<lparr>InBuffer := b\<rparr>)" for b
    using local_step_trans [OF l(2)] by (fastforce simp: local_step_def)
  then show ?thesis
    using assms(3) r t l(1) Close_local [OF assms(1,2), of ?c1 e c'] local_step_trans [of S c ?c1 c']
    by (auto simp: conn_ReadFromFd_def Let_def split: if_splits)
qed

lemma sendErr_local: "local_step S c (sendErr e c)"
  by (auto simp: sendErr_def intro: local_stepI split: option.split)

lemma conn_job_local:
  "conn_job f c = Ret c' \<Longrightarrow> (\<And>e c1. f c = Ret (e, c1) \<Longrightarrow> local_step S c c1) \<Longrightarrow> local_step S c c'"
  using local_step_trans [OF _ sendErr_local] by (fastforce simp: conn_job_def go_bind_eq_Ret)

definition local_inv :: "('cb, 'ob, 'rb, 'sa, 'k, 'x eloop) conn_env \<Rightarrow> ('k \<Rightarrow> int \<Rightarrow> bytes) \<Rightarrow>
    ('cb, 'ob, 'rb, 'sa, 'k, 'x eloop) conn \<Rightarrow> ('cb, 'ob, 'rb, 'sa, 'k, 'x eloop) conn \<Rightarrow> bool" where
  "local_inv E S c0 c \<longleftrightarrow> posix (kernel_of E) S \<and> handlers_local E S \<and> local_step S c0 c"

lemma local_inv_step:
  "local_inv E S c0 c \<Longrightarrow> (posix (kernel_of E) S \<Longrightarrow> handlers_local E S \<Longrightarrow> local_step S c c') \<Longrightarrow> local_inv E S c0 c'"
  unfolding local_inv_def using local_step_trans by blast

lemmas ops_local = WriteToFd_local ReadFromFd_local Close_local

interpretation cl: event_handler "conn_ops E" "local_inv E S c0" for E S c0
proof
qed (auto simp: conn_ops_def elim!: local_inv_step intro: ops_local conn_job_local)

section \<open>All connections of a loop\<close>

text \<open>
  The state of a loop is well formed for the descriptors \<open>m\<close> of its connection objects: the list holds open
  connections under their descriptor, no two objects share the descriptor of an open connection, and
  the event descriptor of the poller is none of them.
\<close>

definition loop_wf :: "(nat \<Rightarrow> int) \<Rightarrow> ('t, 'cb, 'ob, 'rb, 'sa, 'k, 'x) sub_poller \<Rightarrow> bool" where
  "loop_wf m p \<longleftrightarrow> (\<forall>h. Fd (objs (world p) h) = m h) \<and>
     (\<forall>fd h. ConnList (eloop_of (world p)) fd = Some h \<longrightarrow> m h = fd \<and> Opened (objs (world p) h)) \<and>
     (\<forall>h h'. Opened (objs (world p) h) \<and> m h' = m h \<longrightarrow> h' = h) \<and>
     (\<forall>h. Opened (objs (world p) h) \<longrightarrow> m h \<noteq> pollEvFd p)"

definition grows :: "('k \<Rightarrow> int \<Rightarrow> bytes) \<Rightarrow> ('ob \<Rightarrow> bytes) \<Rightarrow> (nat \<Rightarrow> int) \<Rightarrow>
    ('t, 'cb, 'ob, 'rb, 'sa, 'k, 'x) sub_poller \<Rightarrow> ('t, 'cb, 'ob, 'rb, 'sa, 'k, 'x) sub_poller \<Rightarrow> bool" where
  "grows S cont m p q \<longleftrightarrow> (loop_wf m p \<longrightarrow> loop_wf m q \<and> pollEvFd q = pollEvFd p \<and>
     (\<forall>h. extends S cont (get_conn h p) (get_conn h q)))"

text \<open>What happens on the descriptors of \<open>F\<close> leaves the connections on other descriptors alone.\<close>

definition apart :: "int set \<Rightarrow> ('k \<Rightarrow> int \<Rightarrow> bytes) \<Rightarrow> (nat \<Rightarrow> int) \<Rightarrow>
    ('t, 'cb, 'ob, 'rb, 'sa, 'k, 'x) sub_poller \<Rightarrow> ('t, 'cb, 'ob, 'rb, 'sa, 'k, 'x) sub_poller \<Rightarrow> bool" where
  "apart F S m p q \<longleftrightarrow> (loop_wf m p \<longrightarrow> loop_wf m q \<and> pollEvFd q = pollEvFd p \<and>
     (\<forall>fd. fd \<notin> F \<and> fd \<noteq> pollEvFd p \<longrightarrow> S (kern q) fd = S (kern p) fd \<and>
        ConnList (eloop_of (world q)) fd = ConnList (eloop_of (world p)) fd) \<and>
     (\<forall>h. m h \<notin> F \<longrightarrow> objs (world q) h = objs (world p) h))"

lemma put_conn_simps [simp]:
  "kern (put_conn h c p) = ckern c" "pollEvFd (put_conn h c p) = pollEvFd p" "eloop_of (world (put_conn h c p)) = cworld c"
  "objs (world (put_conn h c p)) = (objs (world p))(h := c)"
  by (simp_all add: put_conn_def)

lemma get_conn_simps [simp]:
  "Fd (get_conn h p) = Fd (objs (world p) h)" "Opened (get_conn h p) = Opened (objs (world p) h)"
  "OutBuffer (get_conn h p) = OutBuffer (objs (world p) h)" "ckern (get_conn h p) = kern p"
  "cworld (get_conn h p) = eloop_of (world p)"
  by (simp_all add: get_conn_def)

lemma wf_unique: "loop_wf m p \<Longrightarrow> Opened (objs (world p) g) \<Longrightarrow> m h = m g \<Longrightarrow> h = g"
  by (simp add: loop_wf_def)

lemma put_conn_wf:
  assumes "loop_wf m p" "local_step S (get_conn h p) c" "Opened c \<longrightarrow> Opened (objs (world p) h)"
  shows "loop_wf m (put_conn h c p)"
proof -
  have f: "Fd (get_conn h p) = m h" using assms(1) by (simp add: loop_wf_def)
  then have m: "Fd c = m h" using assms(2) by (simp add: local_step_def)
  have o: "Opened (objs (world (put_conn h c p)) g) \<Longrightarrow> Opened (objs (world p) g)" for g
    using assms(3) by (auto split: if_splits)
  have "m g = fd \<and> Opened (objs (world (put_conn h c p)) g)" if l: "ConnList (cworld c) fd = Some g" for fd g
  proof (cases "fd = m h")
    case True
    have "ConnList (cworld c) (Fd (get_conn h p)) = None \<or>
        ConnList (cworld c) (Fd (get_conn h p)) = ConnList (cworld (get_conn h p)) (Fd (get_conn h p)) \<and>
        (Opened (get_conn h p) \<longrightarrow> Opened c)"
      using assms(2) unfolding local_step_def by blast
    then have p: "ConnList (eloop_of (world p)) fd = Some g" "Opened (objs (world p) h) \<longrightarrow> Opened c"
      unfolding f True [symmetric] l by simp_all
    then have "m g = fd" "Opened (objs (world p) g)" using assms(1) by (auto simp: loop_wf_def)
    note g = this
    have "m h = m g" unfolding g(1) True ..
    from wf_unique [OF assms(1) g(2) this] show ?thesis using p(2) g by simp
  next
    case False
    then have "ConnList (eloop_of (world p)) fd = Some g"
      using assms(2) l unfolding local_step_def f by simp
    then have "m g = fd" "Opened (objs (world p) g)" using assms(1) by (auto simp: loop_wf_def)
    then show ?thesis using False by auto
  qed
  then show ?thesis using assms(1) m o by (auto simp: loop_wf_def)
qed

lemma put_conn_grows:
  assumes "local_step S (get_conn h p) c" "extends S cont (get_conn h p) c"
  shows "grows S cont m p (put_conn h c p)"
  unfolding grows_def
proof (intro impI conjI allI)
  assume wf: "loop_wf m p"
  then show "loop_wf m (put_conn h c p)" using put_conn_wf [OF wf assms(1)] assms(2) by (simp add: extends_def)
  fix g
  show "extends S cont (get_conn g p) (get_conn g (put_conn h c p))"
  proof (cases "g = h")
    case True
    then show ?thesis using assms(2) by (auto simp: extends_def stream_def)
  next
    case False
    then have "m g \<noteq> m h" if "Opened (objs (world p) g)" using wf_unique [OF wf that, of h] by auto
    then show ?thesis using False wf assms(1) by (auto simp: extends_def stream_def local_step_def loop_wf_def)
  qed
qed simp

lemma put_conn_apart:
  assumes "local_step S (get_conn h p) c" "Opened c \<longrightarrow> Opened (objs (world p) h)" "loop_wf m p \<Longrightarrow> m h \<in> F"
  shows "apart F S m p (put_conn h c p)"
  unfolding apart_def
proof (intro impI conjI allI)
  assume wf: "loop_wf m p"
  then show "loop_wf m (put_conn h c p)" using put_conn_wf [OF wf assms(1,2)] by simp
  have m: "m h \<in> F" "Fd (objs (world p) h) = m h" using assms(3) wf by (simp_all add: loop_wf_def)
  fix fd assume "fd \<notin> F \<and> fd \<noteq> pollEvFd p"
  then have "fd \<noteq> m h" using m by auto
  then show "S (kern (put_conn h c p)) fd = S (kern p) fd"
      "ConnList (eloop_of (world (put_conn h c p))) fd = ConnList (eloop_of (world p)) fd"
    using assms(1) m(2) by (auto simp: local_step_def)
next
  fix g assume "loop_wf m p" "m g \<notin> F"
  then have "g \<noteq> h" using assms(3) by auto
  then show "objs (world (put_conn h c p)) g = objs (world p) g" by simp
qed simp

text \<open>What a callback does to the poller, as a move of one connection or a read of the event descriptor.\<close>

definition conn_move :: "('k \<Rightarrow> int \<Rightarrow> bytes) \<Rightarrow> ('ob \<Rightarrow> bytes) \<Rightarrow> nat \<Rightarrow>
    ('t, 'cb, 'ob, 'rb, 'sa, 'k, 'x) sub_poller \<Rightarrow> ('t, 'cb, 'ob, 'rb, 'sa, 'k, 'x) sub_poller \<Rightarrow> bool" where
  "conn_move S cont h u v \<longleftrightarrow>
     v = u \<or> (\<exists>c. v = put_conn h c u \<and> local_step S (get_conn h u) c \<and> extends S cont (get_conn h u) c)"

lemma grows_refl: "grows S cont m p p" and apart_refl: "apart F S m p p"
  by (simp_all add: grows_def apart_def)

lemma apart_wf: "apart F S m p q \<Longrightarrow> loop_wf m p \<Longrightarrow> loop_wf m q"
  by (simp add: apart_def)

lemma grows_trans: "grows S cont m p q \<Longrightarrow> grows S cont m q r \<Longrightarrow> grows S cont m p r"
  using extends_trans by (simp add: grows_def) blast

lemma apart_trans: "apart F S m p q \<Longrightarrow> apart F S m q r \<Longrightarrow> apart F S m p r"
  unfolding apart_def by simp

lemma move_grows: "conn_move S cont h u v \<Longrightarrow> grows S cont m u v"
  using put_conn_grows grows_refl by (auto simp: conn_move_def)

lemma move_apart: "conn_move S cont h u v \<Longrightarrow> (loop_wf m u \<Longrightarrow> m h \<in> F) \<Longrightarrow> apart F S m u v"
  using put_conn_apart apart_refl by (fastforce simp: conn_move_def extends_def)

lemma pool_job_move:
  assumes "contract E S cont" "handlers_local E S"
    and "conn_pool_job (AsyncHandleEventsAndWait M events (conn_ops E)) h u = Some v"
  shows "conn_move S cont h u v"
proof (cases "AsyncHandleEventsAndWait M events (conn_ops E) (get_conn h u)")
  case (Ret c)
  have p: "posix (kernel_of E) S" using assms(1) by (simp add: contract_def)
  have "conn_inv E S cont (get_conn h u) c"
    by (rule cn.AsyncHandleEventsAndWait_ok [OF _ Ret]) (simp add: conn_inv_def assms(1))
  moreover have "local_inv E S (get_conn h u) c"
    by (rule cl.AsyncHandleEventsAndWait_ok [OF _ Ret]) (simp add: local_inv_def assms(2) p)
  ultimately show ?thesis
    using assms(3) Ret by (auto simp: conn_pool_job_def conn_move_def conn_inv_def local_inv_def)
qed (use assms(3) in \<open>auto simp: conn_pool_job_def conn_move_def\<close>)

lemma recv_err_move: "recv_err h u = (x, v) \<Longrightarrow> conn_move S cont h u v"
  by (auto simp: recv_err_def conn_move_def local_stepI extends_def stream_def split: list.splits)

text \<open>Only the kernel's state changes, and nothing is sent but on the event descriptor.\<close>

lemma kern_grows: "(\<And>fd. fd \<noteq> pollEvFd p \<Longrightarrow> S k fd = S (kern p) fd) \<Longrightarrow> grows S cont m p (p\<lparr>kern := k\<rparr>)"
  by (auto simp: grows_def loop_wf_def extends_def stream_def get_conn_def)

lemma kern_apart: "(\<And>fd. fd \<noteq> pollEvFd p \<Longrightarrow> S k fd = S (kern p) fd) \<Longrightarrow> apart F S m p (p\<lparr>kern := k\<rparr>)"
  by (simp add: apart_def loop_wf_def)

lemma fields_grow: "grows S cont m p (p\<lparr>priorTasks := a, tasks := b, toTrigger := i, ErrForStop := es\<rparr>)"
  by (simp add: grows_def loop_wf_def extends_def stream_def get_conn_def)

lemma fields_apart: "apart F S m p (p\<lparr>priorTasks := a, tasks := b, toTrigger := i, ErrForStop := es\<rparr>)"
  by (simp add: apart_def loop_wf_def)

lemma trigger_others:
  assumes "posix K S" "Trigger K efd k = (x, k')" "fd \<noteq> efd"
  shows "S k' fd = S k fd"
proof -
  obtain n e k1 where w: "k_write K efd trigger_word k = ((n, e), k1)" by (metis prod.exhaust)
  have "posix_write S efd trigger_word k (k_write K efd trigger_word k)" using assms(1) by (simp add: posix_def)
  then show ?thesis using assms(2,3) w by (simp add: Trigger_def posix_write_def)
qed

lemma read_same: "posix K S \<Longrightarrow> S (snd (k_read K fd n k)) = S k"
  by (simp add: posix_def)

lemma drain_same: "posix K S \<Longrightarrow> S (kern (drain_wake K fd p)) = S (kern p)"
  using posix_Read [of K S fd 128 "kern p"] by (cases "Read K fd 128 (kern p)") (simp add: drain_wake_def)

lemma start_cases:
  "AsyncWaitCallback (EloopEventHandleConn M E) fd ev p = (ch, js, q) \<Longrightarrow>
     (ch = None \<and> js = [] \<and> (q = p \<or> q = drain_wake (kernel_of E) fd p)) \<or>
     (\<exists>h. ConnList (eloop_of (world p)) fd = Some h \<and> ch = Some (recv_err h) \<and> q = p \<and>
       js = [conn_pool_job (AsyncHandleEventsAndWait M ev (conn_ops E)) h])"
  by (auto simp: EloopEventHandleConn_def HandleConn_AsyncWaitCallback_def split: if_splits option.splits)

section \<open>Runs of the loop\<close>

text \<open>The contracts under which a run is looked at, with what the queued tasks keep.\<close>

definition grow_contract :: "('cb, 'ob, 'rb, 'sa, 'k, 'x eloop) conn_env \<Rightarrow> ('k \<Rightarrow> int \<Rightarrow> bytes) \<Rightarrow> ('ob \<Rightarrow> bytes) \<Rightarrow> (nat \<Rightarrow> int) \<Rightarrow>
    ('t, ('t, 'cb, 'ob, 'rb, 'sa, 'k, 'x) sub_poller) task_fn \<Rightarrow> bool" where
  "grow_contract E S cont m G \<longleftrightarrow> contract E S cont \<and> handlers_local E S \<and> (\<forall>t p. grows S cont m p (snd (G t p)))"

definition apart_contract :: "('cb, 'ob, 'rb, 'sa, 'k, 'x eloop) conn_env \<Rightarrow> ('k \<Rightarrow> int \<Rightarrow> bytes) \<Rightarrow> ('ob \<Rightarrow> bytes) \<Rightarrow> int set \<Rightarrow>
    (nat \<Rightarrow> int) \<Rightarrow> ('t, ('t, 'cb, 'ob, 'rb, 'sa, 'k, 'x) sub_poller) task_fn \<Rightarrow> bool" where
  "apart_contract E S cont F m G \<longleftrightarrow> contract E S cont \<and> handlers_local E S \<and> (\<forall>t p. apart F S m p (snd (G t p)))"

interpretation lg: poller_keeps "kernel_of E" "EloopEventHandleConn M E" G UNIV "\<lambda>_. True"
    "\<lambda>p q. grow_contract E S cont m G \<longrightarrow> grows S cont m p q"
  for M and E :: "('cb, 'ob, 'rb, 'sa, 'k, 'x eloop) conn_env"
    and G :: "('t, ('t, 'cb, 'ob, 'rb, 'sa, 'k, 'x) sub_poller) task_fn" and S cont m
proof
  fix p q r :: "('t, 'cb, 'ob, 'rb, 'sa, 'k, 'x) sub_poller"
  show "grow_contract E S cont m G \<longrightarrow> grows S cont m p p" by (simp add: grows_refl)
  show "grow_contract E S cont m G \<longrightarrow> grows S cont m p r"
    if "grow_contract E S cont m G \<longrightarrow> grows S cont m p q" "grow_contract E S cont m G \<longrightarrow> grows S cont m q r"
    using that grows_trans by blast
next
  fix p q :: "('t, 'cb, 'ob, 'rb, 'sa, 'k, 'x) sub_poller" and x k fd n t
  show "grow_contract E S cont m G \<longrightarrow> grows S cont m p (p\<lparr>kern := k\<rparr>)"
    if "Trigger (kernel_of E) (pollEvFd p) (kern p) = (x, k)"
    by (rule impI, rule kern_grows, rule trigger_others [OF _ that]) (simp_all add: grow_contract_def contract_def)
  show "grow_contract E S cont m G \<longrightarrow> grows S cont m p (p\<lparr>kern := snd (k_read (kernel_of E) fd n (kern p))\<rparr>)"
    by (rule impI, rule kern_grows) (simp add: grow_contract_def contract_def read_same)
  show "grow_contract E S cont m G \<longrightarrow> grows S cont m p q" if "G t p = (x, q)"
    using that by (auto simp: grow_contract_def) (metis snd_conv)
next
  fix p q u v :: "('t, 'cb, 'ob, 'rb, 'sa, 'k, 'x) sub_poller" and ch js fd ev j
  assume a: "AsyncWaitCallback (EloopEventHandleConn M E) fd ev p = (ch, js, q)"
  have "grows S cont m p (drain_wake (kernel_of E) fd p)" if "grow_contract E S cont m G"
    using kern_grows [of p S] drain_same [of "kernel_of E" S fd p] that
    by (simp add: grow_contract_def contract_def drain_wake_def)
  then show "grow_contract E S cont m G \<longrightarrow> grows S cont m p q" using start_cases [OF a] grows_refl by blast
  show "grow_contract E S cont m G \<longrightarrow> grows S cont m u v" if "j \<in> set js" "j u = Some v"
    using start_cases [OF a] that pool_job_move move_grows by (fastforce simp: grow_contract_def)
next
  fix p q u v :: "('t, 'cb, 'ob, 'rb, 'sa, 'k, 'x) sub_poller" and js fd ev x rcv
  assume "AsyncWaitCallback (EloopEventHandleConn M E) fd ev p = (Some rcv, js, q)" "rcv u = (x, v)"
  then obtain h where "recv_err h u = (x, v)" using start_cases by blast
  then show "grow_contract E S cont m G \<longrightarrow> grows S cont m u v" using recv_err_move move_grows by blast
qed (auto simp: fields_grow EloopEventHandleConn_def)

interpretation la: poller_keeps "kernel_of E" "EloopEventHandleConn M E" G F
    "\<lambda>p. apart_contract E S cont F m G \<longrightarrow> loop_wf m p"
    "\<lambda>p q. apart_contract E S cont F m G \<longrightarrow> apart F S m p q"
  for M and E :: "('cb, 'ob, 'rb, 'sa, 'k, 'x eloop) conn_env"
    and G :: "('t, ('t, 'cb, 'ob, 'rb, 'sa, 'k, 'x) sub_poller) task_fn" and S cont F m
proof
  fix p q r :: "('t, 'cb, 'ob, 'rb, 'sa, 'k, 'x) sub_poller"
  show "apart_contract E S cont F m G \<longrightarrow> apart F S m p p" by (simp add: apart_refl)
  show "apart_contract E S cont F m G \<longrightarrow> apart F S m p r"
    if "apart_contract E S cont F m G \<longrightarrow> apart F S m p q" "apart_contract E S cont F m G \<longrightarrow> apart F S m q r"
    using that apart_trans by blast
next
  fix p q :: "('t, 'cb, 'ob, 'rb, 'sa, 'k, 'x) sub_poller" and x k fd n t
  show "apart_contract E S cont F m G \<longrightarrow> apart F S m p (p\<lparr>kern := k\<rparr>)"
    if "Trigger (kernel_of E) (pollEvFd p) (kern p) = (x, k)"
    by (rule impI, rule kern_apart, rule trigger_others [OF _ that]) (simp_all add: apart_contract_def contract_def)
  show "apart_contract E S cont F m G \<longrightarrow> apart F S m p (p\<lparr>kern := snd (k_read (kernel_of E) fd n (kern p))\<rparr>)"
    by (rule impI, rule kern_apart) (simp add: apart_contract_def contract_def read_same)
  show "apart_contract E S cont F m G \<longrightarrow> apart F S m p q" if "G t p = (x, q)"
    using that by (auto simp: apart_contract_def) (metis snd_conv)
next
  fix p q u v :: "('t, 'cb, 'ob, 'rb, 'sa, 'k, 'x) sub_poller" and ch js fd ev j
  assume a: "AsyncWaitCallback (EloopEventHandleConn M E) fd ev p = (ch, js, q)"
  have "apart F S m p (drain_wake (kernel_of E) fd p)" if "apart_contract E S cont F m G"
    using kern_apart [of p S] drain_same [of "kernel_of E" S fd p] that
    by (simp add: apart_contract_def contract_def drain_wake_def)
  then show "apart_contract E S cont F m G \<longrightarrow> apart F S m p q" using start_cases [OF a] apart_refl by blast
  assume w: "apart_contract E S cont F m G \<longrightarrow> loop_wf m p" "fd \<in> F"
  show "apart_contract E S cont F m G \<longrightarrow> apart F S m u v" if j: "j \<in> set js" "j u = Some v"
  proof
    assume c: "apart_contract E S cont F m G"
    obtain h where h: "ConnList (eloop_of (world p)) fd = Some h" "j = conn_pool_job (AsyncHandleEventsAndWait M ev (conn_ops E)) h"
      using start_cases [OF a] j(1) by auto
    then have "m h \<in> F" using w c by (simp add: loop_wf_def)
    moreover have "conn_move S cont h u v"
      using pool_job_move [of E S cont M ev h u v] c j(2) h(2) by (simp add: apart_contract_def)
    ultimately show "apart F S m u v" using move_apart by blast
  qed
next
  fix p q u v :: "('t, 'cb, 'ob, 'rb, 'sa, 'k, 'x) sub_poller" and js fd ev x rcv
  assume w: "apart_contract E S cont F m G \<longrightarrow> loop_wf m p" "fd \<in> F"
    and "AsyncWaitCallback (EloopEventHandleConn M E) fd ev p = (Some rcv, js, q)" "rcv u = (x, v)"
  then obtain h where h: "ConnList (eloop_of (world p)) fd = Some h" "recv_err h u = (x, v)" using start_cases by blast
  then have "apart_contract E S cont F m G \<Longrightarrow> m h \<in> F" using w by (simp add: loop_wf_def)
  moreover have "conn_move S cont h u v" by (rule recv_err_move [OF h(2)])
  ultimately show "apart_contract E S cont F m G \<longrightarrow> apart F S m u v" using move_apart by blast
qed (auto simp: fields_apart EloopEventHandleConn_def dest: apart_wf)

text \<open>
  A sub loop never loses or mixes up output: over any number of rounds of \<open>WaitPoll\<close>, whatever events the
  kernel reports for whatever connections, whatever tasks are queued and in whatever order the pool runs the
  jobs, a connection that is open at the end was open all the time, and its outgoing stream (what the kernel has
  taken for its descriptor and what is buffered) begins with what it was at the start. No connection is
  registered in between, the handlers work on their own connection, and the tasks keep the streams.
\<close>

lemma sub_loop_streams_grow:
  fixes E :: "('cb, 'ob, 'rb, 'sa, 'k, 'x eloop) conn_env"
    and p :: "('t, 'cb, 'ob, 'rb, 'sa, 'k, 'x) sub_poller"
  assumes "grow_contract E S cont m G" "loop_wf m p" "runs_all arrange" "\<And>sz i k. S (snd (wait sz i k)) = S k"
    and "StartAsSubLoop M E wait G arrange n p = Ret r"
  shows "loop_wf m (run_state r) \<and>
    (Opened (objs (world (run_state r)) h) \<longrightarrow> Opened (objs (world p) h) \<and>
      prefix (stream S cont (get_conn h p)) (stream S cont (get_conn h (run_state r))))"
proof -
  have "grow_contract E S cont m G \<longrightarrow> grows S cont m (run_state (Running InitPollSize (-1) False p)) (run_state r)"
  proof (rule lg.poll_rounds_R [OF assms(3) refl])
    show "grow_contract E S cont m G \<longrightarrow> grows S cont m q (q\<lparr>kern := snd (wait sz i (kern q))\<rparr>)"
      for q :: "('t, 'cb, 'ob, 'rb, 'sa, 'k, 'x) sub_poller" and sz i
      using kern_grows [of q S] assms(4) by simp
    show "poll_rounds (start_env (kernel_of E) wait G arrange (EloopEventHandleConn M E) (pollEvFd p)) n
        (Running InitPollSize (-1) False p) = Ret r"
      using assms(5) by (simp add: StartAsSubLoop_def Start_def WaitPoll_def)
  qed simp
  then show ?thesis using assms(1,2) by (auto simp: grows_def extends_def)
qed


section \<open>Two connections\<close>

definition two_conns :: "(nat, unit, bytes list, bytes, unit, demo_k, unit) sub_poller" where
  "two_conns = demo_sub\<lparr>world :=
     \<lparr>objs = (\<lambda>h. new_conn\<lparr>Fd := 9 + 2 * int h, Opened := h < 2, OutBuffer := (if h < 2 then [''ab''] else [])\<rparr>),
      eloop_of = new_eloop\<lparr>ConnList := [9 \<mapsto> 0, 11 \<mapsto> 1], ConnCount := 2\<rparr>\<rparr>\<rparr>"

abbreviation two_fds :: "nat \<Rightarrow> int" where
  "two_fds h \<equiv> 9 + 2 * int h"

definition first_sent :: "(nat, unit, bytes list, bytes, unit, demo_k, unit) sub_poller" where
  "first_sent = put_conn 0 ((get_conn 0 two_conns)\<lparr>ckern := (\<lambda>_. [])(9 := ''ab''), OutBuffer := []\<rparr>) two_conns"

lemma wait_of_start:
  "ep_wait (start_env K wait G arrange C efd) = (\<lambda>sz i p. case wait sz i (kern p) of (r, k') \<Rightarrow> (r, p\<lparr>kern := k'\<rparr>))"
  by (simp add: start_env_def)

lemma two_conns_wf: "loop_wf two_fds two_conns"
  by (auto simp: loop_wf_def two_conns_def demo_sub_def new_eloop_def split: if_splits)

lemma loop_env_contract: "contract loop_env demo_sent concat" "handlers_local loop_env demo_sent"
  using demo_posix demo_elastic
  by (simp_all add: contract_def loop_env_def handler_ok_def handlers_local_def posix_def Writev_def)

lemma first_event:
  "dispatch (start_env (kernel_of loop_env) wait (\<lambda>t q. (None, q)) id (EloopEventHandleConn linux_masks loop_env) 3)
     [(9, 4)] False two_conns = Ret (None, False, first_sent)"
proof -
  let ?c = "get_conn 0 two_conns" and ?c' = "(get_conn 0 two_conns)\<lparr>ckern := (\<lambda>_. [])(9 := ''ab''), OutBuffer := []\<rparr>"
  have "conn_WriteToFd loop_env ?c = Ret (None, ?c')"
    by (simp add: get_conn_def two_conns_def demo_sub_def loop_env_def Conn.demo_eval new_conn_def)
  then have "AsyncHandleEventsAndWait linux_masks 4 (conn_ops loop_env) ?c = Ret ?c'"
    by (simp add: AsyncHandleEventsAndWait_def linux_masks_def ErrEvents_def conn_ops_def conn_job_def sendErr_def)
  then have j: "conn_pool_job (AsyncHandleEventsAndWait linux_masks 4 (conn_ops loop_env)) 0 two_conns = Some first_sent"
    by (simp add: conn_pool_job_def first_sent_def)
  have l: "ConnList (eloop_of (world two_conns)) 9 = Some 0" "pollEvFd two_conns = 3" by (simp_all add: two_conns_def demo_sub_def)
  have "recv_err 0 first_sent = (None, first_sent)"
    by (simp add: recv_err_def first_sent_def get_conn_def put_conn_def two_conns_def demo_sub_def loop_eval)
  then show ?thesis
    using j l by (simp add: start_env_def start_callback_def EloopEventHandleConn_def HandleConn_AsyncWaitCallback_def
        is_wake_fd_def end_callback_def doWaitCallbackErr_def)
qed

theorem sub_loop_streams_grow_witness:
  "\<exists>r. StartAsSubLoop linux_masks loop_env (\<lambda>_ _ k. (Inr [(9, 4)], k)) (\<lambda>t q. (None, q)) id 1 two_conns = Ret r \<and>
     run_state r = first_sent \<and> prefix ''ab'' (stream demo_sent concat (get_conn 1 first_sent))"
proof -
  let ?W = "\<lambda>_ _ k. (Inr [(9, 4)], k)" and ?G = "\<lambda>(t :: nat) q. (None, q)"
  have "pollEvFd two_conns = 3" "two_conns\<lparr>kern := kern two_conns\<rparr> = two_conns" by (simp_all add: two_conns_def demo_sub_def)
  then have r: "StartAsSubLoop linux_masks loop_env ?W ?G id 1 two_conns = Ret (Running (resize 1 InitPollSize) 0 False first_sent)"
    using first_event [of ?W]
    by (simp add: StartAsSubLoop_def Start_def WaitPoll_def poll_round_def InitPollSize_def wait_of_start del: dispatch.simps)
  have "grow_contract loop_env demo_sent concat two_fds ?G"
    using loop_env_contract by (simp add: grow_contract_def grows_refl)
  from sub_loop_streams_grow [OF this two_conns_wf _ _ r, of 1] have
      "Opened (objs (world first_sent) 1) \<longrightarrow> prefix (stream demo_sent concat (get_conn 1 two_conns))
        (stream demo_sent concat (get_conn 1 first_sent))" by (simp add: runs_all_def)
  moreover have "Opened (objs (world first_sent) 1)" "stream demo_sent concat (get_conn 1 two_conns) = ''ab''"
    by (simp_all add: first_sent_def two_conns_def stream_def demo_sub_def demo_sent_def)
  ultimately show ?thesis using r by auto
qed


end
