(* ===== verification/ServeLoop.thy ===== *)
theory ServeLoop
  imports SubLoop
begin

text \<open>
  The runs of a sub loop together with the registration of the connections that are accepted for it:
  \<open>eloop/eventloop.go\<close> between the rounds of the loop in \<open>sys/sys_poll_linux.go\<close>.
\<close>

section \<open>Registering among other connections\<close>

text \<open>The handshake and \<open>OnOpen\<close> work on the new connection only.\<close>

definition opening_local :: "('cb, 'ob, 'rb, 'sa, 'k, 'x eloop) conn_env \<Rightarrow> ('k \<Rightarrow> int \<Rightarrow> bytes) \<Rightarrow> bool" where
  "opening_local E S \<longleftrightarrow> (\<forall>c. local_step S c (snd (handshake E c))) \<and> (\<forall>c. local_step S c (snd (onOpen E c)))"

lemma AddRead_frame:
  "posix K S \<Longrightarrow> on_poll (AddRead K) c = (e, c') \<Longrightarrow> \<exists>k. c' = c\<lparr>ckern := k\<rparr> \<and> S k = S (ckern c)"
  using on_poll_frame [of K S CTL_ADD ReadEvents c e c'] by (simp add: AddRead_def [abs_def])

lemma kernel_step_local:
  "\<exists>k. c' = c\<lparr>ckern := k\<rparr> \<and> S k = S (ckern c) \<Longrightarrow> local_step S c c'"
  by (auto intro: local_stepI)

lemma write_local:
  assumes "posix (kernel_of E) S" "handlers_local E S" "conn_write E d c = Ret (r, c')"
  shows "local_step S c c'"
proof (cases "ob_IsEmpty (out_of E) (OutBuffer c)")
  case False
  then show ?thesis using assms(3) by (auto simp: conn_write_def buffer_out_def intro: local_stepI)
next
  case True
  obtain sent err k where w: "Write (kernel_of E) (Fd c) d (ckern c) = ((sent, err), k)" by (metis prod.exhaust)
  let ?c1 = "c\<lparr>ckern := k\<rparr>"
  have k: "local_step S c ?c1"
    using posix_Write [OF assms(1) w] by (intro local_stepI) (auto simp: posix_write_def)
  have b: "local_step S ?c1 (buffer_out E x ?c1)" for x by (rule local_stepI) (simp_all add: buffer_out_def)
  have m: "local_step S ?c1 c2" if "on_poll (ModReadWrite (kernel_of E)) (buffer_out E x ?c1) = (e, c2)" for x e c2
    using local_step_trans [OF b kernel_step_local [OF mod_frame(1) [OF assms(1) that]]] .
  have "c' = ?c1 \<or> local_step S ?c1 c'"
    using assms(3) True w m Close_local [OF assms(1,2), of ?c1]
    by (auto simp: conn_write_def Let_def go_bind_eq_Ret split: option.splits if_splits prod.splits)
  then show ?thesis using k local_step_trans by auto
qed

lemma Open_local:
  assumes "posix (kernel_of E) S" "handlers_local E S" "opening_local E S" "conn_Open E c = Ret (e, c')"
  shows "local_step S (c\<lparr>Opened := True\<rparr>) c'"
proof -
  obtain data x c1 where o: "onOpen E (c\<lparr>Opened := True\<rparr>) = ((data, x), c1)" by (metis prod.exhaust)
  have "local_step S (c\<lparr>Opened := True\<rparr>) (snd (onOpen E (c\<lparr>Opened := True\<rparr>)))"
    using assms(3) unfolding opening_local_def by blast
  then have 1: "local_step S (c\<lparr>Opened := True\<rparr>) c1" by (simp add: o)
  obtain n err c2 where w: "(case data of None \<Rightarrow> Ret ((0, None), c1) | Some d \<Rightarrow> conn_write E d c1) = Ret ((n, err), c2)"
    and r: "Ret (e, c') = (if err \<noteq> None then Ret (err, c2)
      else if \<not> ob_IsEmpty (out_of E) (OutBuffer c2) then Ret (on_poll (AddWrite (kernel_of E)) c2) else Ret (None, c2))"
    using assms(4) by (auto simp: conn_Open_def o go_bind_eq_Ret split: if_splits)
  have "local_step S c1 c2" using w write_local [OF assms(1,2)] by (auto split: option.splits)
  moreover have "local_step S c2 c'"
    using r kernel_step_local [OF mod_frame(3) [OF assms(1)], of c2] by (cases "ob_IsEmpty (out_of E) (OutBuffer c2)")
      (auto split: if_splits dest!: sym [of _ "on_poll f c" for f c])
  ultimately show ?thesis using 1 local_step_trans by blast
qed

lemma InitContext_local:
  assumes "posix (kernel_of E) S" "handlers_local E S" "opening_local E S" "InitContext E tls a cb c = Ret (e, c')"
  shows "local_step S c c'"
proof -
  obtain x c1 where h: "handshake E c = (x, c1)" by fastforce
  have "local_step S c (snd (handshake E c))" using assms(3) unfolding opening_local_def by blast
  then have 1: "local_step S c c1" by (simp add: h)
  have "local_step S c1 (c1\<lparr>Ctx := y\<rparr>)" "local_step S c (c\<lparr>Ctx := y\<rparr>)" for y by (rule local_stepI; simp)+
  then show ?thesis
    using assms(4) h 1 Close_local [OF assms(1,2), of c1] local_step_trans
    by (auto simp: InitContext_def go_bind_eq_Ret split: if_splits option.splits) blast+
qed

lemma RegisterConn_local:
  assumes "posix (kernel_of E) S" "handlers_local E S" "opening_local E S"
    and "RegisterConn E tls a cb h c = Ret (e, c')" "ConnList (cworld c) (Fd c) = None"
  shows "Fd c' = Fd c \<and>
    (\<forall>fd. fd \<noteq> Fd c \<longrightarrow> S (ckern c') fd = S (ckern c) fd \<and> ConnList (cworld c') fd = ConnList (cworld c) fd) \<and>
    (ConnList (cworld c') (Fd c) = None \<or> ConnList (cworld c') (Fd c) = Some h \<and> Opened c')"
proof -
  obtain x c1 where a: "on_poll (AddRead (kernel_of E)) c = (x, c1)" by fastforce
  obtain k where k: "c1 = c\<lparr>ckern := k\<rparr>" "S k = S (ckern c)" using AddRead_frame [OF assms(1) a] by blast
  show ?thesis
  proof (cases x)
    case (Some y)
    have "S (snd (k_close (kernel_of E) (Fd c1) (ckern c1))) = S (ckern c1)" using assms(1) by (simp add: posix_def)
    then show ?thesis using assms(4,5) a k Some by (auto simp: RegisterConn_def)
  next
    case None
    obtain z c2 where i: "InitContext E tls a cb c1 = Ret (z, c2)" using assms(4) a None
      by (auto simp: RegisterConn_def go_bind_eq_Ret)
    let ?c3 = "c2\<lparr>cworld := (cworld c2)\<lparr>ConnList := (ConnList (cworld c2))(Fd c2 \<mapsto> h)\<rparr>\<rparr>"
    obtain c4 where o: "conn_Open E ?c3 = Ret (e, c4)"
      and c': "c' = (if e = None then c4\<lparr>cworld := count_conn 1 (cworld c4)\<rparr> else c4)"
      using assms(4) a None i by (auto simp: RegisterConn_def go_bind_eq_Ret Let_def)
    have "local_step S c c2"
      using local_step_trans [OF kernel_step_local InitContext_local [OF assms(1-3) i]] k by blast
    moreover have "local_step S (?c3\<lparr>Opened := True\<rparr>) c4" by (rule Open_local [OF assms(1-3) o])
    moreover have "Fd c' = Fd c4" "ckern c' = ckern c4" "ConnList (cworld c') = ConnList (cworld c4)" "Opened c' = Opened c4"
      by (simp_all add: c' count_conn_def AddConnCount_def)
    ultimately show ?thesis by (auto simp: local_step_def)
  qed
qed

section \<open>Runs with registrations\<close>

text \<open>
  The object \<open>c\<close> that \<open>packTcpConn\<close> has made for the next connection on its descriptor takes the place of the
  closed connection that had the descriptor before, whose object is garbage.
\<close>

definition put_new :: "nat \<Rightarrow> ('cb, 'ob, 'rb, 'sa, 'k, 'x eloop) conn \<Rightarrow> ('t, 'cb, 'ob, 'rb, 'sa, 'k, 'x) sub_poller \<Rightarrow>
    ('t, 'cb, 'ob, 'rb, 'sa, 'k, 'x) sub_poller" where
  "put_new h c p = p\<lparr>world := (world p)\<lparr>objs := (objs (world p))(h := c)\<rparr>\<rparr>"

text \<open>
  A step is a round of the loop or, between two rounds, the registration of a connection; the set has the
  objects that have been registered in the run. The kernel gives the connection a descriptor that is not open.
\<close>

inductive serve_loop :: "masks \<Rightarrow> ('cb, 'ob, 'rb, 'sa, 'k, 'x eloop) conn_env \<Rightarrow>
    (nat \<Rightarrow> int \<Rightarrow> 'k \<Rightarrow> (error + (int \<times> 32 word) list) \<times> 'k) \<Rightarrow>
    ('t, ('t, 'cb, 'ob, 'rb, 'sa, 'k, 'x) sub_poller) task_fn \<Rightarrow>
    (('t, 'cb, 'ob, 'rb, 'sa, 'k, 'x) sub_poller job list \<Rightarrow> ('t, 'cb, 'ob, 'rb, 'sa, 'k, 'x) sub_poller job list) \<Rightarrow>
    nat set \<times> ('t, 'cb, 'ob, 'rb, 'sa, 'k, 'x) sub_poller poll_run \<Rightarrow>
    nat set \<times> ('t, 'cb, 'ob, 'rb, 'sa, 'k, 'x) sub_poller poll_run \<Rightarrow> bool"
  for M E wait G arrange where
  round: "poll_round (start_env (kernel_of E) wait G arrange (EloopEventHandleConn M E) efd) sz i tr p = Ret r \<Longrightarrow>
    serve_loop M E wait G arrange (N, Running sz i tr p) (N, r)"
| register: "\<not> Opened (objs (world p) h) \<Longrightarrow> \<not> Opened c \<Longrightarrow> Fd c = Fd (objs (world p) h) \<Longrightarrow> Fd c \<noteq> pollEvFd p \<Longrightarrow>
    (\<And>g. Fd (objs (world p) g) = Fd c \<Longrightarrow> g = h) \<Longrightarrow>
    RegisterConn E tls a cb h (get_conn h (put_new h c p)) = Ret (e, c') \<Longrightarrow>
    serve_loop M E wait G arrange (N, Running sz i tr p) (insert h N, Running sz i tr (put_conn h c' (put_new h c p)))"

lemma put_new_simps [simp]:
  "kern (put_new h c p) = kern p" "pollEvFd (put_new h c p) = pollEvFd p"
  "eloop_of (world (put_new h c p)) = eloop_of (world p)" "objs (world (put_new h c p)) = (objs (world p))(h := c)"
  by (simp_all add: put_new_def)

lemma register_keeps:
  fixes p :: "('t, 'cb, 'ob, 'rb, 'sa, 'k, 'x) sub_poller"
  assumes "posix (kernel_of E) S" "handlers_local E S" "opening_local E S" "loop_wf m p"
    and "\<not> Opened (objs (world p) h)" "Fd c = Fd (objs (world p) h)" "Fd c \<noteq> pollEvFd p"
    and "\<And>g. Fd (objs (world p) g) = Fd c \<Longrightarrow> g = h"
    and "RegisterConn E tls a cb h (get_conn h (put_new h c p)) = Ret (e, c')"
  shows "loop_wf m (put_conn h c' (put_new h c p))"
    and "g \<noteq> h \<Longrightarrow> extends S cont (get_conn g p) (get_conn g (put_conn h c' (put_new h c p)))"
proof -
  let ?d = "get_conn h (put_new h c p)"
  have m: "Fd c = m h" "m g = m h \<longleftrightarrow> g = h" for g
    using assms(4,6,8) by (auto simp: loop_wf_def)
  have "ConnList (eloop_of (world p)) (m h) = None"
  proof (cases "ConnList (eloop_of (world p)) (m h)")
    case (Some g)
    then have "m g = m h" "Opened (objs (world p) g)" using assms(4) by (simp_all add: loop_wf_def)
    then show ?thesis using m(2) assms(5) by simp
  qed
  then have n: "ConnList (cworld ?d) (Fd ?d) = None" using m by simp
  note l = RegisterConn_local [OF assms(1-3) assms(9) n]
  have o: "ConnList (cworld c') fd = ConnList (eloop_of (world p)) fd" "S (ckern c') fd = S (kern p) fd" if "fd \<noteq> m h" for fd
    using l m that by simp_all
  have f: "Fd c' = m h" and w: "ConnList (cworld c') (m h) = None \<or> ConnList (cworld c') (m h) = Some h \<and> Opened c'"
    using l m by simp_all
  show "loop_wf m (put_conn h c' (put_new h c p))"
    unfolding loop_wf_def
  proof (intro conjI allI impI)
    fix fd g assume g: "ConnList (eloop_of (world (put_conn h c' (put_new h c p)))) fd = Some g"
    show "m g = fd" "Opened (objs (world (put_conn h c' (put_new h c p))) g)"
      using g w o [of fd] assms(4,5) unfolding loop_wf_def by (cases "fd = m h"; force)+
  next
    fix g g' assume "Opened (objs (world (put_conn h c' (put_new h c p))) g) \<and> m g' = m g"
    then show "g' = g" using m(2) assms(4) by (cases "g = h") (auto simp: loop_wf_def)
  qed (use assms(4,7) f m in \<open>auto simp: loop_wf_def split: if_splits\<close>)
  assume g: "g \<noteq> h"
  then have "m g \<noteq> m h" using m(2) by blast
  then show "extends S cont (get_conn g p) (get_conn g (put_conn h c' (put_new h c p)))"
    using g o assms(4) by (auto simp: extends_def stream_def loop_wf_def)
qed

lemma round_keeps:
  assumes "grow_contract E S cont m G" "runs_all arrange" "\<And>sz i k. S (snd (wait sz i k)) = S k"
    and "poll_round (start_env (kernel_of E) wait G arrange (EloopEventHandleConn M E) efd) sz i tr p = Ret r"
  shows "grows S cont m p (run_state r)"
proof -
  have "grow_contract E S cont m G \<longrightarrow> grows S cont m (run_state (Running sz i tr p)) (run_state r)"
  proof (rule lg.poll_rounds_R [OF assms(2) refl])
    show "grow_contract E S cont m G \<longrightarrow> grows S cont m q (q\<lparr>kern := snd (wait sz i (kern q))\<rparr>)" for q sz i
      using kern_grows [of q S] assms(3) by simp
    show "poll_rounds (start_env (kernel_of E) wait G arrange (EloopEventHandleConn M E) efd) 1 (Running sz i tr p) = Ret r"
      using assms(4) by simp
  qed simp
  then show ?thesis using assms(1) by simp
qed

lemma serve_step_keeps:
  assumes "grow_contract E S cont m G" "opening_local E S" "runs_all arrange" "\<And>sz i k. S (snd (wait sz i k)) = S k"
    and "serve_loop M E wait G arrange u v" "loop_wf m (run_state (snd u))"
  shows "fst u \<subseteq> fst v \<and> loop_wf m (run_state (snd v)) \<and>
    (\<forall>h. h \<notin> fst v \<longrightarrow> extends S cont (get_conn h (run_state (snd u))) (get_conn h (run_state (snd v))))"
  using assms(5)
proof (cases rule: serve_loop.cases)
  case (round efd sz i tr p r N)
  have "grows S cont m p (run_state r)" by (rule round_keeps [OF assms(1,3,4) round(3)])
  then show ?thesis using assms(6) unfolding round(1,2) grows_def by simp
next
  case (register p h c tls a cb e c' N sz i tr)
  have pos: "posix (kernel_of E) S" "handlers_local E S" using assms(1) by (simp_all add: grow_contract_def contract_def)
  have wf: "loop_wf m p" using assms(6) unfolding register(1) by simp
  note k = register_keeps [OF pos assms(2) wf register(3,5,6,7,8)]
  show ?thesis unfolding register(1,2) using k by auto
qed


section \<open>A third connection\<close>

text \<open>The first of two connections sends its backlog, then a third one is accepted.\<close>

definition third_conn :: "(unit, bytes list, bytes, unit, demo_k, unit eloop) conn" where
  "third_conn = new_conn\<lparr>Fd := 13\<rparr>"

lemma third_registered:
  "\<exists>c'. RegisterConn loop_env False ConnNoneAdapter None 2 (get_conn 2 (put_new 2 third_conn first_sent)) = Ret (None, c') \<and>
    Opened c' \<and> ConnList (cworld c') 13 = Some 2"
  by (simp add: RegisterConn_def on_poll_def AddRead_def epollFdHandler_def SysError_def InitContext_def conn_Open_def
      get_conn_def put_new_def third_conn_def loop_eval chunk_ops_def count_conn_def AddConnCount_def Let_def)


end
