(* ===== verification/ConnTable.thy ===== *)
theory ConnTable
  imports Eloop
begin

text \<open>
  The list of connections of a sub loop, which several goroutines use without a lock: the goroutine of the
  loop looks descriptors up (\<open>eloop/event.go\<close>), the pool of the main loop enters new connections
  (\<open>RegisterConn\<close> in \<open>eloop/eventloop.go\<close>), and jobs and tasks in the pool of the sub loop take closed ones off
  (\<open>Close\<close> in \<open>conn/conn.go\<close>). Every access to the list, to the kernel's descriptors and to \<open>Opened\<close> is a
  step of its goroutine; an access to the map has a beginning and an end.
\<close>

section \<open>Goroutines\<close>

text \<open>
  A goroutine is a registration, the job of an event or a queued task, with the descriptor and the object it
  works on and where it is: before \<open>AddRead\<close>, before and inside the assignment to the map, at work with the
  open connection (\<open>OnOpen\<close>, reads, writes, the handler), after \<open>CloseFd\<close>, inside \<open>delete\<close>, before
  \<open>releaseTCP\<close>, at its end.
\<close>

datatype go_kind = Reg | EventJob | TaskJob

datatype go_pc = Adding | Listing | Assigning | Working | Closed | Deleting | Removed | Finished

record goroutine =
  kind :: go_kind
  gfd :: int
  obj :: nat
  pc :: go_pc

text \<open>The goroutine of the loop: in \<open>epoll_wait\<close>, inside the lookup of a descriptor, waiting for its jobs.\<close>

datatype look_pc = Waiting | Looking int | Joining

text \<open>
  \<open>fds\<close> are the open descriptors of connections, \<open>armed\<close> those among them the kernel reports events for,
  \<open>live\<close> the objects with \<open>Opened\<close> set, \<open>made\<close> the number of objects made.
\<close>

record table_sys =
  tab :: "int \<rightharpoonup> nat"
  fds :: "int set"
  armed :: "int set"
  live :: "nat set"
  made :: nat
  looker :: look_pc
  gos :: "goroutine list"

definition new_table :: table_sys where
  "new_table = \<lparr>tab = Map.empty, fds = {}, armed = {}, live = {}, made = 0, looker = Waiting, gos = []\<rparr>"

text \<open>
  One step of a goroutine of the pools, as a change of its position and of the shared state: of a registration
  up to the start of \<open>Open\<close>, and of one that works with an open connection and may close it.
\<close>

inductive register_step :: "goroutine \<Rightarrow> table_sys \<Rightarrow> go_pc \<Rightarrow> table_sys \<Rightarrow> bool" where
  add: "pc g = Adding \<Longrightarrow> gfd g \<in> fds s \<Longrightarrow> gfd g \<notin> armed s \<Longrightarrow>
    register_step g s Listing (s\<lparr>armed := insert (gfd g) (armed s)\<rparr>)"
| add_fails: "pc g = Adding \<Longrightarrow>
    register_step g s Finished (s\<lparr>armed := armed s - {gfd g}, fds := fds s - {gfd g}\<rparr>)"
| assign: "pc g = Listing \<Longrightarrow> register_step g s Assigning s"
| assigned: "pc g = Assigning \<Longrightarrow>
    register_step g s Working (s\<lparr>tab := (tab s)(gfd g \<mapsto> obj g), live := insert (obj g) (live s)\<rparr>)"

inductive close_step :: "goroutine \<Rightarrow> table_sys \<Rightarrow> go_pc \<Rightarrow> table_sys \<Rightarrow> bool" where
  ends: "pc g = Working \<Longrightarrow> close_step g s Finished s"
| close: "pc g = Working \<Longrightarrow> obj g \<in> live s \<Longrightarrow>
    close_step g s Closed (s\<lparr>armed := armed s - {gfd g}, fds := fds s - {gfd g}\<rparr>)"
| delete: "pc g = Closed \<Longrightarrow> close_step g s Deleting s"
| deleted: "pc g = Deleting \<Longrightarrow> close_step g s Removed (s\<lparr>tab := (tab s)(gfd g := None)\<rparr>)"
| release: "pc g = Removed \<Longrightarrow> close_step g s Finished (s\<lparr>live := live s - {obj g}\<rparr>)"

definition go_step :: "goroutine \<Rightarrow> table_sys \<Rightarrow> go_pc \<Rightarrow> table_sys \<Rightarrow> bool" where
  "go_step g s p s' \<longleftrightarrow> register_step g s p s' \<or> close_step g s p s'"

lemma go_register: "register_step g s p s' \<Longrightarrow> go_step g s p s'"
  and go_close: "close_step g s p s' \<Longrightarrow> go_step g s p s'"
  by (simp_all add: go_step_def)

inductive_cases register_stepE: "register_step g s p s'"
inductive_cases close_stepE: "close_step g s p s'"

lemma go_stepE [consumes 1, case_names add add_fails assign assigned ends close delete deleted release, cases pred: go_step]:
  assumes "go_step g s p s'"
  obtains "pc g = Adding" "gfd g \<in> fds s" "gfd g \<notin> armed s" "p = Listing" "s' = s\<lparr>armed := insert (gfd g) (armed s)\<rparr>"
  | "pc g = Adding" "p = Finished" "s' = s\<lparr>armed := armed s - {gfd g}, fds := fds s - {gfd g}\<rparr>"
  | "pc g = Listing" "p = Assigning" "s' = s"
  | "pc g = Assigning" "p = Working" "s' = s\<lparr>tab := (tab s)(gfd g \<mapsto> obj g), live := insert (obj g) (live s)\<rparr>"
  | "pc g = Working" "p = Finished" "s' = s"
  | "pc g = Working" "obj g \<in> live s" "p = Closed" "s' = s\<lparr>armed := armed s - {gfd g}, fds := fds s - {gfd g}\<rparr>"
  | "pc g = Closed" "p = Deleting" "s' = s"
  | "pc g = Deleting" "p = Removed" "s' = s\<lparr>tab := (tab s)(gfd g := None)\<rparr>"
  | "pc g = Removed" "p = Finished" "s' = s\<lparr>live := live s - {obj g}\<rparr>"
  using assms unfolding go_step_def by (elim disjE register_stepE close_stepE)

text \<open>
  A goroutine on a descriptor that it has closed and not yet taken off the list.
\<close>

definition stale :: "int \<Rightarrow> goroutine \<Rightarrow> bool" where
  "stale fd g \<longleftrightarrow> gfd g = fd \<and> pc g \<in> {Closed, Deleting}"

text \<open>
  A step of the system. The kernel gives an accepted connection any descriptor that is not open; \<open>reuse\<close> is
  whether it may be one that a goroutine has closed and not yet taken off the list. The loop takes an event, of
  a descriptor that is armed or was so when the batch was fetched, looks the descriptor up, submits the job of
  the connection it found, runs queued tasks on connections (\<open>queued\<close> is whether there are any) and waits for
  its jobs and tasks.
\<close>

inductive table_step :: "bool \<Rightarrow> bool \<Rightarrow> table_sys \<Rightarrow> table_sys \<Rightarrow> bool" for reuse queued where
  accept: "fd \<notin> fds s \<Longrightarrow> reuse \<or> (\<forall>g\<in>set (gos s). \<not> stale fd g) \<Longrightarrow>
    table_step reuse queued s (s\<lparr>fds := insert fd (fds s), made := Suc (made s),
      gos := gos s @ [\<lparr>kind = Reg, gfd = fd, obj = made s, pc = Adding\<rparr>]\<rparr>)"
| go: "i < length (gos s) \<Longrightarrow> go_step (gos s ! i) s p s' \<Longrightarrow>
    table_step reuse queued s (s'\<lparr>gos := (gos s)[i := (gos s ! i)\<lparr>pc := p\<rparr>]\<rparr>)"
| event: "looker s = Waiting \<Longrightarrow> table_step reuse queued s (s\<lparr>looker := Looking fd\<rparr>)"
| found: "looker s = Looking fd \<Longrightarrow> tab s fd = Some h \<Longrightarrow>
    table_step reuse queued s (s\<lparr>looker := Joining, gos := gos s @ [\<lparr>kind = EventJob, gfd = fd, obj = h, pc = Working\<rparr>]\<rparr>)"
| not_found: "looker s = Looking fd \<Longrightarrow> tab s fd = None \<Longrightarrow> table_step reuse queued s (s\<lparr>looker := Joining\<rparr>)"
| task: "queued \<Longrightarrow> looker s = Joining \<Longrightarrow> g \<in> set (gos s) \<Longrightarrow> kind g = Reg \<Longrightarrow>
    table_step reuse queued s (s\<lparr>gos := gos s @ [g\<lparr>kind := TaskJob, pc := Working\<rparr>]\<rparr>)"
| joined: "looker s = Joining \<Longrightarrow> \<forall>g\<in>set (gos s). kind g \<noteq> Reg \<longrightarrow> pc g = Finished \<Longrightarrow>
    table_step reuse queued s (s\<lparr>looker := Waiting\<rparr>)"

inductive_cases table_stepE: "table_step reuse queued s s'"

section \<open>Unlocked accesses\<close>

text \<open>
  A race on the map: a goroutine is inside an assignment or a delete while another one, or the lookup, is
  inside an access. Go's maps are not made for that; its runtime ends the program when it sees one.
\<close>

definition writing :: "goroutine \<Rightarrow> bool" where
  "writing g \<longleftrightarrow> pc g \<in> {Assigning, Deleting}"

fun looking :: "look_pc \<Rightarrow> bool" where
  "looking (Looking fd) = True"
| "looking l = False"

definition map_race :: "table_sys \<Rightarrow> bool" where
  "map_race s \<longleftrightarrow> (\<exists>i < length (gos s). writing (gos s ! i) \<and>
     (looking (looker s) \<or> (\<exists>j < length (gos s). j \<noteq> i \<and> writing (gos s ! j))))"

text \<open>
  The loop looks up only when its jobs and tasks have ended, and of its own jobs at most one is under way.
\<close>

definition busy :: "table_sys \<Rightarrow> nat \<Rightarrow> bool" where
  "busy s i \<longleftrightarrow> i < length (gos s) \<and> pc (gos s ! i) \<noteq> Finished"

definition loop_waits :: "table_sys \<Rightarrow> bool" where
  "loop_waits s \<longleftrightarrow> (looker s \<noteq> Joining \<longrightarrow> (\<forall>i. busy s i \<longrightarrow> kind (gos s ! i) = Reg)) \<and>
     (\<forall>i j. busy s i \<longrightarrow> busy s j \<longrightarrow> kind (gos s ! i) = EventJob \<longrightarrow> kind (gos s ! j) = EventJob \<longrightarrow> i = j)"

lemma go_step_frame: "go_step g s p s' \<Longrightarrow> pc g \<noteq> Finished \<and> looker s' = looker s \<and> gos s' = gos s \<and> made s' = made s"
  by (erule go_stepE) simp_all

lemma busy_after:
  assumes "go_step (gos s ! i) s p t" "i < length (gos s)"
  shows "busy (t\<lparr>gos := (gos s)[i := (gos s ! i)\<lparr>pc := p\<rparr>]\<rparr>) j \<Longrightarrow> busy s j"
    and "busy s j \<Longrightarrow> kind ((gos s)[i := (gos s ! i)\<lparr>pc := p\<rparr>] ! j) = kind (gos s ! j)"
  by (cases "j = i"; use go_step_frame [OF assms(1)] assms(2) in \<open>auto simp: busy_def\<close>)
     (cases "j = i"; use go_step_frame [OF assms(1)] assms(2) in \<open>auto simp: busy_def\<close>)

lemma busy_more: "busy (s\<lparr>gos := gos s @ [g]\<rparr>) i \<longleftrightarrow> busy s i \<or> i = length (gos s) \<and> pc g \<noteq> Finished"
  by (auto simp: busy_def nth_append)

lemma loop_waits_step: "table_step reuse queued s s' \<Longrightarrow> loop_waits s \<Longrightarrow> loop_waits s'"
proof (erule table_stepE)
  fix i p t
  assume w: "loop_waits s" and i: "i < length (gos s)" and g: "go_step (gos s ! i) s p t"
    and s': "s' = t\<lparr>gos := (gos s)[i := (gos s ! i)\<lparr>pc := p\<rparr>]\<rparr>"
  show "loop_waits s'"
    using w busy_after [OF g i] go_step_frame [OF g] unfolding s' loop_waits_def by simp
qed (auto simp: loop_waits_def busy_def nth_append less_Suc_eq all_set_conv_all_nth)

lemma loop_waits_new: "loop_waits new_table"
  by (simp add: loop_waits_def new_table_def busy_def)

text \<open>
  C25. Who can race on the list of connections: in every state that registrations, event jobs, tasks and the
  loop can reach, an unlocked access to the map that overlaps with another involves a write of a registration
  or of a queued task. The lookups of the loop and the closes of its own event jobs never overlap, because the
  loop waits for its jobs before it takes the next event.
\<close>

theorem map_race_needs_registration_or_task:
  assumes "(table_step reuse queued)\<^sup>*\<^sup>* new_table s" "map_race s"
  shows "\<exists>g\<in>set (gos s). kind g \<noteq> EventJob \<and> writing g"
proof -
  have "loop_waits s"
    using assms(1)
    by (induction rule: rtranclp_induct) (auto intro: loop_waits_step loop_waits_new)
  moreover have "writing g \<Longrightarrow> pc g \<noteq> Finished" for g by (auto simp: writing_def)
  ultimately show ?thesis
    using assms(2) unfolding map_race_def loop_waits_def busy_def
    by (metis go_kind.distinct(1) look_pc.distinct(5) looking.simps(3) nth_mem)
qed

section \<open>Events that find their connection\<close>

definition entering :: "int \<Rightarrow> goroutine \<Rightarrow> bool" where
  "entering fd g \<longleftrightarrow> gfd g = fd \<and> pc g \<in> {Listing, Assigning}"

text \<open>
  An open descriptor is not one that a goroutine has closed and not yet taken off the list, and an armed one is
  open and is listed or being entered.
\<close>

definition table_ok :: "table_sys \<Rightarrow> bool" where
  "table_ok s \<longleftrightarrow> (\<forall>fd\<in>fds s. \<forall>g\<in>set (gos s). \<not> stale fd g) \<and>
     (\<forall>fd\<in>armed s. fd \<in> fds s \<and> (tab s fd = None \<longrightarrow> (\<exists>g\<in>set (gos s). entering fd g)))"

lemma bex_update: "\<exists>g\<in>set gs. P g \<Longrightarrow> \<not> P (gs ! i) \<Longrightarrow> \<exists>g\<in>set (gs[i := x]). P g"
proof (elim bexE)
  fix g
  assume "\<not> P (gs ! i)" "g \<in> set gs" "P g"
  then obtain j where "j < length gs" "gs ! j = g" "j \<noteq> i" by (metis in_set_conv_nth)
  then have "g \<in> set (gs[i := x])" by (metis length_list_update nth_list_update_neq nth_mem)
  then show "\<exists>g\<in>set (gs[i := x]). P g" using \<open>P g\<close> by blast
qed

lemma ball_update: "\<forall>g\<in>set gs. P g \<Longrightarrow> P x \<Longrightarrow> \<forall>g\<in>set (gs[i := x]). P g"
  using set_update_subset_insert by fastforce

lemma table_ok_go:
  assumes "go_step (gos s ! i) s p t" "table_ok s" "i < length (gos s)"
  shows "table_ok (t\<lparr>gos := (gos s)[i := (gos s ! i)\<lparr>pc := p\<rparr>]\<rparr>)"
proof -
  let ?g = "gos s ! i" and ?x = "(gos s ! i)\<lparr>pc := p\<rparr>"
  have g: "?g \<in> set (gos s)" using assms(3) by simp
  have "\<not> stale fd ?x" if "fd \<in> fds t" for fd
    using assms(1,2) that g by cases (auto simp: stale_def table_ok_def)
  moreover have "fds t \<subseteq> fds s" using assms(1) by cases auto
  ultimately have st: "\<forall>h\<in>set ((gos s)[i := ?x]). \<not> stale fd h" if "fd \<in> fds t" for fd
    using that assms(2) ball_update [of "gos s" "\<lambda>h. \<not> stale fd h" ?x i] unfolding table_ok_def by blast
  have "fd \<in> fds t \<and> (tab t fd = None \<longrightarrow> (\<exists>h\<in>set ((gos s)[i := ?x]). entering fd h))" if fd: "fd \<in> armed t" for fd
  proof (cases "entering fd ?g")
    case True
    then have "p = Assigning \<or> tab t fd \<noteq> None" "armed t = armed s" "fds t = fds s"
      using assms(1) by (auto simp: entering_def elim: go_stepE)
    moreover have "entering fd ?x" if "p = Assigning" using True that by (simp add: entering_def)
    ultimately show ?thesis
      using assms(2,3) fd set_update_memI [of i "gos s" ?x] unfolding table_ok_def by metis
  next
    case False
    have a: "fd \<in> armed s \<or> fd = gfd ?g \<and> p = Listing"
      using assms(1) fd by cases auto
    have n: "tab t fd = None \<Longrightarrow> tab s fd = None \<or> gfd ?g = fd \<and> pc ?g = Deleting"
      using assms(1) by cases (auto split: if_splits)
    have "gfd ?g \<noteq> fd \<or> pc ?g \<noteq> Deleting" if "fd \<in> armed s"
      using assms(2) that g by (auto simp: table_ok_def stale_def)
    moreover have "fd \<in> fds t" using assms(1,2) fd by cases (auto simp: table_ok_def)
    moreover have "entering fd ?x" if "fd = gfd ?g" "p = Listing" using that by (simp add: entering_def)
    ultimately show ?thesis
      using a n assms(2,3) bex_update [of "gos s" "entering fd", OF _ False] set_update_memI [of i "gos s" ?x]
      unfolding table_ok_def by blast
  qed
  then show ?thesis using st by (simp add: table_ok_def)
qed

lemma table_ok_step: "table_step False queued s s' \<Longrightarrow> table_ok s \<Longrightarrow> table_ok s'"
proof (erule table_stepE)
  fix i p t
  assume "table_ok s" "i < length (gos s)" "go_step (gos s ! i) s p t" "s' = t\<lparr>gos := (gos s)[i := (gos s ! i)\<lparr>pc := p\<rparr>]\<rparr>"
  then show "table_ok s'" using table_ok_go by simp
qed (auto simp: table_ok_def stale_def)

lemma table_ok_new: "table_ok new_table"
  by (simp add: table_ok_def new_table_def)

text \<open>
  C24. If the kernel never gave a new connection a descriptor that a goroutine has closed and not yet taken off the list,
  every event would find its connection: in every reachable state each armed descriptor is in the list, or
  its registration is about to enter it.
\<close>

theorem armed_connection_is_listed:
  assumes "(table_step False queued)\<^sup>*\<^sup>* new_table s" "fd \<in> armed s"
  shows "tab s fd \<noteq> None \<or> (\<exists>g\<in>set (gos s). entering fd g)"
proof -
  have "table_ok s"
    using assms(1) by (induction rule: rtranclp_induct) (auto intro: table_ok_step table_ok_new)
  then show ?thesis using assms(2) by (auto simp: table_ok_def)
qed

section \<open>A connection that is forgotten\<close>

text \<open>
  A connection that is open and armed but not in the list, when nothing is under way that works on it.
\<close>

definition forgotten :: "int \<Rightarrow> nat \<Rightarrow> table_sys \<Rightarrow> bool" where
  "forgotten fd h s \<longleftrightarrow> fd \<in> fds s \<and> fd \<in> armed s \<and> h \<in> live s \<and> h < made s \<and> tab s fd = None \<and>
     (\<forall>x. tab s x \<noteq> Some h) \<and> (\<forall>g\<in>set (gos s). gfd g = fd \<or> obj g = h \<longrightarrow> pc g = Finished)"

lemma forgotten_go:
  assumes "go_step (gos s ! i) s p t" "forgotten fd h s" "i < length (gos s)"
  shows "forgotten fd h (t\<lparr>gos := (gos s)[i := (gos s ! i)\<lparr>pc := p\<rparr>]\<rparr>)"
proof -
  let ?g = "gos s ! i"
  have g: "gfd ?g \<noteq> fd" "obj ?g \<noteq> h"
    using assms(2) nth_mem [OF assms(3)] go_step_frame [OF assms(1)] unfolding forgotten_def by blast+
  then have "\<forall>x\<in>set ((gos s)[i := ?g\<lparr>pc := p\<rparr>]). gfd x = fd \<or> obj x = h \<longrightarrow> pc x = Finished"
    using assms(2) by (intro ball_update) (auto simp: forgotten_def)
  moreover have "fd \<in> fds t" "fd \<in> armed t" "h \<in> live t" "made t = made s" "tab t fd = None" "\<forall>x. tab t x \<noteq> Some h"
    using assms(1,2) g by (auto simp: forgotten_def elim!: go_stepE split: if_splits)
  ultimately show ?thesis using assms(2) by (simp add: forgotten_def)
qed

lemma forgotten_step: "table_step reuse False s s' \<Longrightarrow> forgotten fd h s \<Longrightarrow> forgotten fd h s'"
proof (erule table_stepE)
  fix i p t
  assume "forgotten fd h s" "i < length (gos s)" "go_step (gos s ! i) s p t" "s' = t\<lparr>gos := (gos s)[i := (gos s ! i)\<lparr>pc := p\<rparr>]\<rparr>"
  then show "forgotten fd h s'" using forgotten_go by simp
qed (auto simp: forgotten_def)


section \<open>Runs\<close>

lemma go_at:
  "gos s = gs @ g # hs \<Longrightarrow> go_step g s p t \<Longrightarrow> table_step reuse queued s (t\<lparr>gos := gs @ g\<lparr>pc := p\<rparr> # hs\<rparr>)"
  using table_step.go [of "length gs" s p t] by (simp add: nth_append list_update_append)

text \<open>A registration that runs alone, and the part of a close behind \<open>CloseFd\<close>.\<close>

lemma registration_run:
  assumes "fd \<notin> fds s" "fd \<notin> armed s" "reuse \<or> (\<forall>g\<in>set (gos s). \<not> stale fd g)"
  shows "(table_step reuse queued)\<^sup>*\<^sup>* s (s\<lparr>fds := insert fd (fds s), made := Suc (made s), armed := insert fd (armed s),
     tab := (tab s)(fd \<mapsto> made s), live := insert (made s) (live s),
     gos := gos s @ [\<lparr>kind = Reg, gfd = fd, obj = made s, pc = Finished\<rparr>]\<rparr>)"
proof -
  let ?g = "\<lambda>p. \<lparr>kind = Reg, gfd = fd, obj = made s, pc = p\<rparr>"
  let ?s0 = "s\<lparr>fds := insert fd (fds s), made := Suc (made s), gos := gos s @ [?g Adding]\<rparr>"
  let ?s1 = "?s0\<lparr>armed := insert fd (armed s), gos := gos s @ [?g Listing]\<rparr>"
  let ?s2 = "?s1\<lparr>gos := gos s @ [?g Assigning]\<rparr>"
  let ?s3 = "?s2\<lparr>tab := (tab s)(fd \<mapsto> made s), live := insert (made s) (live s), gos := gos s @ [?g Working]\<rparr>"
  have 0: "table_step reuse queued s ?s0" by (rule table_step.accept [OF assms(1,3)])
  have 1: "table_step reuse queued ?s0 ?s1"
    using go_at [OF _ go_register [OF register_step.add], of ?s0 "gos s" "?g Adding" "[]"] assms(2) by simp
  have 2: "table_step reuse queued ?s1 ?s2"
    using go_at [OF _ go_register [OF register_step.assign], of ?s1 "gos s" "?g Listing" "[]"] by simp
  have 3: "table_step reuse queued ?s2 ?s3"
    using go_at [OF _ go_register [OF register_step.assigned], of ?s2 "gos s" "?g Assigning" "[]"] by simp
  have 4: "table_step reuse queued ?s3 (?s3\<lparr>gos := gos s @ [?g Finished]\<rparr>)"
    using go_at [OF _ go_close [OF close_step.ends], of ?s3 "gos s" "?g Working" "[]"] by simp
  have "(table_step reuse queued)\<^sup>*\<^sup>* s (?s3\<lparr>gos := gos s @ [?g Finished]\<rparr>)"
    using 0 1 2 3 4 by (meson converse_rtranclp_into_rtranclp rtranclp.rtrancl_refl)
  then show ?thesis by simp
qed

lemma removal_run:
  assumes "gos s = gs @ g # hs" "pc g = Closed"
  shows "(table_step reuse queued)\<^sup>*\<^sup>* s (s\<lparr>tab := (tab s)(gfd g := None), live := live s - {obj g},
     gos := gs @ g\<lparr>pc := Finished\<rparr> # hs\<rparr>)"
proof -
  let ?s1 = "s\<lparr>gos := gs @ g\<lparr>pc := Deleting\<rparr> # hs\<rparr>"
  let ?s2 = "?s1\<lparr>tab := (tab s)(gfd g := None), gos := gs @ g\<lparr>pc := Removed\<rparr> # hs\<rparr>"
  have 1: "table_step reuse queued s ?s1" using go_at [OF assms(1) go_close [OF close_step.delete]] assms(2) by simp
  have 2: "table_step reuse queued ?s1 ?s2"
    using go_at [OF _ go_close [OF close_step.deleted], of ?s1 gs "g\<lparr>pc := Deleting\<rparr>" hs] by simp
  have 3: "table_step reuse queued ?s2 (?s2\<lparr>live := live s - {obj g}, gos := gs @ g\<lparr>pc := Finished\<rparr> # hs\<rparr>)"
    using go_at [OF _ go_close [OF close_step.release], of ?s2 gs "g\<lparr>pc := Removed\<rparr>" hs] by simp
  have "(table_step reuse queued)\<^sup>*\<^sup>* s (?s2\<lparr>live := live s - {obj g}, gos := gs @ g\<lparr>pc := Finished\<rparr> # hs\<rparr>)"
    using 1 2 3 by (meson converse_rtranclp_into_rtranclp rtranclp.rtrancl_refl)
  then show ?thesis by simp
qed

text \<open>The first connection, on descriptor 9.\<close>

definition one_listed :: table_sys where
  "one_listed = \<lparr>tab = [9 \<mapsto> 0], fds = {9}, armed = {9}, live = {0}, made = 1, looker = Waiting,
     gos = [\<lparr>kind = Reg, gfd = 9, obj = 0, pc = Finished\<rparr>]\<rparr>"

lemma one_listed_reached: "(table_step reuse queued)\<^sup>*\<^sup>* new_table one_listed"
  using registration_run [of 9 new_table reuse queued] by (simp add: new_table_def one_listed_def)

text \<open>The second connection is entered while the loop looks up the first one.\<close>

definition racing :: table_sys where
  "racing = one_listed\<lparr>looker := Looking 9, fds := {11, 9}, made := 2, armed := {11, 9},
     gos := gos one_listed @ [\<lparr>kind = Reg, gfd = 11, obj = 1, pc = Assigning\<rparr>]\<rparr>"

lemma map_race_reached: "(table_step reuse queued)\<^sup>*\<^sup>* new_table racing \<and> map_race racing"
proof
  let ?g = "\<lambda>p. \<lparr>kind = Reg, gfd = 11, obj = 1, pc = p\<rparr>"
  let ?s1 = "one_listed\<lparr>looker := Looking 9\<rparr>"
  let ?s2 = "?s1\<lparr>fds := {11, 9}, made := 2, gos := gos one_listed @ [?g Adding]\<rparr>"
  let ?s3 = "?s2\<lparr>armed := {11, 9}, gos := gos one_listed @ [?g Listing]\<rparr>"
  have 1: "table_step reuse queued one_listed ?s1" by (rule table_step.event) (simp add: one_listed_def)
  have 2: "table_step reuse queued ?s1 ?s2"
    using table_step.accept [of 11 ?s1 reuse queued] by (simp add: one_listed_def stale_def numeral_2_eq_2)
  have 3: "table_step reuse queued ?s2 ?s3"
    using go_at [OF _ go_register [OF register_step.add], of ?s2 "gos one_listed" "?g Adding" "[]"] by (simp add: one_listed_def numeral_2_eq_2)
  have 4: "table_step reuse queued ?s3 racing"
    using go_at [OF _ go_register [OF register_step.assign], of ?s3 "gos one_listed" "?g Listing" "[]"] by (simp add: one_listed_def racing_def numeral_2_eq_2)
  show "(table_step reuse queued)\<^sup>*\<^sup>* new_table racing"
    using one_listed_reached 1 2 3 4 by (meson rtranclp.rtrancl_into_rtrancl)
  show "map_race racing"
    unfolding map_race_def by (intro exI [of _ 1]) (simp add: racing_def one_listed_def writing_def)
qed

theorem map_race_needs_registration_or_task_witness:
  "map_race racing \<and> (\<exists>g\<in>set (gos racing). kind g \<noteq> EventJob \<and> writing g)"
  using map_race_needs_registration_or_task [of True False racing] map_race_reached by blast

theorem armed_connection_is_listed_witness: "9 \<in> armed one_listed \<and> tab one_listed 9 \<noteq> None"
proof -
  have "9 \<in> armed one_listed" "\<not> (\<exists>g\<in>set (gos one_listed). entering 9 g)"
    by (simp_all add: one_listed_def entering_def)
  then show ?thesis using armed_connection_is_listed [OF one_listed_reached [of False False]] by blast
qed

text \<open>
  The event job of the first connection has closed descriptor 9; the second connection is accepted on the same
  descriptor and registered; then the job takes the descriptor off the list.
\<close>

definition reused :: table_sys where
  "reused = \<lparr>tab = Map.empty, fds = {9}, armed = {9}, live = {1}, made = 2, looker = Waiting,
     gos = [\<lparr>kind = Reg, gfd = 9, obj = 0, pc = Finished\<rparr>, \<lparr>kind = EventJob, gfd = 9, obj = 0, pc = Finished\<rparr>,
       \<lparr>kind = Reg, gfd = 9, obj = 1, pc = Finished\<rparr>]\<rparr>"

lemma reused_forgotten: "forgotten 9 1 reused"
  by (simp add: forgotten_def reused_def)

lemma closed_descriptor_is_reused: "(table_step True queued)\<^sup>*\<^sup>* new_table reused"
proof -
  let ?j = "\<lambda>p. \<lparr>kind = EventJob, gfd = 9, obj = 0, pc = p\<rparr>"
  let ?s1 = "one_listed\<lparr>looker := Looking 9\<rparr>"
  let ?s2 = "?s1\<lparr>looker := Joining, gos := gos one_listed @ [?j Working]\<rparr>"
  let ?s3 = "?s2\<lparr>armed := {}, fds := {}, gos := gos one_listed @ [?j Closed]\<rparr>"
  let ?s4 = "?s3\<lparr>fds := {9}, made := 2, armed := {9}, tab := [9 \<mapsto> 1], live := {1, 0},
    gos := gos one_listed @ [?j Closed, \<lparr>kind = Reg, gfd = 9, obj = 1, pc = Finished\<rparr>]\<rparr>"
  let ?s5 = "reused\<lparr>looker := Joining\<rparr>"
  have 1: "table_step True queued one_listed ?s1" by (rule table_step.event) (simp add: one_listed_def)
  have 2: "table_step True queued ?s1 ?s2"
    using table_step.found [of ?s1 9 0 True queued] by (simp add: one_listed_def numeral_2_eq_2)
  have 3: "table_step True queued ?s2 ?s3"
    using go_at [OF _ go_close [OF close_step.close], of ?s2 "gos one_listed" "?j Working" "[]"] by (simp add: one_listed_def numeral_2_eq_2)
  have 4: "(table_step True queued)\<^sup>*\<^sup>* ?s3 ?s4"
    using registration_run [of 9 ?s3 True queued] by (simp add: one_listed_def numeral_2_eq_2)
  have 5: "(table_step True queued)\<^sup>*\<^sup>* ?s4 ?s5"
    using removal_run [of ?s4 "gos one_listed" "?j Closed" "[\<lparr>kind = Reg, gfd = 9, obj = 1, pc = Finished\<rparr>]" True queued]
    by (simp add: one_listed_def reused_def numeral_2_eq_2 insert_Diff_if)
  have 6: "table_step True queued ?s5 reused"
    using table_step.joined [of ?s5 True queued] by (simp add: reused_def)
  show ?thesis
    using one_listed_reached 1 2 3 4 5 6 by (meson rtranclp.rtrancl_into_rtrancl rtranclp_trans)
qed


section \<open>The steps and the code\<close>

text \<open>
  The steps are those of the code: a registration and a close that run alone leave the list that \<open>RegisterConn\<close>
  and \<open>Close\<close> leave (with handlers that do not touch the list themselves).
\<close>

lemma RegisterConn_follows:
  assumes "RegisterConn E False a cb (made s) c = Ret (None, c')" "ConnList (cworld c) = tab s"
    and "\<And>q. \<exists>q'. onOpen E q = ((None, None), q') \<and> ConnList (cworld q') = ConnList (cworld q)"
    and "Fd c \<notin> fds s" "Fd c \<notin> armed s" "\<forall>g\<in>set (gos s). \<not> stale (Fd c) g"
  shows "\<exists>s'. (table_step reuse queued)\<^sup>*\<^sup>* s s' \<and> ConnList (cworld c') = tab s'"
proof -
  obtain e c1 where a: "on_poll (AddRead (kernel_of E)) c = (e, c1)" by fastforce
  then have c1: "Fd c1 = Fd c" "cworld c1 = cworld c" by (auto simp: on_poll_def split: prod.splits)
  have "e = None" using assms(1) a by (auto simp: RegisterConn_def split: option.splits)
  let ?c2 = "c1\<lparr>Ctx := Some \<lparr>ctx_conn = Adapt a cb, ctx_tls = False\<rparr>\<rparr>"
  let ?c3 = "?c2\<lparr>cworld := (cworld ?c2)\<lparr>ConnList := (ConnList (cworld ?c2))(Fd ?c2 \<mapsto> made s)\<rparr>\<rparr>"
  obtain q' where q: "onOpen E (?c3\<lparr>Opened := True\<rparr>) = ((None, None), q')"
      "ConnList (cworld q') = ConnList (cworld (?c3\<lparr>Opened := True\<rparr>))" using assms(3) by blast
  have "conn_Open E ?c3 = Ret (if \<not> ob_IsEmpty (out_of E) (OutBuffer q') then on_poll (AddWrite (kernel_of E)) q' else (None, q'))"
    using q(1) by (simp add: conn_Open_def)
  then have "ConnList (cworld c') = ConnList (cworld q')"
    using assms(1) a \<open>e = None\<close>
    by (auto simp: RegisterConn_def InitContext_def Let_def count_conn_def AddConnCount_def on_poll_def split: if_splits prod.splits)
  then have l: "ConnList (cworld c') = (tab s)(Fd c \<mapsto> made s)" using q(2) c1 assms(2) by simp
  show ?thesis
    by (rule exI, rule conjI, rule registration_run [OF assms(4,5) disjI2 [OF assms(6)]]) (simp add: l)
qed

lemma close_flush_world:
  fixes c :: "('cb, 'ob, 'rb, 'sa, 'k, 'w) conn"
  shows "close_flush E c = Some c' \<Longrightarrow> Fd c' = Fd c \<and> cworld c' = cworld c"
proof (rule close_flush.raw_induct [where P = "\<lambda>E c c'. Fd c' = Fd c \<and> cworld c' = cworld c"])
  fix flush :: "('cb, 'ob, 'rb, 'sa, 'k, 'w) conn_env \<Rightarrow> ('cb, 'ob, 'rb, 'sa, 'k, 'w) conn \<Rightarrow>
      ('cb, 'ob, 'rb, 'sa, 'k, 'w) conn option" and E :: "('cb, 'ob, 'rb, 'sa, 'k, 'w) conn_env" and c c'
  assume IH: "\<And>E c c'. flush E c = Some c' \<Longrightarrow> Fd c' = Fd c \<and> cworld c' = cworld c"
    and d: "(if ob_IsEmpty (out_of E) (OutBuffer c) then Some c
       else (case Writev (kernel_of E) (Fd c) (take IovMax (ob_Peek (out_of E) 0 (OutBuffer c))) (ckern c) of
              ((n, err), k) \<Rightarrow>
                if err \<noteq> None then Some (c\<lparr>ckern := k\<rparr>)
                else flush E (c\<lparr>ckern := k, OutBuffer := ob_Discard (out_of E) n (OutBuffer c)\<rparr>))) = Some c'"
  show "Fd c' = Fd c \<and> cworld c' = cworld c"
    using d IH by (force split: if_splits prod.splits)
qed

lemma Close_follows:
  assumes "conn_Close E c = Ret (e, c')" "Opened c" "AddrLocal c = Some (TCPAddr ip port zone)"
    and "removeConn E = RemoveConn" "ConnList (cworld c) = tab s"
    and "\<And>q. ConnList (cworld (snd (onClose E q))) = ConnList (cworld q)"
    and "gos s = gs @ g # hs" "pc g = Working" "gfd g = Fd c" "obj g \<in> live s"
  shows "\<exists>s'. (table_step reuse queued)\<^sup>*\<^sup>* s s' \<and> ConnList (cworld c') = tab s'"
proof -
  obtain c1 where f: "close_flush E c = Some c1"
    using assms(1-3) by (auto simp: conn_Close_def split: option.splits)
  note w = close_flush_world [OF f]
  have l: "ConnList (cworld c') = (tab s)(Fd c := None)"
    using assms(1-5) f w assms(6) [of "c1\<lparr>ckern := k, cworld := RemoveConn (Fd c1) (cworld c1)\<rparr>" for k]
    by (auto simp: conn_Close_def Let_def releaseTCP_def RemoveConn_def count_conn_def AddConnCount_def
        split: prod.splits) (metis snd_conv)
  have closes: "table_step reuse queued s (s\<lparr>armed := armed s - {gfd g}, fds := fds s - {gfd g},
      gos := gs @ g\<lparr>pc := Closed\<rparr> # hs\<rparr>)"
    using go_at [OF assms(7) go_close [OF close_step.close]] assms(8,10) by simp
  have removes: "(table_step reuse queued)\<^sup>*\<^sup>* (s\<lparr>armed := armed s - {gfd g}, fds := fds s - {gfd g},
      gos := gs @ g\<lparr>pc := Closed\<rparr> # hs\<rparr>) (s\<lparr>armed := armed s - {gfd g}, fds := fds s - {gfd g},
      tab := (tab s)(gfd g := None), live := live s - {obj g}, gos := gs @ g\<lparr>pc := Finished\<rparr> # hs\<rparr>)"
    using removal_run [of "s\<lparr>armed := armed s - {gfd g}, fds := fds s - {gfd g}, gos := gs @ g\<lparr>pc := Closed\<rparr> # hs\<rparr>"
        gs "g\<lparr>pc := Closed\<rparr>" hs] by simp
  show ?thesis
    by (rule exI, rule conjI, rule converse_rtranclp_into_rtranclp [OF closes removes]) (simp add: l assms(9))
qed

end
